(* ===== verification/Prelude.thy ===== *)
theory Prelude
  imports Main "HOL-Library.Word" "HOL-Library.More_List"
begin

text \<open>
  Shared vocabulary of the development: the C integer types as words, the
  result type of code that may call \<^verbatim>\<open>elog(ERROR, ...)\<close>, the in-place word
  loop that several routines share, and the generic lemmas on lists and
  words that the component theories use.

  Conventions.  A pointer that may be \<^verbatim>\<open>NULL\<close> is an \<open>option\<close>.  An
  \<^verbatim>\<open>elog(ERROR)\<close> or \<^verbatim>\<open>ereport(ERROR)\<close> unwinds the caller, so it is the
  left value of a sum.  An access outside an array, which C leaves undefined,
  is the left value \<open>UB\<close>, so that its absence is a theorem.  \<^verbatim>\<open>Assert\<close> is
  compiled out of production builds, so an asserted condition is never a
  branch of a definition; where it matters it is a theorem.
\<close>

unbundle bit_operations_syntax

type_synonym uint8 = "8 word"
type_synonym uint16 = "16 word"
type_synonym uint32 = "32 word"
type_synonym uint64 = "64 word"

datatype pg_error = ERROR string | UB string

type_synonym 'a result = "pg_error + 'a"

named_theorems stream_simps \<open>cursor and data of a bitstream after an operation\<close>
named_theorems gdd_simps \<open>edges and degrees of a detector context after an operation\<close>

text \<open>Division of C integers by a positive divisor truncates towards zero.\<close>

definition c_div :: "int \<Rightarrow> int \<Rightarrow> int" where
  "c_div a b = (if a \<ge> 0 then a div b else - ((- a) div b))"

definition bindE :: "'a result \<Rightarrow> ('a \<Rightarrow> 'b result) \<Rightarrow> 'b result" where
  "bindE m f = (case m of Inl e \<Rightarrow> Inl e | Inr a \<Rightarrow> f a)"

lemma bindE_simps [simp]:
  "bindE (Inl e) f = Inl e"
  "bindE (Inr a) f = f a"
  by (simp_all add: bindE_def)

lemma bindE_eq_Inr: "bindE m f = Inr b \<longleftrightarrow> (\<exists>a. m = Inr a \<and> f a = Inr b)"
  by (cases m) simp_all

text \<open>
  A loop over the objects of an array that updates each object through a body that may raise an
  error; the body is told the index.
\<close>

fun mapE :: "(nat \<Rightarrow> 'a \<Rightarrow> 'b result) \<Rightarrow> nat \<Rightarrow> 'a list \<Rightarrow> 'b list result" where
  "mapE f i [] = Inr []"
| "mapE f i (x # xs) = bindE (f i x) (\<lambda>y. bindE (mapE f (Suc i) xs) (\<lambda>ys. Inr (y # ys)))"

lemma mapE_Inr:
  "mapE f i xs = Inr ys \<Longrightarrow> length ys = length xs \<and> (\<forall>j < length xs. f (i + j) (xs ! j) = Inr (ys ! j))"
proof (induction xs arbitrary: i ys)
  case (Cons x xs)
  then obtain y zs where z: "f i x = Inr y" "mapE f (Suc i) xs = Inr zs" "ys = y # zs" by (auto simp: bindE_eq_Inr)
  from Cons.IH [OF z(2)] z show ?case by (auto simp: nth_Cons split: nat.splits)
qed simp

lemma mapE_Inl: "mapE f i xs = Inl e \<Longrightarrow> \<exists>j < length xs. f (i + j) (xs ! j) = Inl e"
proof (induction xs arbitrary: i)
  case (Cons x xs)
  show ?case
  proof (cases "f i x")
    case (Inl e')
    with Cons.prems show ?thesis by auto
  next
    case (Inr y)
    with Cons.prems have "mapE f (Suc i) xs = Inl e" by (cases "mapE f (Suc i) xs") simp_all
    from Cons.IH [OF this] obtain j where "j < length xs" "f (Suc i + j) (xs ! j) = Inl e" by blast
    then show ?thesis by (intro exI [of _ "Suc j"]) simp
  qed
qed simp

text \<open>The conversion of an \<^verbatim>\<open>int64\<close> to an \<^verbatim>\<open>int\<close>.\<close>

definition c_int :: "int \<Rightarrow> int" where
  "c_int x = signed_take_bit 31 x"

lemma c_int_small: "0 \<le> x \<Longrightarrow> x < 2 ^ 31 \<Longrightarrow> c_int x = x"
  by (simp add: c_int_def signed_take_bit_int_eq_self)

lemma c_int_minus_one [simp]: "c_int (-1) = -1"
  by (simp add: c_int_def)

text \<open>The greatest size that \<^verbatim>\<open>palloc\<close> accepts.\<close>

definition MaxAllocSize :: int where
  "MaxAllocSize = 0x3fffffff"

text \<open>The conversions \<^verbatim>\<open>%d\<close> and \<^verbatim>\<open>%llu\<close> of formatted output.\<close>

fun fmt_nat :: "nat \<Rightarrow> string" where
  "fmt_nat n = (if n < 10 then [char_of (48 + n)] else fmt_nat (n div 10) @ [char_of (48 + n mod 10)])"

declare fmt_nat.simps [simp del]

definition fmt_d :: "int \<Rightarrow> string" where
  "fmt_d z = (if z < 0 then CHR ''-'' # fmt_nat (nat (- z)) else fmt_nat (nat z))"

definition fmt_u64 :: "uint64 \<Rightarrow> string" where
  "fmt_u64 w = fmt_nat (unat w)"

text \<open>
  The loop \<^verbatim>\<open>for (i = 0; i < Min(len(xs), len(ys)); i++) xs[i] = f(xs[i], ys[i])\<close>:
  the common prefix is updated in place and the rest of the destination is kept.
\<close>

fun zip_into :: "('a \<Rightarrow> 'b \<Rightarrow> 'a) \<Rightarrow> 'a list \<Rightarrow> 'b list \<Rightarrow> 'a list" where
  "zip_into f (x # xs) (y # ys) = f x y # zip_into f xs ys"
| "zip_into f xs _ = xs"

lemma length_zip_into [simp]: "length (zip_into f xs ys) = length xs"
  by (induction f xs ys rule: zip_into.induct) auto

lemma nth_default_zip_into:
  "nth_default d (zip_into f xs ys) i =
     (if i < length xs \<and> i < length ys then f (xs ! i) (ys ! i) else nth_default d xs i)"
proof (induction f xs ys arbitrary: i rule: zip_into.induct)
  case (1 f x xs y ys)
  then show ?case by (cases i) auto
qed (auto simp: nth_default_def)

lemma nth_default_in: "i < length xs \<Longrightarrow> nth_default d xs i = xs ! i"
  by (simp add: nth_default_def)

lemma nth_default_out: "length xs \<le> i \<Longrightarrow> nth_default d xs i = d"
  by (simp add: nth_default_def)

lemma nth_default_update:
  "i < length xs \<Longrightarrow> nth_default d (xs[i := v]) j = (if j = i then v else nth_default d xs j)"
  by (simp add: nth_default_def)

lemma nth_default_replicate_app:
  "nth_default d (xs @ replicate n d) i = nth_default d xs i"
  by (auto simp: nth_default_def nth_append)

lemma word_zero_iff_bits:
  fixes w :: "'a::len word"
  shows "w = 0 \<longleftrightarrow> (\<forall>n < LENGTH('a). \<not> bit w n)"
  by (metis bit_0_eq bit_imp_le_length bit_word_eqI bot_apply bot_bool_def not_le_imp_less)

lemma word_nonzero_bit:
  fixes w :: "'a::len word"
  assumes "w \<noteq> 0"
  obtains n where "n < LENGTH('a)" "bit w n"
  using assms by (auto simp: word_zero_iff_bits)

lemma unat_uint64_less: "unat (w :: uint64) < 2 ^ 64"
  using unsigned_less [of w, where ?'a = nat] by simp

lemma radix_eq_iff:
  fixes a b m n B :: nat
  assumes "a < B" and "b < B"
  shows "a + B * m = b + B * n \<longleftrightarrow> a = b \<and> m = n"
proof
  assume eq: "a + B * m = b + B * n"
  then have "(a + B * m) mod B = (b + B * n) mod B" by simp
  then have "a = b" using assms by simp
  with eq assms show "a = b \<and> m = n" by simp
qed simp

lemma radix_less:
  fixes a b m n B :: nat
  assumes "a < B" and "b < B" and "m < n"
  shows "a + B * m < b + B * n"
proof -
  from assms(3) have "B * (m + 1) \<le> B * n" by (intro mult_le_mono2) simp
  with assms(1) show ?thesis by (simp add: distrib_left)
qed

lemma bit_word_length: "bit (w :: 'a::len word) n \<Longrightarrow> n < LENGTH('a)"
  using bit_imp_le_length by blast

end
