(* ===== verification/BitUtils.thy ===== *)
theory BitUtils
  imports Prelude
begin

text \<open>
  The bit-twiddling primitives of \<^verbatim>\<open>src/include/port/pg_bitutils.h\<close> and
  \<^verbatim>\<open>src/port/pg_bitutils.c\<close>, in the portable branch that uses the three
  256-entry byte tables.  The lemmas show that the tables and the byte loops
  compute the most significant set bit, the least significant set bit and
  the number of set bits; the locale \<open>bitmapword_ops\<close> is the interface that
  the bitmap set package relies on.
\<close>

section \<open>Byte tables\<close>

definition pg_leftmost_one_pos :: "nat list" where
  "pg_leftmost_one_pos =
    [0, 0, 1, 1, 2, 2, 2, 2, 3, 3, 3, 3, 3, 3, 3, 3,
     4, 4, 4, 4, 4, 4, 4, 4, 4, 4, 4, 4, 4, 4, 4, 4,
     5, 5, 5, 5, 5, 5, 5, 5, 5, 5, 5, 5, 5, 5, 5, 5,
     5, 5, 5, 5, 5, 5, 5, 5, 5, 5, 5, 5, 5, 5, 5, 5,
     6, 6, 6, 6, 6, 6, 6, 6, 6, 6, 6, 6, 6, 6, 6, 6,
     6, 6, 6, 6, 6, 6, 6, 6, 6, 6, 6, 6, 6, 6, 6, 6,
     6, 6, 6, 6, 6, 6, 6, 6, 6, 6, 6, 6, 6, 6, 6, 6,
     6, 6, 6, 6, 6, 6, 6, 6, 6, 6, 6, 6, 6, 6, 6, 6,
     7, 7, 7, 7, 7, 7, 7, 7, 7, 7, 7, 7, 7, 7, 7, 7,
     7, 7, 7, 7, 7, 7, 7, 7, 7, 7, 7, 7, 7, 7, 7, 7,
     7, 7, 7, 7, 7, 7, 7, 7, 7, 7, 7, 7, 7, 7, 7, 7,
     7, 7, 7, 7, 7, 7, 7, 7, 7, 7, 7, 7, 7, 7, 7, 7,
     7, 7, 7, 7, 7, 7, 7, 7, 7, 7, 7, 7, 7, 7, 7, 7,
     7, 7, 7, 7, 7, 7, 7, 7, 7, 7, 7, 7, 7, 7, 7, 7,
     7, 7, 7, 7, 7, 7, 7, 7, 7, 7, 7, 7, 7, 7, 7, 7,
     7, 7, 7, 7, 7, 7, 7, 7, 7, 7, 7, 7, 7, 7, 7, 7]"

definition pg_rightmost_one_pos :: "nat list" where
  "pg_rightmost_one_pos =
    [0, 0, 1, 0, 2, 0, 1, 0, 3, 0, 1, 0, 2, 0, 1, 0,
     4, 0, 1, 0, 2, 0, 1, 0, 3, 0, 1, 0, 2, 0, 1, 0,
     5, 0, 1, 0, 2, 0, 1, 0, 3, 0, 1, 0, 2, 0, 1, 0,
     4, 0, 1, 0, 2, 0, 1, 0, 3, 0, 1, 0, 2, 0, 1, 0,
     6, 0, 1, 0, 2, 0, 1, 0, 3, 0, 1, 0, 2, 0, 1, 0,
     4, 0, 1, 0, 2, 0, 1, 0, 3, 0, 1, 0, 2, 0, 1, 0,
     5, 0, 1, 0, 2, 0, 1, 0, 3, 0, 1, 0, 2, 0, 1, 0,
     4, 0, 1, 0, 2, 0, 1, 0, 3, 0, 1, 0, 2, 0, 1, 0,
     7, 0, 1, 0, 2, 0, 1, 0, 3, 0, 1, 0, 2, 0, 1, 0,
     4, 0, 1, 0, 2, 0, 1, 0, 3, 0, 1, 0, 2, 0, 1, 0,
     5, 0, 1, 0, 2, 0, 1, 0, 3, 0, 1, 0, 2, 0, 1, 0,
     4, 0, 1, 0, 2, 0, 1, 0, 3, 0, 1, 0, 2, 0, 1, 0,
     6, 0, 1, 0, 2, 0, 1, 0, 3, 0, 1, 0, 2, 0, 1, 0,
     4, 0, 1, 0, 2, 0, 1, 0, 3, 0, 1, 0, 2, 0, 1, 0,
     5, 0, 1, 0, 2, 0, 1, 0, 3, 0, 1, 0, 2, 0, 1, 0,
     4, 0, 1, 0, 2, 0, 1, 0, 3, 0, 1, 0, 2, 0, 1, 0]"

definition pg_number_of_ones :: "nat list" where
  "pg_number_of_ones =
    [0, 1, 1, 2, 1, 2, 2, 3, 1, 2, 2, 3, 2, 3, 3, 4,
     1, 2, 2, 3, 2, 3, 3, 4, 2, 3, 3, 4, 3, 4, 4, 5,
     1, 2, 2, 3, 2, 3, 3, 4, 2, 3, 3, 4, 3, 4, 4, 5,
     2, 3, 3, 4, 3, 4, 4, 5, 3, 4, 4, 5, 4, 5, 5, 6,
     1, 2, 2, 3, 2, 3, 3, 4, 2, 3, 3, 4, 3, 4, 4, 5,
     2, 3, 3, 4, 3, 4, 4, 5, 3, 4, 4, 5, 4, 5, 5, 6,
     2, 3, 3, 4, 3, 4, 4, 5, 3, 4, 4, 5, 4, 5, 5, 6,
     3, 4, 4, 5, 4, 5, 5, 6, 4, 5, 5, 6, 5, 6, 6, 7,
     1, 2, 2, 3, 2, 3, 3, 4, 2, 3, 3, 4, 3, 4, 4, 5,
     2, 3, 3, 4, 3, 4, 4, 5, 3, 4, 4, 5, 4, 5, 5, 6,
     2, 3, 3, 4, 3, 4, 4, 5, 3, 4, 4, 5, 4, 5, 5, 6,
     3, 4, 4, 5, 4, 5, 5, 6, 4, 5, 5, 6, 5, 6, 6, 7,
     2, 3, 3, 4, 3, 4, 4, 5, 3, 4, 4, 5, 4, 5, 5, 6,
     3, 4, 4, 5, 4, 5, 5, 6, 4, 5, 5, 6, 5, 6, 6, 7,
     3, 4, 4, 5, 4, 5, 5, 6, 4, 5, 5, 6, 5, 6, 6, 7,
     4, 5, 5, 6, 5, 6, 6, 7, 5, 6, 6, 7, 6, 7, 7, 8]"

section \<open>The word routines\<close>

text \<open>
  The loop of \<^verbatim>\<open>pg_leftmost_one_pos64\<close> walks \<^verbatim>\<open>shift\<close> down from 56 in steps of 8;
  the argument is \<^verbatim>\<open>shift / 8\<close>.  At shift 0 the loop test fails for every nonzero
  word (zero is excluded by the routine's contract).
\<close>

fun leftmost_loop :: "nat \<Rightarrow> uint64 \<Rightarrow> nat" where
  "leftmost_loop (Suc k) word =
     (if drop_bit (8 * Suc k) word = 0 then leftmost_loop k word
      else 8 * Suc k + pg_leftmost_one_pos ! unat (drop_bit (8 * Suc k) word AND 255))"
| "leftmost_loop 0 word = pg_leftmost_one_pos ! unat (word AND 255)"

definition pg_leftmost_one_pos64 :: "uint64 \<Rightarrow> nat" where
  "pg_leftmost_one_pos64 word = leftmost_loop 7 word"

text \<open>
  The loop of \<^verbatim>\<open>pg_rightmost_one_pos64\<close> would not end on 0, which its contract
  excludes; the guard \<open>word \<noteq> 0\<close> only cuts that case.
\<close>

function rightmost_loop :: "uint64 \<Rightarrow> nat \<Rightarrow> nat" where
  "rightmost_loop word result =
     (if word \<noteq> 0 \<and> word AND 255 = 0 then rightmost_loop (drop_bit 8 word) (result + 8)
      else result + pg_rightmost_one_pos ! unat (word AND 255))"
  by pat_completeness auto

lemma drop_bit_8_less: "(w :: uint64) \<noteq> 0 \<Longrightarrow> unat (drop_bit 8 w) < unat w"
  by (metis drop_bit_eq_div div_less_dividend one_less_numeral_iff power_gt1_lemma unat_drop_bit_eq unat_gt_0 one_less_power semiring_norm(76) zero_less_numeral)

termination rightmost_loop
  by (relation "measure (\<lambda>(w, _). unat w)") (auto simp: drop_bit_8_less)

declare rightmost_loop.simps [simp del]

definition pg_rightmost_one_pos64 :: "uint64 \<Rightarrow> nat" where
  "pg_rightmost_one_pos64 word = rightmost_loop word 0"

function popcount_loop :: "uint64 \<Rightarrow> nat \<Rightarrow> nat" where
  "popcount_loop word result =
     (if word \<noteq> 0
      then popcount_loop (drop_bit 8 word) (result + pg_number_of_ones ! unat (word AND 255))
      else result)"
  by pat_completeness auto

termination popcount_loop
  by (relation "measure (\<lambda>(w, _). unat w)") (auto simp: drop_bit_8_less)

declare popcount_loop.simps [simp del]

definition pg_popcount64_slow :: "uint64 \<Rightarrow> nat" where
  "pg_popcount64_slow word = popcount_loop word 0"


section \<open>Correctness of the tables\<close>

lemma leftmost_table:
  "list_all (\<lambda>(m, t). t < 8 \<and> (m \<noteq> 0 \<longrightarrow> bit m t) \<and> list_all (\<lambda>n. bit m n \<longrightarrow> n \<le> t) [0..<8])
     (zip [0..255::int] pg_leftmost_one_pos)"
  by code_simp

lemma rightmost_table:
  "list_all (\<lambda>(m, t). m \<noteq> 0 \<longrightarrow> bit m t \<and> list_all (\<lambda>n. bit m n \<longrightarrow> t \<le> n) [0..<8])
     (zip [0..255::int] pg_rightmost_one_pos)"
  by code_simp

lemma ones_table:
  "list_all (\<lambda>(m, t). t = length (filter (bit m) [0..<8])) (zip [0..255::int] pg_number_of_ones)"
  by code_simp

lemma table_at:
  assumes "list_all (\<lambda>(m, t). P m t) (zip [0..255::int] tab)" and "length tab = 256" and "unat (m :: uint64) < 256"
  shows "P (uint m) (tab ! unat m)"
proof -
  have "uint m < 256"
    using assms(3) unsigned_of_nat uint_nat [of m] by linarith
  then have "[0..255::int] ! unat m = uint m"
    by (simp add: nth_upto)
  then have "zip [0..255::int] tab ! unat m = (uint m, tab ! unat m)"
    and "unat m < length (zip [0..255::int] tab)"
    using assms(2,3) by simp_all
  with assms(1) show ?thesis
    by (metis (no_types, lifting) case_prod_conv list_all_length)
qed

lemma length_tables [simp]:
  "length pg_leftmost_one_pos = 256"
  "length pg_rightmost_one_pos = 256"
  "length pg_number_of_ones = 256"
  by (simp_all add: pg_leftmost_one_pos_def pg_rightmost_one_pos_def pg_number_of_ones_def)

lemma byte_less: "unat ((w :: uint64) AND 255) < 256"
proof -
  have "unat (w AND 255) \<le> unat (255 :: uint64)"
    by (rule word_and_le1 [THEN word_le_nat_alt [THEN iffD1]])
  then show ?thesis by simp
qed

lemma bit_byte: "bit (uint ((w :: uint64) AND 255)) n \<longleftrightarrow> n < 8 \<and> bit w n"
proof -
  have eq: "w AND 255 = take_bit 8 w" by (simp add: take_bit_eq_mask mask_eq_exp_minus_1)
  show ?thesis
    unfolding eq using bit_word_length [of w n] by (auto simp: bit_uint_iff bit_take_bit_iff)
qed

lemma byte_nonzero: "(w :: uint64) AND 255 \<noteq> 0 \<longleftrightarrow> uint (w AND 255) \<noteq> 0"
  by (simp only: uint_0_iff simp_thms)

lemma byte_leftmost:
  assumes "(w :: uint64) AND 255 \<noteq> 0"
  shows "bit w (pg_leftmost_one_pos ! unat (w AND 255))"
    and "n < 8 \<Longrightarrow> bit w n \<Longrightarrow> n \<le> pg_leftmost_one_pos ! unat (w AND 255)"
    and "pg_leftmost_one_pos ! unat (w AND 255) < 8"
  using table_at [OF leftmost_table length_tables(1) byte_less [of w]] assms
  unfolding byte_nonzero by (auto simp: bit_byte list_all_iff)

lemma byte_rightmost:
  assumes "(w :: uint64) AND 255 \<noteq> 0"
  shows "bit w (pg_rightmost_one_pos ! unat (w AND 255))"
    and "bit w n \<Longrightarrow> pg_rightmost_one_pos ! unat (w AND 255) \<le> n"
  using table_at [OF rightmost_table length_tables(2) byte_less [of w]] assms
  unfolding byte_nonzero by (cases "n < 8"; auto simp: bit_byte list_all_iff; fail)+

lemma byte_ones: "pg_number_of_ones ! unat ((w :: uint64) AND 255) = card {n. n < 8 \<and> bit w n}"
proof -
  have "pg_number_of_ones ! unat (w AND 255)
      = length (filter (bit (uint (w AND 255))) [0..<8])"
    using table_at [OF ones_table length_tables(3) byte_less [of w]] by simp
  also have "\<dots> = card (set (filter (bit (uint (w AND 255))) [0..<8]))"
    by (simp add: distinct_card del: set_filter)
  also have "set (filter (bit (uint (w AND 255))) [0..<8]) = {n. n < 8 \<and> bit w n}"
    by (auto simp: bit_byte)
  finally show ?thesis .
qed

lemma byte_zero_iff: "(w :: uint64) AND 255 = 0 \<longleftrightarrow> (\<forall>n<8. \<not> bit w n)"
proof -
  have "w AND 255 = 0 \<longleftrightarrow> uint (w AND 255) = 0" by (simp only: uint_0_iff)
  also have "\<dots> \<longleftrightarrow> (\<forall>n. \<not> bit (uint (w AND 255)) n)"
    by (metis bit_0_eq bit_eqI bot_apply bot_bool_def)
  finally show ?thesis by (auto simp: bit_byte)
qed

section \<open>Correctness of the loops\<close>

lemma leftmost_loop_correct:
  assumes "(w :: uint64) \<noteq> 0" and "\<And>n. bit w n \<Longrightarrow> n < 8 * Suc k"
  shows "bit w (leftmost_loop k w) \<and> (\<forall>n. bit w n \<longrightarrow> n \<le> leftmost_loop k w)"
  using assms(2)
proof (induction k)
  case 0
  then have "w AND 255 \<noteq> 0" using assms(1) word_nonzero_bit [of w] by (metis byte_zero_iff mult_numeral_1_right numeral_One One_nat_def)
  with 0 show ?case using byte_leftmost [of w] by auto
next
  case (Suc k)
  show ?case
  proof (cases "drop_bit (8 * Suc k) w = 0")
    case True
    have "n < 8 * Suc k" if "bit w n" for n
    proof (rule ccontr)
      assume "\<not> ?thesis"
      then have "bit (drop_bit (8 * Suc k) w) (n - 8 * Suc k)"
        using that by (simp add: bit_drop_bit_eq)
      with True show False by simp
    qed
    with Suc.IH True show ?thesis by simp
  next
    case False
    let ?v = "drop_bit (8 * Suc k) w"
    have bits: "bit ?v n \<longleftrightarrow> bit w (8 * Suc k + n)" for n by (simp add: bit_drop_bit_eq)
    have small: "n < 8" if "bit ?v n" for n using Suc.prems [of "8 * Suc k + n"] that bits by auto
    have "?v AND 255 \<noteq> 0"
      using word_nonzero_bit [OF False] small by (metis byte_zero_iff)
    then have top: "bit w (8 * Suc k + pg_leftmost_one_pos ! unat (?v AND 255))"
      and le: "\<And>n. bit ?v n \<Longrightarrow> n \<le> pg_leftmost_one_pos ! unat (?v AND 255)"
      using byte_leftmost [of ?v] small bits by auto
    have "n \<le> 8 * Suc k + pg_leftmost_one_pos ! unat (?v AND 255)" if "bit w n" for n
      using le [of "n - 8 * Suc k"] that bits by (cases "n < 8 * Suc k") auto
    with top False show ?thesis by simp
  qed
qed

lemma pg_leftmost_one_pos64_correct:
  assumes "(w :: uint64) \<noteq> 0"
  shows "bit w (pg_leftmost_one_pos64 w)" and "bit w n \<Longrightarrow> n \<le> pg_leftmost_one_pos64 w"
  using leftmost_loop_correct [OF assms, of 7] bit_word_length [of w]
  by (auto simp: pg_leftmost_one_pos64_def)

lemma rightmost_loop_correct:
  "(w :: uint64) \<noteq> 0 \<Longrightarrow>
     \<exists>k. rightmost_loop w r = r + k \<and> bit w k \<and> (\<forall>n. bit w n \<longrightarrow> k \<le> n)"
proof (induction w r rule: rightmost_loop.induct)
  case (1 w r)
  show ?case
  proof (cases "w AND 255 = 0")
    case True
    have nz: "drop_bit 8 w \<noteq> 0"
    proof
      assume "drop_bit 8 w = 0"
      then have "\<not> bit w n" if "8 \<le> n" for n
        using that bit_drop_bit_eq [of 8 w, THEN fun_cong, of "n - 8"] by simp
      with True word_nonzero_bit [OF "1.prems"] show False by (metis byte_zero_iff not_le)
    qed
    with 1 True obtain k where k: "rightmost_loop (drop_bit 8 w) (r + 8) = r + 8 + k"
      "bit (drop_bit 8 w) k" "\<And>n. bit (drop_bit 8 w) n \<Longrightarrow> k \<le> n" by blast
    have "8 + k \<le> n" if "bit w n" for n
    proof -
      have "8 \<le> n" using True that by (meson byte_zero_iff not_le)
      then show ?thesis using k(3) [of "n - 8"] that by (simp add: bit_drop_bit_eq)
    qed
    moreover have "rightmost_loop w r = r + (8 + k)"
      using True "1.prems" k(1) by (subst rightmost_loop.simps) simp
    moreover have "bit w (8 + k)" using k(2) by (simp add: bit_drop_bit_eq)
    ultimately show ?thesis by blast
  next
    case False
    then show ?thesis using byte_rightmost [of w] by (subst rightmost_loop.simps) auto
  qed
qed

lemma pg_rightmost_one_pos64_correct:
  assumes "(w :: uint64) \<noteq> 0"
  shows "bit w (pg_rightmost_one_pos64 w)" and "bit w n \<Longrightarrow> pg_rightmost_one_pos64 w \<le> n"
  using rightmost_loop_correct [OF assms, of 0] by (auto simp: pg_rightmost_one_pos64_def)

lemma card_bits_byte_split:
  "card {n. bit (w :: uint64) n} = card {n. n < 8 \<and> bit w n} + card {n. bit (drop_bit 8 w) n}"
proof -
  have "{n. bit w n} = {n. n < 8 \<and> bit w n} \<union> (+) 8 ` {n. bit (drop_bit 8 w) n}"
    by (auto simp: bit_drop_bit_eq image_iff) (metis le_add_diff_inverse not_le)
  moreover have "finite {n. bit (drop_bit 8 w) n}"
    by (rule finite_subset [of _ "{..<64}"]) (auto dest: bit_word_length)
  moreover have "{n. n < 8 \<and> bit w n} \<inter> (+) 8 ` {n. bit (drop_bit 8 w) n} = {}" by auto
  ultimately show ?thesis
    by (simp add: card_Un_disjoint card_image del: Collect_const)
qed

lemma popcount_loop_correct: "popcount_loop w r = r + card {n. bit (w :: uint64) n}"
proof (induction w r rule: popcount_loop.induct)
  case (1 w r)
  show ?case
  proof (cases "w = 0")
    case True
    then show ?thesis by (subst popcount_loop.simps) (simp add: bot_fun_def)
  next
    case False
    with 1 show ?thesis
      by (simp add: popcount_loop.simps [of w r] card_bits_byte_split [of w] byte_ones)
  qed
qed

lemma pg_popcount64_slow_correct: "pg_popcount64_slow w = card {n. bit (w :: uint64) n}"
  by (simp add: pg_popcount64_slow_def popcount_loop_correct)

section \<open>The interface to bitmap words\<close>

locale bitmapword_ops =
  fixes lpos :: "uint64 \<Rightarrow> nat" and rpos :: "uint64 \<Rightarrow> nat" and popcnt :: "uint64 \<Rightarrow> nat"
  assumes lpos_bit: "w \<noteq> 0 \<Longrightarrow> bit w (lpos w)"
    and lpos_max: "w \<noteq> 0 \<Longrightarrow> bit w n \<Longrightarrow> n \<le> lpos w"
    and rpos_bit: "w \<noteq> 0 \<Longrightarrow> bit w (rpos w)"
    and rpos_min: "w \<noteq> 0 \<Longrightarrow> bit w n \<Longrightarrow> rpos w \<le> n"
    and popcnt_card: "popcnt w = card {n. bit w n}"
begin

lemma lpos_less: "w \<noteq> 0 \<Longrightarrow> lpos w < 64"
  using bit_word_length [OF lpos_bit] by simp

lemma rpos_less: "w \<noteq> 0 \<Longrightarrow> rpos w < 64"
  using bit_word_length [OF rpos_bit] by simp

lemma rpos_eqI: "bit w n \<Longrightarrow> (\<And>m. m < n \<Longrightarrow> \<not> bit w m) \<Longrightarrow> rpos w = n"
  by (metis bit_0_eq bot_apply bot_bool_def linorder_neqE_nat not_le rpos_bit rpos_min)

lemma rpos_single: "n < 64 \<Longrightarrow> rpos (push_bit n 1) = n"
  by (rule rpos_eqI) (auto simp: bit_simps)

lemma popcnt_zero [simp]: "popcnt 0 = 0"
  by (simp add: popcnt_card bot_fun_def)

end

interpretation bmw: bitmapword_ops pg_leftmost_one_pos64 pg_rightmost_one_pos64 pg_popcount64_slow
  by unfold_locales
    (simp_all add: pg_leftmost_one_pos64_correct pg_rightmost_one_pos64_correct
      pg_popcount64_slow_correct)

text \<open>
  On a nonzero 64-bit word the two position functions find its greatest and its least set bit, and the
  counting function returns the number of its set bits, though all three work bytewise on tables.
\<close>

theorem pg_bitutils64_correct:
  assumes "(w :: uint64) \<noteq> 0"
  shows "pg_leftmost_one_pos64 w = Max {n. bit w n} \<and> pg_rightmost_one_pos64 w = Min {n. bit w n} \<and>
    pg_popcount64_slow w = card {n. bit w n}"
proof -
  have "finite {n. bit w n}" by (rule finite_subset [of _ "{..<64}"]) (use bit_word_length [of w] in auto)
  then show ?thesis
    using pg_leftmost_one_pos64_correct [OF assms] pg_rightmost_one_pos64_correct [OF assms]
    by (auto simp: pg_popcount64_slow_correct intro!: Max_eqI [symmetric] Min_eqI [symmetric])
qed

end
