(* ===== verification/Bitmapset.thy ===== *)
theory Bitmapset
  imports BitUtils
begin

text \<open>
  The bitmap set package of \<^verbatim>\<open>src/backend/nodes/bitmapset.c\<close>: sets of
  non-negative integers as arrays of 64-bit words.  A set pointer is an
  option, \<open>None\<close> being the \<^verbatim>\<open>NULL\<close> pointer that stands for the empty set;
  \<^verbatim>\<open>a->nwords\<close> is the length of the word list.  Operations that reuse their
  argument's memory return the new value.  \<open>bms_members\<close> is the set of
  numbers a pointer denotes; the lemmas show that every operation implements
  the operation on sets that its name promises, on every branch, errors
  included, and the locale \<open>bms_interface\<close> is the part of the contract that
  the visibility map builds on.
\<close>

section \<open>Representation\<close>

record Bitmapset =
  words :: "uint64 list"

type_synonym bms = "Bitmapset option"

abbreviation mk_bms :: "uint64 list \<Rightarrow> bms" where
  "mk_bms ws \<equiv> Some \<lparr>words = ws\<rparr>"

definition nwords :: "Bitmapset \<Rightarrow> nat" where
  "nwords a = length (words a)"

definition WORDNUM :: "int \<Rightarrow> nat" where
  "WORDNUM x = nat (x div 64)"

definition BITNUM :: "int \<Rightarrow> nat" where
  "BITNUM x = nat (x mod 64)"

definition RIGHTMOST_ONE :: "uint64 \<Rightarrow> uint64" where
  "RIGHTMOST_ONE x = x AND (- x)"

definition HAS_MULTIPLE_ONES :: "uint64 \<Rightarrow> bool" where
  "HAS_MULTIPLE_ONES x \<longleftrightarrow> RIGHTMOST_ONE x \<noteq> x"

datatype BMS_Comparison = BMS_EQUAL | BMS_SUBSET1 | BMS_SUBSET2 | BMS_DIFFERENT

datatype BMS_Membership = BMS_EMPTY_SET | BMS_SINGLETON | BMS_MULTIPLE

abbreviation negative_member :: pg_error where
  "negative_member \<equiv> ERROR ''negative bitmapset member not allowed''"

section \<open>Operations that leave their input untouched\<close>

definition bms_copy :: "bms \<Rightarrow> bms" where
  "bms_copy a = (case a of None \<Rightarrow> None | Some r \<Rightarrow> Some \<lparr>words = words r\<rparr>)"

text \<open>The loop that returns false at the first nonzero word.\<close>

fun all_zero :: "uint64 list \<Rightarrow> bool" where
  "all_zero [] = True"
| "all_zero (w # ws) = (if w \<noteq> 0 then False else all_zero ws)"

definition bms_is_empty :: "bms \<Rightarrow> bool" where
  "bms_is_empty a = (case a of None \<Rightarrow> True | Some r \<Rightarrow> all_zero (words r))"

fun bms_equal_loop :: "uint64 list \<Rightarrow> uint64 list \<Rightarrow> bool" where
  "bms_equal_loop (s # shorter) (l # longer) = (if s \<noteq> l then False else bms_equal_loop shorter longer)"
| "bms_equal_loop _ longer = all_zero longer"

definition bms_equal :: "bms \<Rightarrow> bms \<Rightarrow> bool" where
  "bms_equal a b =
     (case a of
        None \<Rightarrow> (case b of None \<Rightarrow> True | Some _ \<Rightarrow> bms_is_empty b)
      | Some ra \<Rightarrow>
          (case b of
             None \<Rightarrow> bms_is_empty a
           | Some rb \<Rightarrow>
               (if nwords ra \<le> nwords rb then bms_equal_loop (words ra) (words rb)
                else bms_equal_loop (words rb) (words ra))))"

text \<open>\<^verbatim>\<open>i = shortlen; while (--i >= 0)\<close>: the common words from the top.\<close>

fun bms_compare_loop :: "uint64 list \<Rightarrow> uint64 list \<Rightarrow> nat \<Rightarrow> int" where
  "bms_compare_loop aws bws 0 = 0"
| "bms_compare_loop aws bws (Suc i) =
     (if aws ! i \<noteq> bws ! i then (if aws ! i > bws ! i then 1 else -1)
      else bms_compare_loop aws bws i)"

definition bms_compare :: "bms \<Rightarrow> bms \<Rightarrow> int" where
  "bms_compare a b =
     (case a of
        None \<Rightarrow> (if bms_is_empty b then 0 else -1)
      | Some ra \<Rightarrow>
          (case b of
             None \<Rightarrow> (if bms_is_empty a then 0 else 1)
           | Some rb \<Rightarrow>
               (let shortlen = min (nwords ra) (nwords rb) in
                if \<not> all_zero (drop shortlen (words ra)) then 1
                else if \<not> all_zero (drop shortlen (words rb)) then -1
                else bms_compare_loop (words ra) (words rb) shortlen)))"

definition bms_make_singleton :: "int \<Rightarrow> bms result" where
  "bms_make_singleton x =
     (if x < 0 then Inl negative_member
      else Inr (mk_bms ((replicate (WORDNUM x + 1) 0)[WORDNUM x := push_bit (BITNUM x) 1])))"

definition bms_union :: "bms \<Rightarrow> bms \<Rightarrow> bms" where
  "bms_union a b =
     (case a of
        None \<Rightarrow> bms_copy b
      | Some ra \<Rightarrow>
          (case b of
             None \<Rightarrow> bms_copy a
           | Some rb \<Rightarrow>
               (if nwords ra \<le> nwords rb
                then mk_bms (zip_into (OR) (words rb) (words ra))
                else mk_bms (zip_into (OR) (words ra) (words rb)))))"

definition bms_intersect :: "bms \<Rightarrow> bms \<Rightarrow> bms" where
  "bms_intersect a b =
     (case a of
        None \<Rightarrow> None
      | Some ra \<Rightarrow>
          (case b of
             None \<Rightarrow> None
           | Some rb \<Rightarrow>
               (if nwords ra \<le> nwords rb
                then mk_bms (zip_into (AND) (words ra) (words rb))
                else mk_bms (zip_into (AND) (words rb) (words ra)))))"

definition bms_difference :: "bms \<Rightarrow> bms \<Rightarrow> bms" where
  "bms_difference a b =
     (case a of
        None \<Rightarrow> None
      | Some ra \<Rightarrow>
          (case b of
             None \<Rightarrow> bms_copy a
           | Some rb \<Rightarrow> mk_bms (zip_into (\<lambda>x y. x AND NOT y) (words ra) (words rb))))"

fun bms_is_subset_loop :: "uint64 list \<Rightarrow> uint64 list \<Rightarrow> bool" where
  "bms_is_subset_loop (x # xs) (y # ys) =
     (if x AND NOT y \<noteq> 0 then False else bms_is_subset_loop xs ys)"
| "bms_is_subset_loop xs [] = all_zero xs"
| "bms_is_subset_loop [] ys = True"

definition bms_is_subset :: "bms \<Rightarrow> bms \<Rightarrow> bool" where
  "bms_is_subset a b =
     (case a of
        None \<Rightarrow> True
      | Some ra \<Rightarrow>
          (case b of
             None \<Rightarrow> bms_is_empty a
           | Some rb \<Rightarrow> bms_is_subset_loop (words ra) (words rb)))"

text \<open>
  The loops of \<^verbatim>\<open>bms_subset_compare\<close> carry the status so far; \<^verbatim>\<open>return BMS_DIFFERENT\<close>
  leaves the loop with that answer.  The first loop handles the common words, the
  other two the words that only one set has.
\<close>

fun subset_extra_a :: "BMS_Comparison \<Rightarrow> uint64 list \<Rightarrow> BMS_Comparison" where
  "subset_extra_a r [] = r"
| "subset_extra_a r (w # ws) =
     (if w \<noteq> 0 then (if r = BMS_SUBSET1 then BMS_DIFFERENT else subset_extra_a BMS_SUBSET2 ws)
      else subset_extra_a r ws)"

fun subset_extra_b :: "BMS_Comparison \<Rightarrow> uint64 list \<Rightarrow> BMS_Comparison" where
  "subset_extra_b r [] = r"
| "subset_extra_b r (w # ws) =
     (if w \<noteq> 0 then (if r = BMS_SUBSET2 then BMS_DIFFERENT else subset_extra_b BMS_SUBSET1 ws)
      else subset_extra_b r ws)"

fun subset_compare_loop :: "BMS_Comparison \<Rightarrow> uint64 list \<Rightarrow> uint64 list \<Rightarrow> BMS_Comparison" where
  "subset_compare_loop r (x # xs) (y # ys) =
     (if x AND NOT y \<noteq> 0 \<and> r = BMS_SUBSET1 then BMS_DIFFERENT
      else let r1 = (if x AND NOT y \<noteq> 0 then BMS_SUBSET2 else r) in
        if y AND NOT x \<noteq> 0 \<and> r1 = BMS_SUBSET2 then BMS_DIFFERENT
        else let r2 = (if y AND NOT x \<noteq> 0 then BMS_SUBSET1 else r1) in
          subset_compare_loop r2 xs ys)"
| "subset_compare_loop r xs [] = subset_extra_a r xs"
| "subset_compare_loop r [] ys = subset_extra_b r ys"

definition bms_subset_compare :: "bms \<Rightarrow> bms \<Rightarrow> BMS_Comparison" where
  "bms_subset_compare a b =
     (case a of
        None \<Rightarrow> (case b of
                   None \<Rightarrow> BMS_EQUAL
                 | Some _ \<Rightarrow> (if bms_is_empty b then BMS_EQUAL else BMS_SUBSET1))
      | Some ra \<Rightarrow>
          (case b of
             None \<Rightarrow> (if bms_is_empty a then BMS_EQUAL else BMS_SUBSET2)
           | Some rb \<Rightarrow> subset_compare_loop BMS_EQUAL (words ra) (words rb)))"

definition bms_is_member :: "int \<Rightarrow> bms \<Rightarrow> bool result" where
  "bms_is_member x a =
     (if x < 0 then Inl negative_member
      else Inr (case a of
                  None \<Rightarrow> False
                | Some r \<Rightarrow>
                    (if WORDNUM x \<ge> nwords r then False
                     else if words r ! WORDNUM x AND push_bit (BITNUM x) 1 \<noteq> 0 then True
                     else False)))"

text \<open>Counting loops: \<^verbatim>\<open>if (w != 0) result += bmw_popcount(w)\<close>.\<close>

fun popcount_words :: "uint64 list \<Rightarrow> nat" where
  "popcount_words [] = 0"
| "popcount_words (w # ws) = (if w \<noteq> 0 then pg_popcount64_slow w else 0) + popcount_words ws"

definition bms_member_index :: "bms \<Rightarrow> int \<Rightarrow> int result" where
  "bms_member_index a x =
     bindE (bms_is_member x a) (\<lambda>m.
       if \<not> m then Inr (-1)
       else Inr (case a of
                   None \<Rightarrow> -1
                 | Some r \<Rightarrow>
                     int (popcount_words (take (WORDNUM x) (words r)) +
                          pg_popcount64_slow
                            (words r ! WORDNUM x AND (push_bit (BITNUM x) 1 - 1)))))"

fun overlap_loop :: "uint64 list \<Rightarrow> uint64 list \<Rightarrow> bool" where
  "overlap_loop (x # xs) (y # ys) = (if x AND y \<noteq> 0 then True else overlap_loop xs ys)"
| "overlap_loop _ _ = False"

definition bms_overlap :: "bms \<Rightarrow> bms \<Rightarrow> bool" where
  "bms_overlap a b =
     (case a of
        None \<Rightarrow> False
      | Some ra \<Rightarrow> (case b of None \<Rightarrow> False | Some rb \<Rightarrow> overlap_loop (words ra) (words rb)))"

fun overlap_list_loop :: "Bitmapset \<Rightarrow> int list \<Rightarrow> bool result" where
  "overlap_list_loop r [] = Inr False"
| "overlap_list_loop r (x # xs) =
     (if x < 0 then Inl negative_member
      else if WORDNUM x < nwords r \<and> words r ! WORDNUM x AND push_bit (BITNUM x) 1 \<noteq> 0
      then Inr True
      else overlap_list_loop r xs)"

definition bms_overlap_list :: "bms \<Rightarrow> int list \<Rightarrow> bool result" where
  "bms_overlap_list a b =
     (case a of
        None \<Rightarrow> Inr False
      | Some r \<Rightarrow> (if b = [] then Inr False else overlap_list_loop r b))"

fun nonempty_difference_loop :: "uint64 list \<Rightarrow> uint64 list \<Rightarrow> bool" where
  "nonempty_difference_loop (x # xs) (y # ys) =
     (if x AND NOT y \<noteq> 0 then True else nonempty_difference_loop xs ys)"
| "nonempty_difference_loop xs [] = (\<not> all_zero xs)"
| "nonempty_difference_loop [] ys = False"

definition bms_nonempty_difference :: "bms \<Rightarrow> bms \<Rightarrow> bool" where
  "bms_nonempty_difference a b =
     (case a of
        None \<Rightarrow> False
      | Some ra \<Rightarrow>
          (case b of
             None \<Rightarrow> \<not> bms_is_empty a
           | Some rb \<Rightarrow> nonempty_difference_loop (words ra) (words rb)))"

text \<open>
  The scan shared by \<^verbatim>\<open>bms_singleton_member\<close> and \<^verbatim>\<open>bms_get_singleton_member\<close>: the
  right value is the final \<^verbatim>\<open>result\<close> (negative when no bit was seen), the left one
  says that the scan stopped at a second member.
\<close>

fun singleton_loop :: "uint64 list \<Rightarrow> nat \<Rightarrow> int \<Rightarrow> unit + int" where
  "singleton_loop [] wordnum result = Inr result"
| "singleton_loop (w # ws) wordnum result =
     (if w \<noteq> 0 then
        (if result \<ge> 0 \<or> HAS_MULTIPLE_ONES w then Inl ()
         else singleton_loop ws (Suc wordnum) (int (wordnum * 64) + int (pg_rightmost_one_pos64 w)))
      else singleton_loop ws (Suc wordnum) result)"

definition bms_singleton_member :: "bms \<Rightarrow> int result" where
  "bms_singleton_member a =
     (case a of
        None \<Rightarrow> Inl (ERROR ''bitmapset is empty'')
      | Some r \<Rightarrow>
          (case singleton_loop (words r) 0 (-1) of
             Inl _ \<Rightarrow> Inl (ERROR ''bitmapset has multiple members'')
           | Inr result \<Rightarrow>
               (if result < 0 then Inl (ERROR ''bitmapset is empty'') else Inr result)))"

text \<open>\<open>Some m\<close> is a true return with \<^verbatim>\<open>*member = m\<close>; \<open>None\<close> is a false return.\<close>

definition bms_get_singleton_member :: "bms \<Rightarrow> int option" where
  "bms_get_singleton_member a =
     (case a of
        None \<Rightarrow> None
      | Some r \<Rightarrow>
          (case singleton_loop (words r) 0 (-1) of
             Inl _ \<Rightarrow> None
           | Inr result \<Rightarrow> (if result < 0 then None else Some result)))"

definition bms_num_members :: "bms \<Rightarrow> nat" where
  "bms_num_members a = (case a of None \<Rightarrow> 0 | Some r \<Rightarrow> popcount_words (words r))"

fun membership_loop :: "BMS_Membership \<Rightarrow> uint64 list \<Rightarrow> BMS_Membership" where
  "membership_loop result [] = result"
| "membership_loop result (w # ws) =
     (if w \<noteq> 0 then
        (if result \<noteq> BMS_EMPTY_SET \<or> HAS_MULTIPLE_ONES w then BMS_MULTIPLE
         else membership_loop BMS_SINGLETON ws)
      else membership_loop result ws)"

definition bms_membership :: "bms \<Rightarrow> BMS_Membership" where
  "bms_membership a =
     (case a of None \<Rightarrow> BMS_EMPTY_SET | Some r \<Rightarrow> membership_loop BMS_EMPTY_SET (words r))"

section \<open>Operations that recycle their input\<close>

text \<open>\<^verbatim>\<open>repalloc\<close> to \<open>n\<close> words and zero the enlarged portion.\<close>

definition enlarge :: "uint64 list \<Rightarrow> nat \<Rightarrow> uint64 list" where
  "enlarge ws n = ws @ replicate (n - length ws) 0"

definition bms_add_member :: "bms \<Rightarrow> int \<Rightarrow> bms result" where
  "bms_add_member a x =
     (if x < 0 then Inl negative_member
      else case a of
        None \<Rightarrow> bms_make_singleton x
      | Some r \<Rightarrow>
          (let ws = (if WORDNUM x \<ge> nwords r then enlarge (words r) (WORDNUM x + 1) else words r)
           in Inr (mk_bms (ws[WORDNUM x := ws ! WORDNUM x OR push_bit (BITNUM x) 1]))))"

definition bms_covers_member :: "bms \<Rightarrow> int \<Rightarrow> bool result" where
  "bms_covers_member a x =
     (if x < 0 then Inl negative_member
      else Inr (case a of None \<Rightarrow> False | Some r \<Rightarrow> WORDNUM x < nwords r))"

definition bms_resize :: "bms \<Rightarrow> nat \<Rightarrow> bms" where
  "bms_resize a wc =
     (case a of
        Some r \<Rightarrow> (if nwords r \<ge> wc then a else mk_bms (enlarge (words r) wc))
      | None \<Rightarrow> mk_bms (replicate wc 0))"

definition bms_del_member :: "bms \<Rightarrow> int \<Rightarrow> bms result" where
  "bms_del_member a x =
     (if x < 0 then Inl negative_member
      else Inr (case a of
                  None \<Rightarrow> None
                | Some r \<Rightarrow>
                    (if WORDNUM x < nwords r
                     then mk_bms ((words r)[WORDNUM x :=
                            words r ! WORDNUM x AND NOT (push_bit (BITNUM x) 1)])
                     else Some r)))"

definition bms_add_members :: "bms \<Rightarrow> bms \<Rightarrow> bms" where
  "bms_add_members a b =
     (case a of
        None \<Rightarrow> bms_copy b
      | Some ra \<Rightarrow>
          (case b of
             None \<Rightarrow> a
           | Some rb \<Rightarrow>
               (if nwords ra < nwords rb
                then mk_bms (zip_into (OR) (words rb) (words ra))
                else mk_bms (zip_into (OR) (words ra) (words rb)))))"

definition bms_add_range :: "bms \<Rightarrow> int \<Rightarrow> int \<Rightarrow> bms result" where
  "bms_add_range a lower upper =
     (if upper < lower then Inr a
      else if lower < 0 then Inl negative_member
      else
        let uwordnum = WORDNUM upper;
            ws = (case a of
                    None \<Rightarrow> replicate (uwordnum + 1) 0
                  | Some r \<Rightarrow>
                      (if uwordnum \<ge> nwords r then enlarge (words r) (uwordnum + 1) else words r));
            lwordnum = WORDNUM lower;
            lbitnum = BITNUM lower;
            ushiftbits = 64 - (BITNUM upper + 1);
            lmask = NOT (push_bit lbitnum 1 - 1 :: uint64);
            umask = drop_bit ushiftbits (NOT 0 :: uint64)
        in if lwordnum = uwordnum
           then Inr (mk_bms (ws[lwordnum := ws ! lwordnum OR (lmask AND umask)]))
           else
             let ws1 = ws[lwordnum := ws ! lwordnum OR lmask];
                 ws2 = fold (\<lambda>wordnum v. v[wordnum := NOT 0]) [lwordnum + 1..<uwordnum] ws1
             in Inr (mk_bms (ws2[uwordnum := ws2 ! uwordnum OR umask])))"

definition bms_int_members :: "bms \<Rightarrow> bms \<Rightarrow> bms" where
  "bms_int_members a b =
     (case a of
        None \<Rightarrow> None
      | Some ra \<Rightarrow>
          (case b of
             None \<Rightarrow> None
           | Some rb \<Rightarrow>
               (let shortlen = min (nwords ra) (nwords rb) in
                mk_bms (take shortlen (zip_into (AND) (words ra) (words rb)) @
                        replicate (nwords ra - shortlen) 0))))"

definition bms_del_members :: "bms \<Rightarrow> bms \<Rightarrow> bms" where
  "bms_del_members a b =
     (case a of
        None \<Rightarrow> None
      | Some ra \<Rightarrow>
          (case b of
             None \<Rightarrow> a
           | Some rb \<Rightarrow> mk_bms (zip_into (\<lambda>x y. x AND NOT y) (words ra) (words rb))))"

definition bms_join :: "bms \<Rightarrow> bms \<Rightarrow> bms" where
  "bms_join a b =
     (case a of
        None \<Rightarrow> b
      | Some ra \<Rightarrow>
          (case b of
             None \<Rightarrow> a
           | Some rb \<Rightarrow>
               (if nwords ra < nwords rb
                then mk_bms (zip_into (OR) (words rb) (words ra))
                else mk_bms (zip_into (OR) (words ra) (words rb)))))"

text \<open>
  \<^verbatim>\<open>bms_first_member\<close> returns the member and the set it leaves behind.
\<close>

fun first_member_loop :: "uint64 list \<Rightarrow> nat \<Rightarrow> int \<times> uint64 list" where
  "first_member_loop [] wordnum = (-1, [])"
| "first_member_loop (w # ws) wordnum =
     (if w \<noteq> 0 then
        (let w1 = RIGHTMOST_ONE w in
         (int (wordnum * 64) + int (pg_rightmost_one_pos64 w1), (w AND NOT w1) # ws))
      else let (result, ws') = first_member_loop ws (Suc wordnum) in (result, w # ws'))"

definition bms_first_member :: "bms \<Rightarrow> int \<times> bms" where
  "bms_first_member a =
     (case a of
        None \<Rightarrow> (-1, None)
      | Some r \<Rightarrow> (let (result, ws) = first_member_loop (words r) 0 in (result, mk_bms ws)))"

fun next_member_loop :: "uint64 list \<Rightarrow> uint64 \<Rightarrow> nat \<Rightarrow> int" where
  "next_member_loop [] wmask wordnum = -2"
| "next_member_loop (x # xs) wmask wordnum =
     (let w = x AND wmask in
      if w \<noteq> 0 then int (wordnum * 64) + int (pg_rightmost_one_pos64 w)
      else next_member_loop xs (NOT 0) (Suc wordnum))"

definition bms_next_member :: "bms \<Rightarrow> int \<Rightarrow> int" where
  "bms_next_member a prevbit =
     (case a of
        None \<Rightarrow> -2
      | Some r \<Rightarrow>
          (let p = prevbit + 1 in
           next_member_loop (drop (WORDNUM p) (words r)) (push_bit (BITNUM p) (NOT 0)) (WORDNUM p)))"

text \<open>The second argument of the loop is \<^verbatim>\<open>wordnum + 1\<close>, so 0 is the exit at \<^verbatim>\<open>wordnum = -1\<close>.\<close>

fun prev_member_loop :: "uint64 list \<Rightarrow> nat \<Rightarrow> uint64 \<Rightarrow> int" where
  "prev_member_loop ws 0 wmask = -2"
| "prev_member_loop ws (Suc wordnum) wmask =
     (let w = ws ! wordnum AND wmask in
      if w \<noteq> 0 then int (wordnum * 64) + int (pg_leftmost_one_pos64 w)
      else prev_member_loop ws wordnum (NOT 0))"

definition bms_prev_member :: "bms \<Rightarrow> int \<Rightarrow> int" where
  "bms_prev_member a prevbit =
     (case a of
        None \<Rightarrow> -2
      | Some r \<Rightarrow>
          (if prevbit = 0 then -2
           else
             let p = (if prevbit = -1 then int (nwords r * 64) - 1 else prevbit - 1);
                 ushiftbits = 64 - (BITNUM p + 1)
             in prev_member_loop (words r) (WORDNUM p + 1) (drop_bit ushiftbits (NOT 0))))"

text \<open>
  \<open>hash_any\<close> is the byte hash of \<^verbatim>\<open>common/hashfn.c\<close>, applied to the first
  \<^verbatim>\<open>lastword + 1\<close> words; it is an argument because the routine's promise does not
  depend on which hash it is.  The loop's argument is \<^verbatim>\<open>lastword + 1\<close>.
\<close>

fun lastword_loop :: "uint64 list \<Rightarrow> nat \<Rightarrow> nat" where
  "lastword_loop ws 0 = 0"
| "lastword_loop ws (Suc lastword) =
     (if ws ! lastword \<noteq> 0 then Suc lastword else lastword_loop ws lastword)"

definition bms_hash_value :: "(uint64 list \<Rightarrow> uint32) \<Rightarrow> bms \<Rightarrow> uint32" where
  "bms_hash_value hash_any a =
     (case a of
        None \<Rightarrow> 0
      | Some r \<Rightarrow>
          (let n = lastword_loop (words r) (nwords r)
           in if n = 0 then 0 else hash_any (take n (words r))))"

section \<open>The set a pointer denotes\<close>

abbreviation word_at :: "uint64 list \<Rightarrow> nat \<Rightarrow> uint64" where
  "word_at \<equiv> nth_default 0"

definition word_members :: "uint64 list \<Rightarrow> nat set" where
  "word_members ws = {n. bit (word_at ws (n div 64)) (n mod 64)}"

definition bms_members :: "bms \<Rightarrow> nat set" where
  "bms_members a = (case a of None \<Rightarrow> {} | Some r \<Rightarrow> word_members (words r))"

lemma bms_members_simps [simp]:
  "bms_members None = {}"
  "bms_members (Some r) = word_members (words r)"
  by (simp_all add: bms_members_def)

lemma mem_words: "n \<in> word_members ws \<longleftrightarrow> bit (word_at ws (n div 64)) (n mod 64)"
  by (simp add: word_members_def)

lemma bit_word_at: "bit (word_at ws i) k \<longleftrightarrow> k < 64 \<and> i * 64 + k \<in> word_members ws"
  using bit_word_length [of "word_at ws i" k] by (auto simp: mem_words)

lemma word_members_subset_iff:
  "word_members xs \<subseteq> word_members ys \<longleftrightarrow> (\<forall>i k. bit (word_at xs i) k \<longrightarrow> bit (word_at ys i) k)"
  unfolding bit_word_at subset_iff
  by (metis div_mult_mod_eq mod_less_divisor zero_less_numeral)

lemma word_members_eq_iff:
  "word_members xs = word_members ys \<longleftrightarrow> (\<forall>i. word_at xs i = word_at ys i)"
proof
  assume eq: "word_members xs = word_members ys"
  show "\<forall>i. word_at xs i = word_at ys i"
    by (auto intro!: bit_word_eqI simp: bit_word_at eq)
qed (simp add: word_members_def)

lemma word_members_empty_iff: "word_members ws = {} \<longleftrightarrow> (\<forall>i. word_at ws i = 0)"
  using word_members_eq_iff [of ws "[]"] by (simp add: word_members_def)

lemma word_members_bound: "n \<in> word_members ws \<Longrightarrow> n < length ws * 64"
  by (auto simp: mem_words nth_default_def split: if_splits)

lemma finite_word_members [simp]: "finite (word_members ws)"
  by (rule finite_subset [of _ "{..<length ws * 64}"]) (auto dest: word_members_bound)

lemma finite_bms_members [simp]: "finite (bms_members a)"
  by (cases a) simp_all

lemma word_members_zeros: "word_members (ws @ replicate n 0) = word_members ws"
  by (simp add: word_members_eq_iff nth_default_replicate_app)

lemma word_members_replicate [simp]: "word_members (replicate n 0) = {}"
  using word_members_zeros [of "[]" n] by (simp add: word_members_def)

lemma word_members_enlarge [simp]: "word_members (enlarge ws n) = word_members ws"
  by (simp add: enlarge_def word_members_zeros)

lemma length_enlarge: "length (enlarge ws n) = max (length ws) n"
  by (simp add: enlarge_def)

lemma word_members_Nil [simp]: "word_members [] = {}"
  by (simp add: word_members_def)

lemma word_members_Cons:
  "word_members (w # ws) = {k. bit w k} \<union> (+) 64 ` word_members ws"
proof (rule set_eqI)
  fix n
  show "n \<in> word_members (w # ws) \<longleftrightarrow> n \<in> {k. bit w k} \<union> (+) 64 ` word_members ws"
  proof (cases "n < 64")
    case True
    then show ?thesis by (auto simp: mem_words)
  next
    case False
    then obtain m where n: "n = 64 + m" by (metis le_add_diff_inverse not_less)
    have "(64 + m) div 64 = Suc (m div 64)" and "\<not> bit w (64 + m)"
      using bit_word_length [of w "64 + m"] by auto
    then show ?thesis by (simp add: n mem_words image_iff)
  qed
qed

lemma zip_into_OR:
  "length ys \<le> length xs \<Longrightarrow> word_at (zip_into (OR) xs ys) i = word_at xs i OR word_at ys i"
  by (simp only: nth_default_zip_into) (auto simp: nth_default_def)

lemma zip_into_AND:
  "length xs \<le> length ys \<Longrightarrow> word_at (zip_into (AND) xs ys) i = word_at xs i AND word_at ys i"
  by (simp only: nth_default_zip_into) (auto simp: nth_default_def)

lemma zip_into_AND_NOT:
  "word_at (zip_into (\<lambda>x y. x AND NOT y) xs ys) i = word_at xs i AND NOT (word_at ys i)"
  by (simp only: nth_default_zip_into) (auto simp: nth_default_def)

lemmas members_zip =
  zip_into_OR zip_into_AND zip_into_AND_NOT bit_or_iff bit_and_iff bit_not_iff mem_words

lemma members_union:
  "length ys \<le> length xs \<Longrightarrow> word_members (zip_into (OR) xs ys) = word_members xs \<union> word_members ys"
  by (auto simp: members_zip)

lemma members_intersect:
  "length xs \<le> length ys \<Longrightarrow> word_members (zip_into (AND) xs ys) = word_members xs \<inter> word_members ys"
  by (auto simp: members_zip)

lemma members_difference:
  "word_members (zip_into (\<lambda>x y. x AND NOT y) xs ys) = word_members xs - word_members ys"
  by (auto simp: members_zip)

lemma members_int_members:
  assumes "n = min (length xs) (length ys)"
  shows "word_members (take n (zip_into (AND) xs ys) @ replicate (length xs - n) 0)
           = word_members xs \<inter> word_members ys"
proof -
  have "word_at (take n (zip_into (AND) xs ys)) i = word_at xs i AND word_at ys i" for i
    using assms nth_default_zip_into [of 0 "(AND)" xs ys i]
    by (auto simp: nth_default_def split: if_splits)
  then show ?thesis by (auto simp: word_members_zeros mem_words bit_and_iff)
qed

lemma members_bms_copy [simp]: "bms_members (bms_copy a) = bms_members a"
  by (cases a) (simp_all add: bms_copy_def)

section \<open>Single members\<close>

lemma bit_push_one: "k < 64 \<Longrightarrow> bit (2 ^ k :: uint64) n \<longleftrightarrow> n = k"
  by (auto simp: bit_exp_iff)

lemma test_bit_iff: "k < 64 \<Longrightarrow> (w :: uint64) AND 2 ^ k \<noteq> 0 \<longleftrightarrow> bit w k"
  by (auto simp: word_zero_iff_bits bit_and_iff bit_push_one)

lemma WORDNUM_nat [simp]: "WORDNUM (int n) = n div 64" and BITNUM_nat [simp]: "BITNUM (int n) = n mod 64"
  by (simp_all add: WORDNUM_def BITNUM_def nat_div_distrib nat_mod_distrib)

lemma members_set_bit:
  assumes "n div 64 < length ws"
  shows "word_members (ws[n div 64 := ws ! (n div 64) OR 2 ^ (n mod 64)])
           = insert n (word_members ws)" (is "?lhs = _")
proof (rule set_eqI)
  fix m
  show "m \<in> ?lhs \<longleftrightarrow> m \<in> insert n (word_members ws)"
  proof (cases "m div 64 = n div 64")
    case True
    then have "m = n \<longleftrightarrow> m mod 64 = n mod 64" by (metis div_mult_mod_eq)
    with True assms show ?thesis
      by (simp add: mem_words nth_default_update bit_or_iff bit_push_one nth_default_in) blast
  next
    case False
    with assms show ?thesis by (auto simp: mem_words nth_default_update)
  qed
qed

lemma members_clear_bit:
  assumes "n div 64 < length ws"
  shows "word_members (ws[n div 64 := ws ! (n div 64) AND NOT (2 ^ (n mod 64))])
           = word_members ws - {n}" (is "?lhs = _")
proof (rule set_eqI)
  fix m
  show "m \<in> ?lhs \<longleftrightarrow> m \<in> word_members ws - {n}"
  proof (cases "m div 64 = n div 64")
    case True
    then have "m = n \<longleftrightarrow> m mod 64 = n mod 64" by (metis div_mult_mod_eq)
    with True assms show ?thesis
      by (simp add: mem_words nth_default_update bit_and_iff bit_not_iff bit_push_one nth_default_in)
  next
    case False
    with assms show ?thesis by (auto simp: mem_words nth_default_update)
  qed
qed

lemma bms_is_member_nat: "bms_is_member (int n) a = Inr (n \<in> bms_members a)"
  by (cases a) (auto simp: bms_is_member_def nwords_def mem_words test_bit_iff nth_default_def)

lemma bms_add_member_nat:
  "\<exists>b. bms_add_member a (int n) = Inr b \<and> bms_members b = insert n (bms_members a)"
proof (cases a)
  case None
  have "n div 64 < length (replicate (n div 64 + 1) 0)" by simp
  from members_set_bit [OF this] None show ?thesis
    by (simp add: bms_add_member_def bms_make_singleton_def del: replicate_Suc)
next
  case (Some r)
  have ok: "word_members (ws[n div 64 := ws ! (n div 64) OR 2 ^ (n mod 64)])
      = insert n (word_members ws)"
    if "ws = (if n div 64 \<ge> nwords r then enlarge (words r) (n div 64 + 1) else words r)" for ws
    by (rule members_set_bit) (auto simp: that nwords_def length_enlarge)
  show ?thesis
    using ok [OF refl] Some by (auto simp: bms_add_member_def Let_def split: if_splits)
qed

lemma bms_del_member_nat:
  "\<exists>b. bms_del_member a (int n) = Inr b \<and> bms_members b = bms_members a - {n}"
proof (cases a)
  case (Some r)
  have "n \<notin> word_members (words r)" if "\<not> n div 64 < nwords r"
    using that by (auto simp: mem_words nth_default_def nwords_def)
  with Some show ?thesis
    by (cases "n div 64 < nwords r") (simp_all add: bms_del_member_def members_clear_bit nwords_def)
qed (simp add: bms_del_member_def)

lemma bms_resize_members [simp]: "bms_members (bms_resize a wc) = bms_members a"
  by (cases a) (auto simp: bms_resize_def)

section \<open>Emptiness, equality and inclusion\<close>

lemma bits_none_iff: "(\<forall>k. \<not> bit (w :: uint64) k) \<longleftrightarrow> w = 0"
  using word_nonzero_bit [of w] by auto

lemma bits_empty_iff: "{k. bit (w :: uint64) k} = {} \<longleftrightarrow> w = 0"
  using bits_none_iff [of w] by auto

lemma all_zero_iff: "all_zero ws \<longleftrightarrow> word_members ws = {}"
  by (induction ws) (simp_all add: word_members_Cons bits_none_iff)

lemma all_nat_Suc_split: "(\<forall>i. P i) \<longleftrightarrow> P 0 \<and> (\<forall>i. P (Suc i))"
  by (metis not0_implies_Suc)

lemma word_members_Cons_eq_iff:
  "word_members (x # xs) = word_members (y # ys) \<longleftrightarrow> x = y \<and> word_members xs = word_members ys"
  unfolding word_members_eq_iff by (subst all_nat_Suc_split) simp

lemma and_not_zero_iff:
  "(x :: uint64) AND NOT y = 0 \<longleftrightarrow> (\<forall>k. bit x k \<longrightarrow> bit y k)"
  using bit_word_length [of x] by (auto simp: word_zero_iff_bits bit_and_iff bit_not_iff)

lemma word_members_Cons_subset_iff:
  "word_members (x # xs) \<subseteq> word_members (y # ys)
     \<longleftrightarrow> x AND NOT y = 0 \<and> word_members xs \<subseteq> word_members ys"
  unfolding word_members_subset_iff and_not_zero_iff by (subst all_nat_Suc_split) simp

lemma bms_equal_loop_iff:
  "length xs \<le> length ys \<Longrightarrow> bms_equal_loop xs ys \<longleftrightarrow> word_members xs = word_members ys"
  by (induction xs ys rule: bms_equal_loop.induct) (auto simp: word_members_Cons_eq_iff all_zero_iff)

lemma bms_is_subset_loop_iff: "bms_is_subset_loop xs ys \<longleftrightarrow> word_members xs \<subseteq> word_members ys"
  by (induction xs ys rule: bms_is_subset_loop.induct)
    (auto simp: word_members_Cons_subset_iff all_zero_iff)

lemma nonempty_difference_loop_iff:
  "nonempty_difference_loop xs ys \<longleftrightarrow> \<not> word_members xs \<subseteq> word_members ys"
  by (induction xs ys rule: nonempty_difference_loop.induct)
    (auto simp: word_members_Cons_subset_iff all_zero_iff)

lemma word_members_Cons_disjoint_iff:
  "word_members (x # xs) \<inter> word_members (y # ys) = {}
     \<longleftrightarrow> x AND y = 0 \<and> word_members xs \<inter> word_members ys = {}"
proof -
  have *: "word_members us \<inter> word_members vs = {} \<longleftrightarrow>
      (\<forall>i. word_at us i AND word_at vs i = 0)" for us vs
    unfolding disjoint_iff bits_none_iff [symmetric] bit_and_iff bit_word_at
    by (metis div_mult_mod_eq mod_less_divisor zero_less_numeral)
  show ?thesis unfolding * by (subst all_nat_Suc_split) simp
qed

lemma overlap_loop_iff: "overlap_loop xs ys \<longleftrightarrow> word_members xs \<inter> word_members ys \<noteq> {}"
  by (induction xs ys rule: overlap_loop.induct) (simp_all add: word_members_Cons_disjoint_iff)

lemma bms_is_empty_iff: "bms_is_empty a \<longleftrightarrow> bms_members a = {}"
  by (cases a) (simp_all add: bms_is_empty_def all_zero_iff)

text \<open>
  The answer of \<^verbatim>\<open>bms_subset_compare\<close> as two bits: whether \<open>a\<close> has a member that \<open>b\<close>
  lacks, and the converse.  The loops accumulate these bits by disjunction.
\<close>

definition cmp_of :: "bool \<Rightarrow> bool \<Rightarrow> BMS_Comparison" where
  "cmp_of na nb =
     (if na \<and> nb then BMS_DIFFERENT else if na then BMS_SUBSET2 else if nb then BMS_SUBSET1
      else BMS_EQUAL)"

lemma subset_extra_a_cmp:
  "\<not> (p \<and> q) \<Longrightarrow> subset_extra_a (cmp_of p q) ws = cmp_of (p \<or> \<not> all_zero ws) q"
proof (induction ws arbitrary: p)
  case (Cons w ws)
  have "BMS_SUBSET2 = cmp_of True False" by (simp add: cmp_of_def)
  with Cons.IH [of True] Cons.IH [of p] Cons.prems show ?case
    by (cases p; cases q) (auto simp: cmp_of_def)
qed (auto simp: cmp_of_def)

lemma subset_extra_b_cmp:
  "\<not> (p \<and> q) \<Longrightarrow> subset_extra_b (cmp_of p q) ws = cmp_of p (q \<or> \<not> all_zero ws)"
proof (induction ws arbitrary: q)
  case (Cons w ws)
  have "BMS_SUBSET1 = cmp_of False True" by (simp add: cmp_of_def)
  with Cons.IH [of True] Cons.IH [of q] Cons.prems show ?case
    by (cases p; cases q) (auto simp: cmp_of_def)
qed (auto simp: cmp_of_def)

lemma subset_compare_loop_step:
  assumes "\<not> (p \<and> q)"
  shows "subset_compare_loop (cmp_of p q) (x # xs) (y # ys) =
    (if (p \<or> x AND NOT y \<noteq> 0) \<and> (q \<or> y AND NOT x \<noteq> 0) then BMS_DIFFERENT
     else subset_compare_loop (cmp_of (p \<or> x AND NOT y \<noteq> 0) (q \<or> y AND NOT x \<noteq> 0)) xs ys)"
  using assms by (auto simp: cmp_of_def Let_def)

lemma subset_compare_loop_cmp:
  "\<not> (p \<and> q) \<Longrightarrow> subset_compare_loop (cmp_of p q) xs ys
     = cmp_of (p \<or> \<not> word_members xs \<subseteq> word_members ys) (q \<or> \<not> word_members ys \<subseteq> word_members xs)"
proof (induction xs arbitrary: ys p q)
  case Nil
  have "subset_compare_loop (cmp_of p q) [] ys = subset_extra_b (cmp_of p q) ys"
    by (cases ys) simp_all
  with Nil show ?case by (simp add: subset_extra_b_cmp all_zero_iff)
next
  case (Cons x xs)
  show ?case
  proof (cases ys)
    case Nil
    have "subset_compare_loop (cmp_of p q) (x # xs) [] = cmp_of (p \<or> \<not> all_zero (x # xs)) q"
      by (simp only: subset_compare_loop.simps subset_extra_a_cmp [OF Cons.prems])
    with Nil show ?thesis by (simp only: all_zero_iff) simp
  next
    case (Cons y ys')
    show ?thesis
    proof (cases "(p \<or> x AND NOT y \<noteq> 0) \<and> (q \<or> y AND NOT x \<noteq> 0)")
      case True
      then show ?thesis
        unfolding Cons subset_compare_loop_step [OF Cons.prems] word_members_Cons_subset_iff
        by (auto simp: cmp_of_def)
    next
      case False
      then show ?thesis
        unfolding Cons subset_compare_loop_step [OF Cons.prems] word_members_Cons_subset_iff
        by (simp only: if_False Cons.IH [OF False]) (simp only: de_Morgan_conj disj_assoc)
    qed
  qed
qed

lemma bms_subset_compare_cmp:
  "bms_subset_compare a b =
     cmp_of (\<not> bms_members a \<subseteq> bms_members b) (\<not> bms_members b \<subseteq> bms_members a)"
proof -
  have "BMS_EQUAL = cmp_of False False" by (simp add: cmp_of_def)
  then show ?thesis
    using subset_compare_loop_cmp [of False False]
    by (cases a; cases b)
      (auto simp: bms_subset_compare_def bms_is_empty_iff cmp_of_def)
qed

section \<open>The order of sets\<close>

text \<open>A set as the number whose binary digits are its members.\<close>

definition set_code :: "nat set \<Rightarrow> nat" where
  "set_code A = (\<Sum>n\<in>A. 2 ^ n)"

lemma unat_set_code: "unat (w :: uint64) = set_code {k. bit w k}"
proof -
  have eq: "{k. bit w k} = {k\<in>{0..<64}. bit w k}" using bit_word_length [of w] by auto
  have "unat w = take_bit 64 (unat w)"
    by (rule take_bit_nat_eq_self [symmetric]) (rule unat_uint64_less)
  also have "\<dots> = (\<Sum>k = 0..<64. push_bit k (of_bool (bit (unat w) k)))" by (rule take_bit_sum)
  also have "\<dots> = (\<Sum>k \<in> {0..<64}. if bit w k then 2 ^ k else 0)"
    by (rule sum.cong) (auto simp: push_bit_eq_mult bit_unsigned_iff)
  also have "\<dots> = set_code {k\<in>{0..<64}. bit w k}"
    unfolding set_code_def by (rule sum.inter_filter [symmetric]) simp
  finally show ?thesis by (simp only: eq)
qed

lemma set_code_words_Cons:
  "set_code (word_members (w # ws)) = unat w + 2 ^ 64 * set_code (word_members ws)"
proof -
  have disj: "{k. bit w k} \<inter> (+) 64 ` word_members ws = {}"
    using bit_word_length [of w] by auto
  have fin: "finite {k. bit w k}"
    by (rule finite_subset [of _ "{..<64}"]) (auto dest: bit_word_length)
  have "set_code ((+) 64 ` word_members ws) = 2 ^ 64 * set_code (word_members ws)"
    unfolding set_code_def by (subst sum.reindex) (simp_all add: power_add sum_distrib_left)
  then show ?thesis
    unfolding unat_set_code word_members_Cons set_code_def
    by (subst sum.union_disjoint) (simp_all add: fin disj)
qed

lemma set_code_words_less: "set_code (word_members ws) < 2 ^ (64 * length ws)"
proof (induction ws)
  case (Cons w ws)
  let ?B = "2 ^ 64 :: nat" and ?c = "set_code (word_members ws)"
  have "unat w < ?B" by (rule unat_uint64_less)
  moreover have "?c + 1 \<le> 2 ^ (64 * length ws)" using Cons.IH by simp
  then have "?B * (?c + 1) \<le> ?B * 2 ^ (64 * length ws)" by (rule mult_le_mono2)
  ultimately have "unat w + ?B * ?c < ?B * 2 ^ (64 * length ws)"
    by (simp only: distrib_left)
  then show ?case by (simp only: set_code_words_Cons) (simp add: power_add)
qed (simp add: set_code_def)

lemma set_code_inj: "set_code (word_members xs) = set_code (word_members ys) \<longleftrightarrow>
   word_members xs = word_members ys"
proof (induction xs arbitrary: ys)
  case Nil
  have "set_code (word_members ys) = 0 \<Longrightarrow> word_members ys = {}"
    by (simp add: set_code_def)
  then show ?case by (auto simp: set_code_def)
next
  case (Cons x xs)
  show ?case
  proof (cases ys)
    case Nil
    then show ?thesis by (simp add: set_code_def)
  next
    case (Cons y ys')
    have "unat x < 2 ^ 64" "unat y < 2 ^ 64" by (rule unat_uint64_less)+
    then have radix: "unat x + 2 ^ 64 * m = unat y + 2 ^ 64 * n \<longleftrightarrow> x = y \<and> m = n" for m n
      by (simp only: radix_eq_iff word_unat_eq_iff)
    show ?thesis
      by (simp only: Cons set_code_words_Cons word_members_Cons_eq_iff radix Cons.IH)
  qed
qed

lemma set_code_take_Suc:
  "i < length ws \<Longrightarrow> set_code (word_members (take (Suc i) ws))
     = set_code (word_members (take i ws)) + 2 ^ (64 * i) * unat (ws ! i)"
proof (induction ws arbitrary: i)
  case (Cons w ws)
  show ?case
  proof (cases i)
    case 0
    then show ?thesis using set_code_words_Cons [of w "[]"] by (simp add: set_code_def)
  next
    case (Suc j)
    with Cons.prems have "j < length ws" by simp
    from Cons.IH [OF this] Suc show ?thesis
      by (simp only: take_Suc_Cons set_code_words_Cons) (simp add: power_add algebra_simps)
  qed
qed simp

lemma set_code_take_drop:
  "set_code (word_members ws) =
     set_code (word_members (take n ws)) + 2 ^ (64 * n) * set_code (word_members (drop n ws))"
proof (induction n arbitrary: ws)
  case 0
  then show ?case by (simp add: set_code_def)
next
  case (Suc n)
  show ?case
  proof (cases ws)
    case Nil
    then show ?thesis by (simp add: set_code_def)
  next
    case (Cons w ws')
    have "set_code (word_members ws) = unat w + 2 ^ 64 *
        (set_code (word_members (take n ws')) + 2 ^ (64 * n) * set_code (word_members (drop n ws')))"
      by (simp only: Cons set_code_words_Cons Suc.IH [of ws'])
    also have "\<dots> = set_code (word_members (take (Suc n) ws)) +
        2 ^ (64 * Suc n) * set_code (word_members (drop (Suc n) ws))"
      by (simp only: Cons take_Suc_Cons drop_Suc_Cons set_code_words_Cons mult_Suc_right power_add)
        (simp only: distrib_left mult.assoc add.assoc)
    finally show ?thesis .
  qed
qed

lemma set_code_empty [simp]: "set_code {} = 0"
  by (simp add: set_code_def)

lemma set_code_zero_iff: "set_code (word_members ws) = 0 \<longleftrightarrow> word_members ws = {}"
  by (auto simp: set_code_def)

definition cmp_nat :: "nat \<Rightarrow> nat \<Rightarrow> int" where
  "cmp_nat m n = (if m < n then -1 else if n < m then 1 else 0)"

lemma bms_compare_loop_sgn:
  assumes "n \<le> length xs" and "n \<le> length ys"
  shows "bms_compare_loop xs ys n =
    cmp_nat (set_code (word_members (take n xs))) (set_code (word_members (take n ys)))"
  using assms
proof (induction n)
  case (Suc i)
  let ?P = "2 ^ (64 * i) :: nat"
  let ?A = "set_code (word_members (take i xs))" and ?B = "set_code (word_members (take i ys))"
  have lt: "?A < ?P" "?B < ?P"
    using set_code_words_less [of "take i xs"] set_code_words_less [of "take i ys"] Suc.prems by simp_all
  have step: "set_code (word_members (take (Suc i) xs)) = ?A + ?P * unat (xs ! i)"
    "set_code (word_members (take (Suc i) ys)) = ?B + ?P * unat (ys ! i)"
    using Suc.prems by (simp_all only: set_code_take_Suc Suc_le_eq)
  consider "xs ! i = ys ! i" | "xs ! i > ys ! i" | "xs ! i < ys ! i" by (rule linorder_cases) blast+
  then show ?case
  proof cases
    case 1
    with Suc.IH Suc.prems show ?thesis by (simp add: step cmp_nat_def)
  next
    case 2
    then have "unat (ys ! i) < unat (xs ! i)" by (simp only: word_less_nat_alt)
    with lt have "?B + ?P * unat (ys ! i) < ?A + ?P * unat (xs ! i)" by (intro radix_less)
    with 2 show ?thesis by (auto simp: step cmp_nat_def)
  next
    case 3
    then have "unat (xs ! i) < unat (ys ! i)" by (simp only: word_less_nat_alt)
    with lt have "?A + ?P * unat (xs ! i) < ?B + ?P * unat (ys ! i)" by (intro radix_less)
    with 3 show ?thesis by (auto simp: step cmp_nat_def)
  qed
qed (simp add: set_code_def cmp_nat_def)

lemma bms_compare_words:
  assumes "n = min (length xs) (length ys)"
  shows "(if \<not> all_zero (drop n xs) then 1 else if \<not> all_zero (drop n ys) then -1
          else bms_compare_loop xs ys n)
    = cmp_nat (set_code (word_members xs)) (set_code (word_members ys))"
proof -
  let ?P = "2 ^ (64 * n) :: nat"
  let ?A = "set_code (word_members (take n xs))" and ?B = "set_code (word_members (take n ys))"
  have lt: "?A < ?P" "?B < ?P"
    using set_code_words_less [of "take n xs"] set_code_words_less [of "take n ys"] assms by simp_all
  have loop: "bms_compare_loop xs ys n = cmp_nat ?A ?B"
    using assms by (intro bms_compare_loop_sgn) simp_all
  have one_empty: "drop n xs = [] \<or> drop n ys = []"
    using assms by (cases "length xs \<le> length ys") simp_all
  have xs: "set_code (word_members xs) = ?A + ?P * set_code (word_members (drop n xs))"
    and ys: "set_code (word_members ys) = ?B + ?P * set_code (word_members (drop n ys))"
    by (rule set_code_take_drop)+
  show ?thesis
  proof (cases "all_zero (drop n xs) \<and> all_zero (drop n ys)")
    case True
    then have "set_code (word_members xs) = ?A" "set_code (word_members ys) = ?B"
      by (simp_all add: xs ys all_zero_iff)
    with True show ?thesis by (simp only: loop simp_thms if_False)
  next
    case False
    then consider "\<not> all_zero (drop n xs)" "drop n ys = []" | "drop n xs = []" "\<not> all_zero (drop n ys)"
      using one_empty by auto
    then show ?thesis
    proof cases
      case 1
      then have "0 < set_code (word_members (drop n xs))"
        by (simp only: all_zero_iff set_code_zero_iff neq0_conv [symmetric] not_False_eq_True)
      with lt have "?B + ?P * 0 < ?A + ?P * set_code (word_members (drop n xs))" by (intro radix_less)
      then have "set_code (word_members ys) < set_code (word_members xs)"
        by (simp only: xs ys 1(2) word_members_Nil set_code_empty)
      with 1(1) show ?thesis by (simp only: cmp_nat_def if_True not_less_iff_gr_or_eq simp_thms if_not_P)
    next
      case 2
      then have "0 < set_code (word_members (drop n ys))"
        by (simp only: all_zero_iff set_code_zero_iff neq0_conv [symmetric] not_False_eq_True)
      with lt have "?A + ?P * 0 < ?B + ?P * set_code (word_members (drop n ys))" by (intro radix_less)
      then have "set_code (word_members xs) < set_code (word_members ys)"
        by (simp only: xs ys 2(1) word_members_Nil set_code_empty)
      with 2 show ?thesis by (simp only: cmp_nat_def if_True all_zero.simps simp_thms if_False)
    qed
  qed
qed

lemma bms_compare_sgn:
  "bms_compare a b = cmp_nat (set_code (bms_members a)) (set_code (bms_members b))"
proof (cases a)
  case None
  then show ?thesis
    by (cases b) (auto simp: bms_compare_def bms_is_empty_iff set_code_zero_iff cmp_nat_def)
next
  case (Some ra)
  show ?thesis
  proof (cases b)
    case None
    with Some show ?thesis
      by (auto simp: bms_compare_def bms_is_empty_iff set_code_zero_iff cmp_nat_def)
  next
    case (Some rb)
    with \<open>a = Some ra\<close> show ?thesis
      by (simp only: bms_compare_def option.case bms_members_simps Let_def nwords_def
          bms_compare_words [OF refl])
  qed
qed

section \<open>Counting\<close>

lemma card_word_members_Cons: "card (word_members (w # ws)) = card {k. bit w k} + card (word_members ws)"
proof -
  have disj: "{k. bit w k} \<inter> (+) 64 ` word_members ws = {}"
    using bit_word_length [of w] by auto
  have fin: "finite {k. bit w k}"
    by (rule finite_subset [of _ "{..<64}"]) (auto dest: bit_word_length)
  show ?thesis
    unfolding word_members_Cons by (subst card_Un_disjoint) (simp_all add: fin disj card_image)
qed

lemma popcount_words_card: "popcount_words ws = card (word_members ws)"
  by (induction ws) (simp_all add: card_word_members_Cons bmw.popcnt_card bot_fun_def)

lemma word_members_take: "word_members (take i ws) = {n \<in> word_members ws. n < i * 64}"
proof (rule set_eqI)
  fix n
  have "n div 64 < i \<longleftrightarrow> n < i * 64" by (rule div_less_iff_less_mult) simp
  then show "n \<in> word_members (take i ws) \<longleftrightarrow> n \<in> {n \<in> word_members ws. n < i * 64}"
    by (simp only: mem_Collect_eq mem_words nth_default_def length_take min_less_iff_conj)
      (cases "n < i * 64"; simp)
qed

lemma member_rank:
  assumes "n div 64 < length ws"
  shows "popcount_words (take (n div 64) ws) +
           pg_popcount64_slow (ws ! (n div 64) AND (push_bit (n mod 64) 1 - 1))
         = card {m \<in> word_members ws. m < n}"
proof -
  let ?i = "n div 64" and ?b = "n mod 64"
  have "push_bit ?b 1 - 1 = (mask ?b :: uint64)" by (simp add: mask_eq_exp_minus_1)
  then have low: "{k. bit (ws ! ?i AND (push_bit ?b 1 - 1)) k} = {k. k < ?b \<and> bit (ws ! ?i) k}"
    by (auto simp: bit_and_iff bit_mask_iff dest: bit_word_length)
  have split: "{m \<in> word_members ws. m < n} =
      {m \<in> word_members ws. m < ?i * 64} \<union> (+) (?i * 64) ` {k. k < ?b \<and> bit (ws ! ?i) k}"
    (is "?L = ?R")
  proof (rule set_eqI)
    fix m
    have n: "n = ?i * 64 + ?b" by simp
    show "m \<in> ?L \<longleftrightarrow> m \<in> ?R"
    proof (cases "m < ?i * 64")
      case True
      then have "m < n" using n by linarith
      with True show ?thesis by auto
    next
      case False
      then obtain k where m: "m = ?i * 64 + k" by (metis le_add_diff_inverse not_less)
      have "m < n \<longleftrightarrow> k < ?b" using m n by linarith
      moreover have "k < ?b \<Longrightarrow> m \<in> word_members ws \<longleftrightarrow> bit (ws ! ?i) k"
        using assms m by (simp add: mem_words nth_default_in)
      ultimately show ?thesis using False by (auto simp: m)
    qed
  qed
  have "{m \<in> word_members ws. m < ?i * 64} \<inter> (+) (?i * 64) ` {k. k < ?b \<and> bit (ws ! ?i) k} = {}"
    by auto
  then have "card ?L = card {m \<in> word_members ws. m < ?i * 64} + card {k. k < ?b \<and> bit (ws ! ?i) k}"
    unfolding split by (subst card_Un_disjoint) (simp_all add: card_image)
  then show ?thesis by (simp only: popcount_words_card word_members_take bmw.popcnt_card low)
qed

section \<open>Isolating the lowest bit\<close>

lemma lowest_bit:
  fixes w :: uint64
  assumes bp: "bit w p" and least: "\<And>n. bit w n \<Longrightarrow> p \<le> n"
  shows "w AND - w = 2 ^ p"
proof -
  have p: "p < 64" using bit_word_length [OF bp] by simp
  define hi where "hi = w AND NOT (2 ^ p)"
  have hi: "bit hi n \<longleftrightarrow> bit w n \<and> n \<noteq> p" for n
    unfolding hi_def using p bit_word_length [of w n] by (auto simp: bit_and_iff bit_not_iff bit_push_one)
  have "w = hi OR 2 ^ p"
  proof (rule bit_word_eqI)
    fix n
    show "bit w n \<longleftrightarrow> bit (hi OR 2 ^ p) n"
      using p bp hi [of n] by (cases "n = p") (simp_all add: bit_or_iff bit_push_one)
  qed
  also have "hi OR 2 ^ p = hi + 2 ^ p"
    using p by (intro disjunctive_add [symmetric]) (simp add: hi bit_push_one)
  finally have "w - 1 = hi + mask p" by (simp add: mask_eq_exp_minus_1)
  also have "\<dots> = hi OR mask p"
    using least by (intro disjunctive_add) (auto simp: hi bit_mask_iff dest: leD)
  finally have pred: "bit (w - 1) n \<longleftrightarrow> bit w n \<and> n \<noteq> p \<or> n < p" for n
    using p by (simp add: bit_or_iff hi bit_mask_iff) linarith
  show ?thesis
  proof (rule bit_word_eqI)
    fix n :: nat
    assume "n < LENGTH(64)"
    then show "bit (w AND - w) n \<longleftrightarrow> bit (2 ^ p :: uint64) n"
      using least [of n] bp p pred [of n]
      by (cases "bit w n"; cases "n = p")
        (simp_all add: minus_eq_not_minus_1 bit_and_iff bit_not_iff bit_push_one)
  qed
qed

lemma RIGHTMOST_ONE_eq: "w \<noteq> 0 \<Longrightarrow> RIGHTMOST_ONE w = 2 ^ pg_rightmost_one_pos64 w"
  unfolding RIGHTMOST_ONE_def by (rule lowest_bit) (simp_all add: bmw.rpos_bit bmw.rpos_min)

lemma single_bit_iff: "n < 64 \<Longrightarrow> (w :: uint64) = 2 ^ n \<longleftrightarrow> {k. bit w k} = {n}"
  by (auto simp: bit_push_one set_eq_iff intro: bit_word_eqI)

lemma rightmost_pos_power: "n < 64 \<Longrightarrow> pg_rightmost_one_pos64 (2 ^ n) = n"
  using bmw.rpos_single [of n] by simp

lemma HAS_MULTIPLE_ONES_iff:
  assumes "w \<noteq> 0"
  shows "HAS_MULTIPLE_ONES w \<longleftrightarrow> {k. bit w k} \<noteq> {pg_rightmost_one_pos64 w}"
  using assms bmw.rpos_less [OF assms] RIGHTMOST_ONE_eq [OF assms]
  by (metis HAS_MULTIPLE_ONES_def single_bit_iff)

lemma bits_single_rpos: "{k. bit w k} = {n} \<Longrightarrow> pg_rightmost_one_pos64 w = n"
  by (rule bmw.rpos_eqI) auto

lemma members_single_Cons:
  "word_members (w # ws) = {n} \<longleftrightarrow>
     (if w \<noteq> 0 then {k. bit w k} = {n} \<and> word_members ws = {}
      else \<exists>m. n = 64 + m \<and> word_members ws = {m})"
proof (cases "w = 0")
  case True
  have "(+) 64 ` A = {n} \<longleftrightarrow> (\<exists>m. n = 64 + m \<and> A = {m})" for A
  proof
    assume h: "(+) 64 ` A = {n}"
    then have "n \<in> (+) 64 ` A" by simp
    then obtain m where m: "m \<in> A" "n = 64 + m" by blast
    have "x = m" if "x \<in> A" for x using imageI [OF that, of "(+) 64"] h m(2) by simp
    with m show "\<exists>m. n = 64 + m \<and> A = {m}" by blast
  qed auto
  with True show ?thesis by (simp add: word_members_Cons bot_fun_def)
next
  case False
  have "{k. bit w k} \<noteq> {}" using False by (simp only: bits_empty_iff simp_thms)
  moreover have "\<not> ({k. bit w k} = {n} \<and> (+) 64 ` word_members ws = {n})"
  proof
    assume h: "{k. bit w k} = {n} \<and> (+) 64 ` word_members ws = {n}"
    then have "n \<in> {k. bit w k}" and "n \<in> (+) 64 ` word_members ws" by simp_all
    then show False using bit_word_length [of w n] by auto
  qed
  ultimately show ?thesis
    using False unfolding word_members_Cons Un_singleton_iff by auto
qed

section \<open>Singletons\<close>

lemma members_Cons_empty_iff: "word_members (w # ws) = {} \<longleftrightarrow> w = 0 \<and> word_members ws = {}"
  by (simp only: all_zero_iff [symmetric]) simp

lemma singleton_loop_found:
  "result \<ge> 0 \<Longrightarrow>
     singleton_loop ws wordnum result = (if word_members ws = {} then Inr result else Inl ())"
  by (induction ws arbitrary: wordnum) (simp_all add: members_Cons_empty_iff)

lemma singleton_loop_empty:
  "word_members ws = {} \<Longrightarrow> singleton_loop ws wordnum (-1) = Inr (-1)"
  by (induction ws arbitrary: wordnum) (simp_all add: members_Cons_empty_iff)

lemma singleton_loop_step:
  assumes "w \<noteq> 0"
  shows "singleton_loop (w # ws) wordnum (-1) =
    (if {k. bit w k} = {pg_rightmost_one_pos64 w} \<and> word_members ws = {}
     then Inr (int (wordnum * 64) + int (pg_rightmost_one_pos64 w)) else Inl ())"
  using assms HAS_MULTIPLE_ONES_iff [OF assms] by (simp add: singleton_loop_found)

lemma singleton_loop_one:
  "word_members ws = {n} \<Longrightarrow> singleton_loop ws wordnum (-1) = Inr (int (wordnum * 64) + int n)"
proof (induction ws arbitrary: n wordnum)
  case (Cons w ws)
  show ?case
  proof (cases "w = 0")
    case True
    with Cons.prems obtain m where "n = 64 + m" "word_members ws = {m}"
      by (auto simp only: members_single_Cons simp_thms if_False)
    with True Cons.IH [of m "Suc wordnum"] show ?thesis by simp
  next
    case False
    with Cons.prems have "{k. bit w k} = {n}" "word_members ws = {}"
      by (simp_all only: members_single_Cons simp_thms if_True)
    with bits_single_rpos [of w n] show ?thesis by (simp only: singleton_loop_step [OF False]) simp
  qed
qed simp

lemma singleton_loop_many:
  "word_members ws \<noteq> {} \<Longrightarrow> \<nexists>n. word_members ws = {n} \<Longrightarrow> singleton_loop ws wordnum (-1) = Inl ()"
proof (induction ws arbitrary: wordnum)
  case (Cons w ws)
  show ?case
  proof (cases "w = 0")
    case True
    with Cons.prems have "word_members ws \<noteq> {}" "\<nexists>n. word_members ws = {n}"
      by (auto simp only: members_single_Cons members_Cons_empty_iff simp_thms if_False)
    with True Cons.IH show ?thesis by simp
  next
    case False
    with Cons.prems(2) have "\<not> ({k. bit w k} = {pg_rightmost_one_pos64 w} \<and> word_members ws = {})"
      by (simp only: members_single_Cons simp_thms if_True) blast
    then show ?thesis by (simp only: singleton_loop_step [OF False] if_False)
  qed
qed simp

lemma membership_loop_single:
  "membership_loop BMS_SINGLETON ws = (if word_members ws = {} then BMS_SINGLETON else BMS_MULTIPLE)"
  by (induction ws) (simp_all add: members_Cons_empty_iff)

lemma membership_loop_correct:
  "membership_loop BMS_EMPTY_SET ws =
     (if word_members ws = {} then BMS_EMPTY_SET
      else if \<exists>n. word_members ws = {n} then BMS_SINGLETON else BMS_MULTIPLE)"
proof (induction ws)
  case (Cons w ws)
  show ?case
  proof (cases "w = 0")
    case True
    have "(\<exists>n. word_members (w # ws) = {n}) \<longleftrightarrow> (\<exists>m. word_members ws = {m})"
      using True by (simp only: members_single_Cons simp_thms if_False) blast
    with True Cons.IH show ?thesis by (simp add: members_Cons_empty_iff)
  next
    case False
    have "(\<exists>n. word_members (w # ws) = {n}) \<longleftrightarrow> \<not> HAS_MULTIPLE_ONES w \<and> word_members ws = {}"
      using False HAS_MULTIPLE_ONES_iff [OF False] bits_single_rpos [of w]
      by (simp only: members_single_Cons simp_thms if_True) metis
    with False show ?thesis by (simp add: membership_loop_single members_Cons_empty_iff)
  qed
qed simp

section \<open>Iteration\<close>

text \<open>\<open>is_least S x\<close>: \<open>x\<close> is the least element of \<open>S\<close>; \<open>is_greatest\<close> dually.\<close>

definition is_least :: "nat set \<Rightarrow> nat \<Rightarrow> bool" where
  "is_least S x \<longleftrightarrow> x \<in> S \<and> (\<forall>y\<in>S. x \<le> y)"

definition is_greatest :: "nat set \<Rightarrow> nat \<Rightarrow> bool" where
  "is_greatest S x \<longleftrightarrow> x \<in> S \<and> (\<forall>y\<in>S. y \<le> x)"

lemma is_least_Min: "finite S \<Longrightarrow> is_least S x \<longleftrightarrow> S \<noteq> {} \<and> x = Min S"
  unfolding is_least_def by (metis Min_eqI Min_in Min_le empty_iff)

lemma is_greatest_Max: "finite S \<Longrightarrow> is_greatest S x \<longleftrightarrow> S \<noteq> {} \<and> x = Max S"
  unfolding is_greatest_def by (metis Max_eqI Max_in Max_ge empty_iff)

lemma mem_words_Cons:
  "m \<in> word_members (w # ws) \<longleftrightarrow> bit w m \<or> 64 \<le> m \<and> m - 64 \<in> word_members ws"
proof -
  have "m \<in> (+) 64 ` A \<longleftrightarrow> 64 \<le> m \<and> m - 64 \<in> A" for A
    by (auto intro: image_eqI [of m "(+) 64" "m - 64" A])
  then show ?thesis by (simp add: word_members_Cons)
qed

lemma next_member_loop_correct:
  assumes "b < 64"
  shows "(\<exists>m. is_least {m \<in> word_members ws. b \<le> m} m \<and>
            next_member_loop ws (push_bit b (NOT 0)) wordnum = int (wordnum * 64) + int m) \<or>
         {m \<in> word_members ws. b \<le> m} = {} \<and>
            next_member_loop ws (push_bit b (NOT 0)) wordnum = -2"
  using assms
proof (induction ws arbitrary: b wordnum)
  case (Cons w ws)
  define v where "v = w AND push_bit b (NOT 0)"
  have unfold: "next_member_loop (w # ws) (push_bit b (NOT 0)) wordnum =
      (if v \<noteq> 0 then int (wordnum * 64) + int (pg_rightmost_one_pos64 v)
       else next_member_loop ws (push_bit 0 (NOT 0)) (Suc wordnum))"
    by (simp add: v_def Let_def)
  have bits: "bit v k \<longleftrightarrow> bit w k \<and> b \<le> k" for k
    unfolding v_def using Cons.prems bit_word_length [of w k] by (auto simp: bit_and_iff bit_not_iff bit_mask_iff)
  have mem: "m \<in> word_members (w # ws) \<longleftrightarrow> bit w m \<or> 64 \<le> m \<and> m - 64 \<in> word_members ws" for m
    by (rule mem_words_Cons)
  show ?case
  proof (cases "v = 0")
    case False
    let ?p = "pg_rightmost_one_pos64 v"
    have p: "bit w ?p" "b \<le> ?p" "?p < 64"
      using bmw.rpos_bit [OF False] bmw.rpos_less [OF False] by (simp_all add: bits)
    have "?p \<le> m" if "bit w m" "b \<le> m" for m using bmw.rpos_min [OF False, of m] that by (simp add: bits)
    with p have "is_least {m \<in> word_members (w # ws). b \<le> m} ?p"
      by (auto simp: is_least_def mem)
    with False show ?thesis unfolding unfold by auto
  next
    case True
    then have none: "\<not> (bit w k \<and> b \<le> k)" for k using bits [of k] by simp
    have shift: "m \<in> {m \<in> word_members (w # ws). b \<le> m} \<longleftrightarrow> 64 \<le> m \<and> m - 64 \<in> {m \<in> word_members ws. 0 \<le> m}" for m
      using none [of m] Cons.prems by (auto simp: mem)
    have nxt: "next_member_loop (w # ws) (push_bit b (NOT 0)) wordnum
        = next_member_loop ws (push_bit 0 (NOT 0)) (Suc wordnum)"
      using True by (simp only: unfold simp_thms if_False)
    have "0 < (64 :: nat)" by simp
    from Cons.IH [OF this, of "Suc wordnum"] show ?thesis
    proof (elim disjE exE conjE)
      fix m
      assume m: "is_least {m \<in> word_members ws. 0 \<le> m} m"
        and eq: "next_member_loop ws (push_bit 0 (NOT 0)) (Suc wordnum) = int (Suc wordnum * 64) + int m"
      have "is_least {m \<in> word_members (w # ws). b \<le> m} (64 + m)"
        unfolding is_least_def Ball_def shift using m by (auto simp: is_least_def)
      moreover have "int (Suc wordnum * 64) + int m = int (wordnum * 64) + int (64 + m)" by simp
      ultimately show ?thesis unfolding nxt eq by blast
    next
      assume none: "{m \<in> word_members ws. 0 \<le> m} = {}"
        and eq: "next_member_loop ws (push_bit 0 (NOT 0)) (Suc wordnum) = - 2"
      have "{m \<in> word_members (w # ws). b \<le> m} = {}"
        using none shift by blast
      then show ?thesis unfolding nxt eq by blast
    qed
  qed
qed simp

lemma word_members_drop: "m \<in> word_members (drop i ws) \<longleftrightarrow> i * 64 + m \<in> word_members ws"
proof -
  have "(i * 64 + m) div 64 = i + m div 64" by simp
  moreover have "word_at (drop i ws) j = word_at ws (i + j)" for j
    by (simp add: nth_default_def less_diff_conv add.commute)
  ultimately show ?thesis by (simp add: mem_words)
qed

lemma bms_next_member_correct:
  assumes "prevbit + 1 = int p"
  shows "(\<exists>m. is_least {m \<in> bms_members a. p \<le> m} m \<and> bms_next_member a prevbit = int m) \<or>
         {m \<in> bms_members a. p \<le> m} = {} \<and> bms_next_member a prevbit = -2"
proof (cases a)
  case None
  then show ?thesis by (simp add: bms_next_member_def)
next
  case (Some r)
  let ?i = "p div 64" and ?b = "p mod 64"
  let ?S = "{m \<in> word_members (words r). p \<le> m}"
  let ?T = "{m \<in> word_members (drop ?i (words r)). ?b \<le> m}"
  have eq: "bms_next_member a prevbit = next_member_loop (drop ?i (words r)) (push_bit ?b (NOT 0)) ?i"
    using Some assms by (simp add: bms_next_member_def)
  have p: "?i * 64 + ?b = p" by simp
  have T: "m \<in> ?T \<longleftrightarrow> ?i * 64 + m \<in> ?S" for m
    using p by (simp only: mem_Collect_eq word_members_drop) linarith
  have S: "\<exists>k. m = ?i * 64 + k" if "m \<in> ?S" for m
    using p that by (intro exI [of _ "m - ?i * 64"]) (simp only: mem_Collect_eq, linarith)
  have "?b < 64" by simp
  from next_member_loop_correct [OF this, of "drop ?i (words r)" ?i] show ?thesis
  proof (elim disjE exE conjE)
    fix m
    assume m: "is_least ?T m"
      and res: "next_member_loop (drop ?i (words r)) (push_bit ?b (NOT 0)) ?i = int (?i * 64) + int m"
    have "?i * 64 + m \<le> y" if "y \<in> ?S" for y
    proof -
      from S [OF that] obtain k where k: "y = ?i * 64 + k" by blast
      then have "k \<in> ?T" using T that by simp
      with m k show ?thesis by (simp only: is_least_def) simp
    qed
    moreover have "?i * 64 + m \<in> ?S" using m T by (simp only: is_least_def)
    ultimately have "is_least ?S (?i * 64 + m)" by (simp only: is_least_def) blast
    moreover have "bms_next_member a prevbit = int (?i * 64 + m)" by (simp only: eq res of_nat_add)
    ultimately show ?thesis using Some by (intro disjI1 exI [of _ "?i * 64 + m"]) simp
next
    assume none: "?T = {}"
      and res: "next_member_loop (drop ?i (words r)) (push_bit ?b (NOT 0)) ?i = -2"
    have "?S = {}"
    proof (rule ccontr)
      assume "?S \<noteq> {}"
      then obtain y where y: "y \<in> ?S" by blast
      from S [OF this] obtain k where "y = ?i * 64 + k" by blast
      with T y have "k \<in> ?T" by simp
      with none show False by blast
    qed
    moreover have "bms_next_member a prevbit = -2" by (simp only: eq res)
    ultimately show ?thesis using Some by (intro disjI2 conjI) simp_all
  qed
qed

lemma prev_member_word:
  assumes "i < length ws" and "b < 64"
  shows "(\<exists>m. is_greatest {m \<in> word_members ws. m \<le> i * 64 + b} m \<and>
            prev_member_loop ws (Suc i) (drop_bit (63 - b) (NOT 0)) = int m)
      \<or> {m \<in> word_members ws. m \<le> i * 64 + b \<and> i * 64 \<le> m} = {} \<and>
        prev_member_loop ws (Suc i) (drop_bit (63 - b) (NOT 0)) = prev_member_loop ws i (NOT 0)"
proof -
  define v where "v = ws ! i AND drop_bit (63 - b) (NOT 0)"
  have bits: "bit v k \<longleftrightarrow> bit (ws ! i) k \<and> k \<le> b" for k
    unfolding v_def using assms(2) bit_word_length [of "ws ! i" k]
    by (auto simp: bit_and_iff bit_mask_iff)
  have unfold: "prev_member_loop ws (Suc i) (drop_bit (63 - b) (NOT 0)) =
      (if v \<noteq> 0 then int (i * 64) + int (pg_leftmost_one_pos64 v)
       else prev_member_loop ws i (NOT 0))"
    by (simp add: v_def Let_def)
  have inw: "i * 64 + k \<in> word_members ws \<longleftrightarrow> bit (ws ! i) k" if "k \<le> b" for k
  proof -
    have "(i * 64 + k) div 64 = i" "(i * 64 + k) mod 64 = k" using that \<open>b < 64\<close> by simp_all
    then show ?thesis using \<open>i < length ws\<close> by (simp add: mem_words nth_default_in)
  qed
  show ?thesis
  proof (cases "v = 0")
    case True
    have none: "i * 64 + k \<notin> word_members ws" if "k \<le> b" for k
      using bits [of k] inw [OF that] that True by simp
    have "m \<notin> word_members ws" if "i * 64 \<le> m" "m \<le> i * 64 + b" for m
      using none [of "m - i * 64"] that by simp
    then have "{m \<in> word_members ws. m \<le> i * 64 + b \<and> i * 64 \<le> m} = {}" by blast
    with True show ?thesis by (simp only: unfold) simp
next
    case False
    let ?p = "pg_leftmost_one_pos64 v"
    have p: "bit (ws ! i) ?p" "?p \<le> b" using bmw.lpos_bit [OF False] by (simp_all add: bits)
    have "m \<le> i * 64 + ?p" if "m \<in> word_members ws" "m \<le> i * 64 + b" for m
    proof (cases "i * 64 \<le> m")
      case True
      then obtain k where k: "m = i * 64 + k" by (metis le_add_diff_inverse)
      with that have "k \<le> b" "bit (ws ! i) k" using inw by auto
      then have "k \<le> ?p" using bmw.lpos_max [OF False, of k] by (simp add: bits)
      with k show ?thesis by simp
    qed simp
    moreover have "i * 64 + ?p \<in> word_members ws" using p inw by simp
    ultimately have "is_greatest {m \<in> word_members ws. m \<le> i * 64 + b} (i * 64 + ?p)"
      using p by (simp add: is_greatest_def)
    with False show ?thesis by (intro disjI1 exI [of _ "i * 64 + ?p"]) (simp only: unfold, simp)
  qed
qed

lemma prev_member_loop_correct:
  assumes "wordnum < length ws" and "b < 64"
  shows "(\<exists>m. is_greatest {m \<in> word_members ws. m \<le> wordnum * 64 + b} m \<and>
            prev_member_loop ws (Suc wordnum) (drop_bit (63 - b) (NOT 0)) = int m) \<or>
         {m \<in> word_members ws. m \<le> wordnum * 64 + b} = {} \<and>
            prev_member_loop ws (Suc wordnum) (drop_bit (63 - b) (NOT 0)) = -2"
  using assms
proof (induction wordnum arbitrary: b)
  case 0
  with prev_member_word [of 0 ws b] show ?case by simp
next
  case (Suc n)
  have full: "NOT 0 = drop_bit (63 - 63) (NOT 0 :: uint64)" by simp
  from prev_member_word [OF Suc.prems] show ?case
  proof (elim disjE conjE)
    assume none: "{m \<in> word_members ws. m \<le> Suc n * 64 + b \<and> Suc n * 64 \<le> m} = {}"
      and eq: "prev_member_loop ws (Suc (Suc n)) (drop_bit (63 - b) (NOT 0)) = prev_member_loop ws (Suc n) (NOT 0)"
    have same: "{m \<in> word_members ws. m \<le> Suc n * 64 + b} = {m \<in> word_members ws. m \<le> n * 64 + 63}"
      using none by (auto simp: not_le)
    have "n < length ws" "(63::nat) < 64" using Suc.prems by simp_all
    from Suc.IH [OF this] show ?thesis unfolding same eq by (subst (asm) (1 2) full [symmetric]) blast
  qed blast
qed

lemma bms_prev_member_correct:
  assumes "0 < p" and "p \<le> nwords r * 64" and "prevbit = int p \<or> prevbit = -1 \<and> p = nwords r * 64"
  shows "(\<exists>m. is_greatest {m \<in> word_members (words r). m < p} m \<and> bms_prev_member (Some r) prevbit = int m) \<or>
         {m \<in> word_members (words r). m < p} = {} \<and> bms_prev_member (Some r) prevbit = -2"
proof -
  let ?i = "(p - 1) div 64" and ?b = "(p - 1) mod 64"
  have "prevbit \<noteq> 0" and "(if prevbit = -1 then int (nwords r * 64) - 1 else prevbit - 1) = int (p - 1)"
    using assms by auto
  then have eq: "bms_prev_member (Some r) prevbit =
      prev_member_loop (words r) (Suc ?i) (drop_bit (63 - ?b) (NOT 0))"
    by (simp add: bms_prev_member_def Let_def del: of_nat_mult prev_member_loop.simps)
  have "m \<le> ?i * 64 + ?b \<longleftrightarrow> m < p" for m using assms(1) by (simp only: div_mult_mod_eq) linarith
  moreover have "?i < length (words r)" "?b < 64" using assms(1,2) by (simp_all add: nwords_def less_mult_imp_div_less)
  ultimately show ?thesis using prev_member_loop_correct [of ?i "words r" ?b] by (simp only: eq)
qed

lemma first_member_loop_none: "word_members ws = {} \<Longrightarrow> first_member_loop ws k = (-1, ws)"
  by (induction ws arbitrary: k) (simp_all add: members_Cons_empty_iff)

lemma first_member_loop_some:
  "word_members ws \<noteq> {} \<Longrightarrow>
   \<exists>m ws'. is_least (word_members ws) m \<and> first_member_loop ws k = (int (k * 64 + m), ws') \<and>
     word_members ws' = word_members ws - {m}"
proof (induction ws arbitrary: k)
  case Nil
  then show ?case by simp
next
  case (Cons w ws)
  show ?case
  proof (cases "w = 0")
    case True
    with Cons.prems have "word_members ws \<noteq> {}" by (simp add: members_Cons_empty_iff)
    from Cons.IH [OF this, of "Suc k"] obtain m ws' where m: "is_least (word_members ws) m"
      "first_member_loop ws (Suc k) = (int (Suc k * 64 + m), ws')" "word_members ws' = word_members ws - {m}"
      by blast
    have "is_least (word_members (w # ws)) (64 + m)"
    proof -
      have "64 + m \<le> x" if "64 \<le> x" "x - 64 \<in> word_members ws" for x
        using m(1) that unfolding is_least_def by (metis add_le_mono le_add_diff_inverse order_refl)
      with m(1) True show ?thesis by (simp add: is_least_def mem_words_Cons)
    qed
    moreover have "word_members (w # ws') = word_members (w # ws) - {64 + m}"
      by (auto simp: word_members_Cons True m(3))
    ultimately show ?thesis using m(2) True by (intro exI [of _ "64 + m"] exI [of _ "w # ws'"]) simp
  next
    case False
    let ?p = "pg_rightmost_one_pos64 w"
    have p: "bit w ?p" "?p < 64" using bmw.rpos_bit [OF False] bmw.rpos_less [OF False] by auto
    have "is_least (word_members (w # ws)) ?p"
      using p bmw.rpos_min [OF False] by (auto simp: is_least_def mem_words_Cons)
    moreover have "word_members ((w AND NOT (2 ^ ?p)) # ws) = word_members (w # ws) - {?p}"
    proof (rule set_eqI)
      fix x
      show "x \<in> word_members ((w AND NOT (2 ^ ?p)) # ws) \<longleftrightarrow> x \<in> word_members (w # ws) - {?p}"
      proof (cases "x < 64")
        case True
        then show ?thesis using p by (auto simp: mem_words_Cons bit_and_iff bit_not_iff bit_push_one)
      next
        case False
        then have "\<not> bit w x" "x \<noteq> ?p" using bit_word_length [of w x] p by auto
        then show ?thesis by (simp add: mem_words_Cons bit_and_iff)
      qed
    qed
    moreover have "first_member_loop (w # ws) k = (int (k * 64 + ?p), (w AND NOT (2 ^ ?p)) # ws)"
      using False p by (simp add: RIGHTMOST_ONE_eq rightmost_pos_power)
    ultimately show ?thesis by blast
  qed
qed

lemma fold_fill_nth:
  "nth_default d (fold (\<lambda>i v. v[i := x]) is ws) j =
     (if j \<in> set is \<and> j < length ws then x else nth_default d ws j)"
  by (induction "is" arbitrary: ws) (auto simp: nth_default_def nth_list_update)

lemma length_fold_fill [simp]: "length (fold (\<lambda>i v. v[i := x]) is ws) = length ws"
  by (induction "is" arbitrary: ws) auto

lemma le_radix_iff: "(m :: nat) \<le> n \<longleftrightarrow> m div 64 < n div 64 \<or> m div 64 = n div 64 \<and> m mod 64 \<le> n mod 64"
  using div_mult_mod_eq [of m 64] div_mult_mod_eq [of n 64] mod_less_divisor [of 64 m] mod_less_divisor [of 64 n]
  by (smt (verit) add_le_cancel_left add_less_le_mono div_le_mono less_or_eq_imp_le linorder_neqE_nat not_le)

lemma bit_lmask: "k < 64 \<Longrightarrow> bit (NOT (2 ^ l - 1) :: uint64) k \<longleftrightarrow> l \<le> k"
  by (simp add: bit_not_iff bit_mask_iff not_less flip: mask_eq_exp_minus_1)

lemma bit_umask: "u < 64 \<Longrightarrow> bit (drop_bit (64 - Suc u) (NOT 0) :: uint64) k \<longleftrightarrow> k \<le> u"
  by (auto simp: bit_mask_iff)

lemma bms_add_range_nat:
  assumes "l \<le> u"
  shows "\<exists>a'. bms_add_range a (int l) (int u) = Inr a' \<and> bms_members a' = bms_members a \<union> {l..u}"
proof -
  define ws where "ws = (case a of None \<Rightarrow> replicate (u div 64 + 1) 0
                  | Some r \<Rightarrow> (if u div 64 \<ge> nwords r then enlarge (words r) (u div 64 + 1) else words r))"
  have ws: "word_members ws = bms_members a" "u div 64 < length ws"
    by (auto simp: ws_def nwords_def length_enlarge simp del: replicate_Suc split: option.split)
  define lm where "lm = (NOT (2 ^ (l mod 64) - 1) :: uint64)"
  define um where "um = (drop_bit (64 - Suc (u mod 64)) (NOT 0) :: uint64)"
  have lm: "bit lm (n mod 64) \<longleftrightarrow> l mod 64 \<le> n mod 64" for n unfolding lm_def by (rule bit_lmask) simp
  have um: "bit um (n mod 64) \<longleftrightarrow> n mod 64 \<le> u mod 64" for n unfolding um_def by (rule bit_umask) simp
  have lw: "l div 64 \<le> u div 64" using assms by (rule div_le_mono)
  then have len: "l div 64 < length ws" using ws(2) by linarith
  have mem: "bit (word_at ws (n div 64)) (n mod 64) \<longleftrightarrow> n \<in> bms_members a" for n
    by (simp add: mem_words flip: ws(1))
  show ?thesis
  proof (cases "l div 64 = u div 64")
    case True
    let ?r = "ws[l div 64 := ws ! (l div 64) OR (lm AND um)]"
    have "bms_add_range a (int l) (int u) = Inr (mk_bms ?r)"
      using assms True by (simp add: bms_add_range_def ws_def lm_def um_def Let_def del: drop_bit_minus_one)
    moreover have "word_members ?r = bms_members a \<union> {l..u}"
      using True len
      by (intro set_eqI)
         (auto simp: mem_words nth_default_update nth_default_in bit_or_iff bit_and_iff lm um
            le_radix_iff [of l] le_radix_iff [of _ u] simp flip: mem)
    ultimately show ?thesis by simp
  next
    case False
    let ?w1 = "ws[l div 64 := ws ! (l div 64) OR lm]"
    define w2 where "w2 = fold (\<lambda>i v. v[i := NOT 0]) [l div 64 + 1..<u div 64] ?w1"
    let ?r = "w2[u div 64 := w2 ! (u div 64) OR um]"
    have "bms_add_range a (int l) (int u) = Inr (mk_bms ?r)"
      using assms False by (simp add: bms_add_range_def ws_def lm_def um_def w2_def Let_def del: drop_bit_minus_one)
    moreover have w2: "word_at w2 j = (if l div 64 < j \<and> j < u div 64 then NOT 0
        else if j = l div 64 then word_at ws j OR lm else word_at ws j)" for j
      using ws(2) len by (auto simp: w2_def fold_fill_nth nth_default_update nth_default_in)
    have "length w2 = length ws" by (simp add: w2_def)
    then have "word_at ?r j = (if j = u div 64 then word_at ws j OR um
        else if l div 64 < j \<and> j < u div 64 then NOT 0
        else if j = l div 64 then word_at ws j OR lm else word_at ws j)" for j
      using ws(2) False w2 [of j] w2 [of "u div 64"] by (auto simp: nth_default_update nth_default_in)
    then have "n \<in> word_members ?r \<longleftrightarrow> n \<in> bms_members a \<union> {l..u}" for n
      using False lw
      by (auto simp: mem_words bit_or_iff lm um le_radix_iff [of l] le_radix_iff [of _ u] simp flip: mem)
    then have "word_members ?r = bms_members a \<union> {l..u}" by blast
    ultimately show ?thesis by simp
  qed
qed

lemma all_zero_set: "all_zero ws \<longleftrightarrow> (\<forall>w \<in> set ws. w = 0)"
  by (induction ws) auto

lemma strip_while_zeros: "all_zero zs \<Longrightarrow> strip_while ((=) 0) (ws @ zs) = strip_while ((=) 0) ws"
  by (induction zs rule: rev_induct) (simp_all add: all_zero_set flip: append_assoc)

lemma lastword_loop_words:
  assumes "n \<le> length ws" and "word_members (drop n ws) = {}"
  shows "take (lastword_loop ws n) ws = strip_while ((=) 0) ws"
  using assms
proof (induction n)
  case 0
  then have "strip_while ((=) 0) ([] @ ws) = []" by (subst strip_while_zeros) (simp_all add: all_zero_iff)
  then show ?case by (simp only: lastword_loop.simps take_0 append_Nil)
next
  case (Suc n)
  then have drop: "drop n ws = ws ! n # drop (Suc n) ws" by (simp add: Cons_nth_drop_Suc)
  show ?case
  proof (cases "ws ! n = 0")
    case True
    with Suc drop show ?thesis by (simp add: members_Cons_empty_iff)
  next
    case False
    have "strip_while ((=) 0) (take (Suc n) ws @ drop (Suc n) ws) = take (Suc n) ws"
      using Suc.prems False by (simp only: strip_while_zeros all_zero_iff) (simp add: take_Suc_conv_app_nth)
    with False show ?thesis by (simp only: lastword_loop.simps append_take_drop_id simp_thms if_True)
  qed
qed

lemma overlap_list_loop_iff:
  "list_all (\<lambda>x. 0 \<le> x) xs \<Longrightarrow>
   overlap_list_loop r xs = Inr (\<exists>x \<in> set xs. nat x \<in> word_members (words r))"
proof (induction xs)
  case (Cons x xs)
  then obtain n where "x = int n" by (auto intro: nonneg_int_cases)
  with Cons show ?case
    by (auto simp: mem_words nwords_def nth_default_def test_bit_iff)
qed simp

lemma word_members_eq_strip: "word_members xs = word_members ys \<Longrightarrow> strip_while ((=) 0) xs = strip_while ((=) 0) ys"
  by (simp only: word_members_eq_iff flip: nth_default_eq_iff fun_eq_iff)


section \<open>The interface of a member set\<close>

text \<open>
  The idiom that the comment of \<^verbatim>\<open>bms_next_member\<close> prescribes,
  \<^verbatim>\<open>x = -1; while ((x = bms_next_member(a, x)) >= 0) process member x;\<close>
  as the list of the members processed.  The fuel bounds the number of calls.
\<close>

fun member_loop :: "(int \<Rightarrow> int) \<Rightarrow> nat \<Rightarrow> int \<Rightarrow> int list" where
  "member_loop nxt 0 x = []"
| "member_loop nxt (Suc fuel) x = (let y = nxt x in if y \<ge> 0 then y # member_loop nxt fuel y else [])"

text \<open>
  What the clients of bitmapsets (the visibility map, the prober's set of failed
  contents) rely on: membership, insertion, counting and ascending iteration.
\<close>

locale bms_interface =
  fixes mems :: "'s \<Rightarrow> nat set"
    and is_mem :: "int \<Rightarrow> 's \<Rightarrow> bool result"
    and add :: "'s \<Rightarrow> int \<Rightarrow> 's result"
    and num :: "'s \<Rightarrow> nat"
    and nxt :: "'s \<Rightarrow> int \<Rightarrow> int"
  assumes finite_mems: "finite (mems s)"
    and is_mem_nat: "is_mem (int n) s = Inr (n \<in> mems s)"
    and add_nat: "\<exists>s'. add s (int n) = Inr s' \<and> mems s' = insert n (mems s)"
    and num_card: "num s = card (mems s)"
    and nxt_least: "prevbit + 1 = int p \<Longrightarrow>
      (\<exists>m. is_least {m \<in> mems s. p \<le> m} m \<and> nxt s prevbit = int m) \<or>
      {m \<in> mems s. p \<le> m} = {} \<and> nxt s prevbit = -2"
begin

lemma add_is_mem: "add s (int n) = Inr s' \<Longrightarrow> is_mem (int m) s' = Inr (m = n \<or> m \<in> mems s)"
  using add_nat [of s n] by (auto simp: is_mem_nat)

lemma add_num: "add s (int n) = Inr s' \<Longrightarrow> num s' = (if n \<in> mems s then num s else Suc (num s))"
  using add_nat [of s n] finite_mems [of s] by (auto simp: num_card insert_absorb)

lemma loop_sorted:
  "card {m \<in> mems s. p \<le> m} < fuel \<Longrightarrow>
   member_loop (nxt s) fuel (int p - 1) = map int (sorted_list_of_set {m \<in> mems s. p \<le> m})"
proof (induction fuel arbitrary: p)
  case (Suc fuel)
  let ?A = "{m \<in> mems s. p \<le> m}"
  have fin: "finite ?A" using finite_mems [of s] by simp
  have "int p - 1 + 1 = int p" by simp
  from nxt_least [OF this, of s] show ?case
  proof (elim disjE exE conjE)
    fix m
    assume m: "is_least ?A m" "nxt s (int p - 1) = int m"
    with fin have Min: "?A \<noteq> {}" "Min ?A = m" by (auto simp: is_least_Min)
    have rest: "?A - {m} = {k \<in> mems s. Suc m \<le> k}" using m(1) by (auto simp: is_least_def)
    have "m \<in> ?A" using m(1) by (simp only: is_least_def)
    then have "card {k \<in> mems s. Suc m \<le> k} < fuel"
      using Suc.prems card_Diff1_less [OF fin] by (simp only: rest [symmetric]) fastforce
    from Suc.IH [OF this] Min fin m(2) show ?thesis
      by (simp add: sorted_list_of_set_nonempty rest)
  qed (simp only: member_loop.simps Let_def, simp)
qed simp

lemma loop_all: "member_loop (nxt s) (Suc (num s)) (-1) = map int (sorted_list_of_set (mems s))"
  using loop_sorted [of s 0 "Suc (num s)"] by (simp add: num_card)

end

lemma bms_num_members_card: "bms_num_members a = card (bms_members a)"
  by (cases a) (simp_all add: bms_num_members_def popcount_words_card)

interpretation bmset: bms_interface bms_members bms_is_member bms_add_member bms_num_members bms_next_member
  by unfold_locales
    (simp_all only: finite_bms_members bms_is_member_nat bms_add_member_nat bms_num_members_card
      bms_next_member_correct)

lemma cmp_nat_zero_iff: "cmp_nat m n = 0 \<longleftrightarrow> m = n"
  by (auto simp: cmp_nat_def)

lemma bms_equal_iff: "bms_equal a b \<longleftrightarrow> bms_members a = bms_members b"
  by (cases a; cases b)
     (auto simp: bms_equal_def bms_is_empty_iff bms_equal_loop_iff nwords_def)

lemma bms_negative:
  assumes "x < 0"
  shows "bms_is_member x a = Inl negative_member" and "bms_add_member a x = Inl negative_member"
    and "bms_del_member a x = Inl negative_member" and "bms_make_singleton x = Inl negative_member"
  using assms by (simp_all add: bms_is_member_def bms_add_member_def bms_del_member_def bms_make_singleton_def)

lemma bms_make_singleton_nat: "\<exists>a'. bms_make_singleton (int n) = Inr a' \<and> bms_members a' = {n}"
  using bms_add_member_nat [of None n] by (simp add: bms_add_member_def)

lemma bms_singleton_cases:
  obtains (empty) "bms_members a = {}" "a = None \<or> singleton_loop (words (the a)) 0 (-1) = Inr (-1)"
  | (one) n where "bms_members a = {n}" "a \<noteq> None" "singleton_loop (words (the a)) 0 (-1) = Inr (int n)"
  | (many) "bms_members a \<noteq> {}" "\<nexists>n. bms_members a = {n}" "a \<noteq> None" "singleton_loop (words (the a)) 0 (-1) = Inl ()"
proof (cases a)
  case (Some r)
  then show ?thesis
    using that singleton_loop_empty [of "words r" 0] singleton_loop_one [of "words r" _ 0]
      singleton_loop_many [of "words r" 0] by fastforce
qed (use that(1) in simp)

lemma lastword_loop_le: "lastword_loop ws n \<le> n"
  by (induction n) simp_all

section \<open>Properties\<close>

text \<open>
  C8: every binary operation, allocating or recycling, returns a set whose members are
  exactly the union, intersection or difference of its arguments' members.
\<close>

theorem bms_set_algebra:
  "bms_members (bms_union a b) = bms_members a \<union> bms_members b
   \<and> bms_members (bms_intersect a b) = bms_members a \<inter> bms_members b
   \<and> bms_members (bms_difference a b) = bms_members a - bms_members b
   \<and> bms_members (bms_add_members a b) = bms_members a \<union> bms_members b
   \<and> bms_members (bms_int_members a b) = bms_members a \<inter> bms_members b
   \<and> bms_members (bms_del_members a b) = bms_members a - bms_members b
   \<and> bms_members (bms_join a b) = bms_members a \<union> bms_members b"
  by (intro conjI; cases a; cases b; auto simp: bms_union_def bms_intersect_def bms_difference_def bms_add_members_def
        bms_int_members_def bms_del_members_def bms_join_def members_zip members_int_members nwords_def Let_def)

text \<open>
  C28: a member operation fails exactly on a negative number, with the error the code
  raises, and otherwise tests, inserts, removes or makes exactly that member.
\<close>

theorem bms_member_ops:
  "bms_is_member x a = (if x < 0 then Inl negative_member else Inr (nat x \<in> bms_members a))
   \<and> (case bms_add_member a x of
        Inl e \<Rightarrow> x < 0 \<and> e = negative_member
      | Inr a' \<Rightarrow> 0 \<le> x \<and> bms_members a' = insert (nat x) (bms_members a))
   \<and> (case bms_del_member a x of
        Inl e \<Rightarrow> x < 0 \<and> e = negative_member
      | Inr a' \<Rightarrow> 0 \<le> x \<and> bms_members a' = bms_members a - {nat x})
   \<and> (case bms_make_singleton x of
        Inl e \<Rightarrow> x < 0 \<and> e = negative_member
      | Inr a' \<Rightarrow> 0 \<le> x \<and> bms_members a' = {nat x})"
proof (cases "x < 0")
  case False
  then obtain n where "x = int n" by (metis nonneg_int_cases not_le)
  with bms_add_member_nat [of a n] bms_del_member_nat [of a n] bms_make_singleton_nat [of n]
  show ?thesis by (auto simp: bms_is_member_nat)
qed (simp add: bms_negative)

text \<open>
  \<^verbatim>\<open>bms_add_range\<close> adds exactly the numbers from \<^verbatim>\<open>lower\<close> to \<^verbatim>\<open>upper\<close>; an empty range
  leaves the set alone and a negative lower bound is the only error.
\<close>

theorem bms_add_range_members:
  "case bms_add_range a lower upper of
     Inl e \<Rightarrow> lower \<le> upper \<and> lower < 0 \<and> e = negative_member
   | Inr a' \<Rightarrow> (if upper < lower then a' = a
               else 0 \<le> lower \<and> bms_members a' = bms_members a \<union> {nat lower..nat upper})"
proof (cases "upper < lower \<or> lower < 0")
  case False
  then obtain l u where "lower = int l" "upper = int u" "l \<le> u"
    by (metis (full_types) nonneg_int_cases not_le_imp_less of_nat_le_iff order_trans)
  with bms_add_range_nat [of l u a] show ?thesis by auto
qed (auto simp: bms_add_range_def)

text \<open>
  C29: the predicates decide the set relation they are named for, whatever the lengths of
  the word arrays (trailing zero words and \<^verbatim>\<open>NULL\<close> included).
\<close>

theorem bms_decide:
  "(bms_equal a b \<longleftrightarrow> bms_members a = bms_members b)
   \<and> (bms_is_subset a b \<longleftrightarrow> bms_members a \<subseteq> bms_members b)
   \<and> (bms_overlap a b \<longleftrightarrow> bms_members a \<inter> bms_members b \<noteq> {})
   \<and> (bms_nonempty_difference a b \<longleftrightarrow> bms_members a - bms_members b \<noteq> {})
   \<and> (bms_is_empty a \<longleftrightarrow> bms_members a = {})
   \<and> bms_subset_compare a b =
     (if bms_members a = bms_members b then BMS_EQUAL
      else if bms_members a \<subseteq> bms_members b then BMS_SUBSET1
      else if bms_members b \<subseteq> bms_members a then BMS_SUBSET2 else BMS_DIFFERENT)"
  by (intro conjI; cases a; cases b;
      auto simp: bms_equal_iff bms_is_subset_def bms_overlap_def bms_nonempty_difference_def
        bms_is_empty_iff bms_is_subset_loop_iff overlap_loop_iff nonempty_difference_loop_iff
        bms_subset_compare_cmp cmp_of_def)

text \<open>
  \<^verbatim>\<open>bms_compare\<close> is a total order on sets, the order of the numbers whose binary digits
  are the members; it answers 0 exactly on sets with the same members.
\<close>

theorem bms_compare_order:
  "bms_compare a b =
     (if set_code (bms_members a) < set_code (bms_members b) then -1
      else if set_code (bms_members a) = set_code (bms_members b) then 0 else 1)
   \<and> (bms_compare a b = 0 \<longleftrightarrow> bms_members a = bms_members b)"
proof -
  have "set_code (bms_members a) = set_code (bms_members b) \<longleftrightarrow> bms_members a = bms_members b"
    by (cases a; cases b) (simp_all add: set_code_inj set_code_zero_iff, metis set_code_zero_iff)
  then show ?thesis by (auto simp: bms_compare_sgn cmp_nat_def)
qed

text \<open>
  \<^verbatim>\<open>bms_num_members\<close> is the cardinality, and \<^verbatim>\<open>bms_member_index\<close> is the number of smaller
  members, or -1 for a number that is not a member.
\<close>

theorem bms_counting:
  "bms_num_members a = card (bms_members a) \<and>
   bms_member_index a (int n) =
     Inr (if n \<in> bms_members a then int (card {m \<in> bms_members a. m < n}) else -1)"
proof (cases a)
  case (Some r)
  have "n div 64 < length (words r)" if "n \<in> word_members (words r)"
    using that by (auto simp: mem_words nth_default_def split: if_splits)
  with Some member_rank [of n "words r"] show ?thesis
    by (simp only: bms_num_members_card bms_member_index_def bms_is_member_nat bindE_simps option.case
        bms_members_simps WORDNUM_nat BITNUM_nat) simp
qed (simp add: bms_num_members_card bms_member_index_def bms_is_member_nat)


text \<open>
  \<^verbatim>\<open>bms_prev_member\<close> from -1 or from a positive position not beyond the last word returns
  the greatest member below that position, or -2 when there is none.
\<close>

theorem bms_prev_member_greatest:
  assumes "0 < p" and "p \<le> nwords r * 64" and "prevbit = int p \<or> prevbit = -1 \<and> p = nwords r * 64"
  shows "bms_prev_member (Some r) prevbit =
    (if {m \<in> bms_members (Some r). m < p} = {} then -2
     else int (Max {m \<in> bms_members (Some r). m < p}))"
  using bms_prev_member_correct [OF assms] by (auto simp: is_greatest_Max)

text \<open>
  The scans for one member: \<^verbatim>\<open>bms_first_member\<close> removes and returns the least member,
  \<^verbatim>\<open>bms_membership\<close> tells an empty set, a singleton and a larger set apart, and
  \<^verbatim>\<open>bms_singleton_member\<close> returns the only member or raises the error that fits the set.
\<close>

theorem bms_scans:
  "(case bms_first_member a of
      (result, a') \<Rightarrow>
        (if bms_members a = {} then result = -1 \<and> bms_members a' = {}
         else result = int (Min (bms_members a)) \<and>
              bms_members a' = bms_members a - {Min (bms_members a)}))
   \<and> bms_membership a =
       (case card (bms_members a) of 0 \<Rightarrow> BMS_EMPTY_SET | Suc 0 \<Rightarrow> BMS_SINGLETON | _ \<Rightarrow> BMS_MULTIPLE)
   \<and> bms_singleton_member a =
       (case card (bms_members a) of
          0 \<Rightarrow> Inl (ERROR ''bitmapset is empty'')
        | Suc 0 \<Rightarrow> Inr (int (the_elem (bms_members a)))
        | _ \<Rightarrow> Inl (ERROR ''bitmapset has multiple members''))
   \<and> bms_get_singleton_member a =
       (if card (bms_members a) = 1 then Some (int (the_elem (bms_members a))) else None)"
  (is "?first \<and> ?membership \<and> ?singleton \<and> ?get")
proof (intro conjI)
  show ?first
  proof (cases a)
    case (Some r)
    show ?thesis
    proof (cases "word_members (words r) = {}")
      case True
      with Some show ?thesis by (simp add: bms_first_member_def first_member_loop_none)
    next
      case False
      from first_member_loop_some [OF this, of 0] Some False show ?thesis
        by (elim exE conjE) (simp add: bms_first_member_def is_least_Min)
    qed
  qed (simp add: bms_first_member_def)
  have one: "card (bms_members a) = Suc 0 \<longleftrightarrow> (\<exists>n. bms_members a = {n})" by (auto simp: card_1_singleton_iff)
  have zero: "card (bms_members a) = 0 \<longleftrightarrow> bms_members a = {}" by simp
  show ?membership
    using one zero by (cases a) (auto simp: bms_membership_def membership_loop_correct split: nat.split)
  show ?singleton
    by (rule bms_singleton_cases [of a])
       (use one in \<open>auto simp: bms_singleton_member_def split: option.split nat.split\<close>)
  show ?get
    by (rule bms_singleton_cases [of a])
       (use one in \<open>auto simp: bms_get_singleton_member_def split: option.split nat.split\<close>)
qed

text \<open>
  Sets with equal members have equal hashes, however many trailing zero words their
  arrays carry: \<^verbatim>\<open>bms_hash_value\<close> is compatible with \<^verbatim>\<open>bms_equal\<close> for every byte hash.
\<close>

theorem bms_hash_respects_equal:
  assumes "bms_equal a b"
  shows "bms_hash_value h a = bms_hash_value h b"
proof -
  let ?strip = "\<lambda>a. strip_while ((=) 0) (case a of None \<Rightarrow> [] | Some r \<Rightarrow> words r)"
  have "bms_hash_value h a = (if ?strip a = [] then 0 else h (?strip a))" for a
  proof (cases a)
    case (Some r)
    let ?n = "lastword_loop (words r) (nwords r)"
    have "take ?n (words r) = strip_while ((=) 0) (words r)"
      by (rule lastword_loop_words) (simp_all add: nwords_def)
    moreover have "take ?n (words r) = [] \<longleftrightarrow> ?n = 0"
      using lastword_loop_le [of "words r" "nwords r"] by (auto simp: nwords_def)
    ultimately show ?thesis using Some by (simp only: bms_hash_value_def Let_def option.case)
  qed (simp add: bms_hash_value_def)
  moreover have "?strip a = ?strip b"
    using assms by (intro word_members_eq_strip) (cases a; cases b; simp add: bms_equal_iff)
  ultimately show ?thesis by (simp only:)
qed

text \<open>
  On non-negative numbers \<^verbatim>\<open>bms_overlap_list\<close> tells whether one of them is a member; no
  error is raised then.
\<close>

theorem bms_overlap_list_correct:
  assumes "list_all (\<lambda>x. 0 \<le> x) xs"
  shows "bms_overlap_list a xs = Inr (\<exists>x \<in> set xs. nat x \<in> bms_members a)"
  using overlap_list_loop_iff [OF assms] by (cases a) (auto simp: bms_overlap_list_def)

end
