(* ===== verification/AOTupleId.thy ===== *)
theory AOTupleId
  imports Prelude
begin

text \<open>
  Row identifiers of append-only tables, \<^verbatim>\<open>src/include/access/appendonlytid.h\<close>: a 7-bit
  segment file number and a 40-bit row number packed into the 48 bits of a
  heap tuple identifier, and the logical heap blocks that the packing induces.
  Everything is computed at the width of the C types.
\<close>

section \<open>Model\<close>

record AOTupleId =
  bytes_0_1 :: uint16
  bytes_2_3 :: uint16
  bytes_4_5 :: uint16

type_synonym BlockNumber = uint32

definition AOTupleIdGet_segmentFileNum :: "AOTupleId \<Rightarrow> uint16" where
  "AOTupleIdGet_segmentFileNum h = drop_bit 9 (bytes_0_1 h AND 0xFE00)"

definition AOTupleIdGet_rowNum :: "AOTupleId \<Rightarrow> uint64" where
  "AOTupleIdGet_rowNum h =
     push_bit 31 (ucast (bytes_0_1 h AND 0x01FF)) OR push_bit 15 (ucast (bytes_2_3 h)) OR
     (ucast (bytes_4_5 h) - 1)"

definition AOTupleIdInit :: "uint16 \<Rightarrow> uint64 \<Rightarrow> AOTupleId" where
  "AOTupleIdInit segfilenum rownum =
     \<lparr>bytes_0_1 = push_bit 9 (0x007F AND segfilenum) OR
                  ucast (drop_bit 31 (0x000000FFFFFFFFFF AND rownum)),
      bytes_2_3 = ucast (drop_bit 15 (0x000000007FFFFFFF AND rownum)),
      bytes_4_5 = ucast ((0x7FFF AND rownum) + 1)\<rparr>"

text \<open>\<^verbatim>\<open>ItemPointerSetInvalid\<close> sets an all-ones block number and a zero offset.\<close>

definition AOTupleIdSetInvalid :: AOTupleId where
  "AOTupleIdSetInvalid = \<lparr>bytes_0_1 = 0xFFFF, bytes_2_3 = 0xFFFF, bytes_4_5 = 0\<rparr>"

definition AOTupleId_MaxRowNum :: uint64 where
  "AOTupleId_MaxRowNum = 1099511627775"

definition AOTupleId_MaxSegmentFileNum :: uint16 where
  "AOTupleId_MaxSegmentFileNum = 127"

definition AO_MAX_TUPLES_PER_HEAP_BLOCK :: uint32 where
  "AO_MAX_TUPLES_PER_HEAP_BLOCK = push_bit 15 1"

definition AO_MAX_HEAP_BLOCKS_PER_SEGMENT :: uint32 where
  "AO_MAX_HEAP_BLOCKS_PER_SEGMENT = push_bit 25 1"

definition AOSegmentGet_segno :: "BlockNumber \<Rightarrow> uint32" where
  "AOSegmentGet_segno heapBlk = heapBlk div AO_MAX_HEAP_BLOCKS_PER_SEGMENT"

definition AOSegmentGet_startHeapBlock :: "uint32 \<Rightarrow> BlockNumber" where
  "AOSegmentGet_startHeapBlock segno = push_bit 25 segno"

definition AOHeapBlockGet_startHeapBlock :: "BlockNumber \<Rightarrow> BlockNumber" where
  "AOHeapBlockGet_startHeapBlock heapBlk = heapBlk AND 0xFE000000"

text \<open>
  A block number is 32 bits wide and the tuple count per block an \<^verbatim>\<open>int\<close> constant, so the
  product is taken modulo \<open>2 ^ 32\<close>, whatever the type of the variable it is assigned to.
\<close>

definition AOHeapBlockGet_startRowNum :: "BlockNumber \<Rightarrow> uint32" where
  "AOHeapBlockGet_startRowNum heapBlk =
     max ((heapBlk - AOHeapBlockGet_startHeapBlock heapBlk) * AO_MAX_TUPLES_PER_HEAP_BLOCK) 1"

text \<open>The block number of an identifier read as a heap tuple identifier.\<close>

definition tid_block :: "AOTupleId \<Rightarrow> BlockNumber" where
  "tid_block h = push_bit 16 (ucast (bytes_0_1 h)) OR ucast (bytes_2_3 h)"

section \<open>Lemmas\<close>

lemma mask_consts:
  "(0x007F :: uint16) = mask 7" "(0x01FF :: uint16) = mask 9"
  "(0x000000FFFFFFFFFF :: uint64) = mask 40" "(0x000000007FFFFFFF :: uint64) = mask 31"
  "(0x7FFF :: uint64) = mask 15" "(0xFE00 :: uint16) = push_bit 9 (mask 7)"
  "(0xFE000000 :: uint32) = push_bit 25 (mask 7)"
  by (simp_all add: mask_eq_exp_minus_1)

lemmas bit_parts = bit_or_iff bit_and_iff bit_push_bit_iff bit_drop_bit_eq bit_ucast_iff bit_mask_iff

lemma bytes_4_5_Init:
  "ucast (bytes_4_5 (AOTupleIdInit seg row)) = (0x7FFF AND row) + (1 :: uint64)"
  "unat (bytes_4_5 (AOTupleIdInit seg row)) = unat (mask 15 AND row) + 1"
proof -
  have less: "unat (mask 15 AND row) < 2 ^ 15"
  proof -
    have "mask 15 AND row = take_bit 15 row" by (simp add: take_bit_eq_mask and.commute)
    then show ?thesis using take_bit_nat_less_exp [of 15 "unat row"] by (simp add: unsigned_take_bit_eq)
  qed
  then have suc: "unat ((mask 15 AND row) + 1) = unat (mask 15 AND row) + 1"
    by (subst unat_word_ariths) simp
  show "unat (bytes_4_5 (AOTupleIdInit seg row)) = unat (mask 15 AND row) + 1"
    using less by (simp only: AOTupleIdInit_def mask_consts AOTupleId.simps unsigned_ucast_eq suc)
       (simp add: take_bit_nat_eq_self)
  then show "ucast (bytes_4_5 (AOTupleIdInit seg row)) = (0x7FFF AND row) + (1 :: uint64)"
    using suc less by (simp only: mask_consts word_unat_eq_iff unsigned_ucast_eq) (simp add: take_bit_nat_eq_self)
qed

lemma rowNum_Init: "AOTupleIdGet_rowNum (AOTupleIdInit seg row) = take_bit 40 row"
proof -
  have "AOTupleIdGet_rowNum (AOTupleIdInit seg row) =
      push_bit 31 (ucast (bytes_0_1 (AOTupleIdInit seg row) AND mask 9)) OR
      push_bit 15 (ucast (bytes_2_3 (AOTupleIdInit seg row))) OR (mask 15 AND row)"
    by (simp only: AOTupleIdGet_rowNum_def bytes_4_5_Init(1) mask_consts add_diff_cancel_right')
  also have "\<dots> = take_bit 40 row"
  proof (rule bit_word_eqI, goal_cases)
    case (1 n)
    then show ?case
      by (cases "31 \<le> n"; cases "15 \<le> n")
         (auto simp: AOTupleIdInit_def mask_consts bit_parts bit_take_bit_iff)
  qed
  finally show ?thesis .
qed

lemma segmentFileNum_Init: "AOTupleIdGet_segmentFileNum (AOTupleIdInit seg row) = take_bit 7 seg"
  unfolding AOTupleIdGet_segmentFileNum_def AOTupleIdInit_def mask_consts AOTupleId.simps
  by (rule bit_word_eqI) (auto simp: bit_parts bit_take_bit_iff)

lemma take_bit_small: "unat (w :: 'a::len word) < 2 ^ n \<Longrightarrow> take_bit n w = w"
  by (simp add: word_unat_eq_iff unsigned_take_bit_eq take_bit_nat_eq_self)

lemma segno_drop: "AOSegmentGet_segno b = drop_bit 25 b"
  by (simp add: AOSegmentGet_segno_def AO_MAX_HEAP_BLOCKS_PER_SEGMENT_def drop_bit_eq_div)

lemma block_in_segment: "b - AOHeapBlockGet_startHeapBlock b = take_bit 25 b"
proof -
  have "AOHeapBlockGet_startHeapBlock b = push_bit 25 (drop_bit 25 b)"
    unfolding AOHeapBlockGet_startHeapBlock_def mask_consts
    by (rule bit_word_eqI) (auto simp: bit_parts)
  then show ?thesis using bits_ident [of 25 b] by (metis add_diff_cancel_left')
qed

lemma tid_block_Init:
  "tid_block (AOTupleIdInit seg row) =
     push_bit 25 (ucast (take_bit 7 seg)) OR ucast (drop_bit 15 (take_bit 40 row))"
proof (rule bit_word_eqI, goal_cases)
  case (1 n)
  then show ?case
    by (cases "25 \<le> n"; cases "16 \<le> n")
       (auto simp: tid_block_def AOTupleIdInit_def mask_consts bit_parts bit_take_bit_iff)
qed

lemma tid_block_row:
  assumes "row \<le> AOTupleId_MaxRowNum"
  shows "unat (take_bit 25 (tid_block (AOTupleIdInit seg row))) = unat row div 32768"
proof -
  have row: "unat row < 2 ^ 40" using assms by (simp add: AOTupleId_MaxRowNum_def word_le_nat_alt)
  have "take_bit 25 (tid_block (AOTupleIdInit seg row)) = (ucast (drop_bit 15 (take_bit 40 row)) :: uint32)"
    unfolding tid_block_Init by (rule bit_word_eqI) (auto simp: bit_parts bit_take_bit_iff)
  moreover have "unat (drop_bit 15 row) = unat row div 2 ^ 15"
    by (simp add: drop_bit_eq_div unat_div_distrib)
  ultimately show ?thesis using row
    by (simp add: take_bit_small [OF row] unsigned_ucast_eq take_bit_nat_eq_self)
qed

section \<open>Properties\<close>

text \<open>
  C31: packing is lossless for segment file numbers up to 127 and row numbers up to
  \<^verbatim>\<open>AOTupleId_MaxRowNum\<close>, and the offset field stays within 1 and 32768, so the identifier
  never looks like an invalid heap tuple identifier.
\<close>

theorem AOTupleId_roundtrip:
  assumes "seg \<le> AOTupleId_MaxSegmentFileNum" and "row \<le> AOTupleId_MaxRowNum"
  shows "AOTupleIdGet_segmentFileNum (AOTupleIdInit seg row) = seg \<and>
    AOTupleIdGet_rowNum (AOTupleIdInit seg row) = row \<and>
    0 < bytes_4_5 (AOTupleIdInit seg row) \<and> bytes_4_5 (AOTupleIdInit seg row) \<le> 0x8000"
proof -
  have "unat seg < 2 ^ 7" "unat row < 2 ^ 40"
    using assms by (simp_all add: AOTupleId_MaxSegmentFileNum_def AOTupleId_MaxRowNum_def word_le_nat_alt)
  moreover have "0 < unat (bytes_4_5 (AOTupleIdInit seg row))" "unat (bytes_4_5 (AOTupleIdInit seg row)) \<le> 2 ^ 15"
  proof -
    have "mask 15 AND row = take_bit 15 row" by (simp add: take_bit_eq_mask and.commute)
    then show "0 < unat (bytes_4_5 (AOTupleIdInit seg row))" "unat (bytes_4_5 (AOTupleIdInit seg row)) \<le> 2 ^ 15"
      using take_bit_nat_less_exp [of 15 "unat row"]
      by (simp_all only: bytes_4_5_Init(2) unsigned_take_bit_eq)
  qed
  ultimately show ?thesis
    by (simp add: segmentFileNum_Init rowNum_Init take_bit_small word_less_nat_alt word_le_nat_alt)
qed

theorem AOTupleId_roundtrip_witness:
  "AOTupleIdGet_segmentFileNum (AOTupleIdInit 127 1099511627775) = 127 \<and>
   AOTupleIdGet_rowNum (AOTupleIdInit 127 1099511627775) = 1099511627775 \<and>
   0 < bytes_4_5 (AOTupleIdInit 127 1099511627775) \<and> bytes_4_5 (AOTupleIdInit 127 1099511627775) \<le> 0x8000"
  by (rule AOTupleId_roundtrip) (simp_all add: AOTupleId_MaxSegmentFileNum_def AOTupleId_MaxRowNum_def)

text \<open>
  The logical heap block of a row number determines its segment file, and the start row
  number computed for the block is the first row of that block's range of 32768 rows
  (row 1 in the first block), provided the range starts below row \<open>2 ^ 32\<close>.
\<close>

theorem AOHeapBlock_start:
  assumes "seg \<le> AOTupleId_MaxSegmentFileNum" and "row \<le> AOTupleId_MaxRowNum" and "unat row < 2 ^ 32"
  shows "AOSegmentGet_segno (tid_block (AOTupleIdInit seg row)) = ucast seg \<and>
    unat (AOHeapBlockGet_startRowNum (tid_block (AOTupleIdInit seg row))) = max 1 (unat row div 32768 * 32768)"
proof -
  let ?b = "tid_block (AOTupleIdInit seg row)"
  have "unat seg < 2 ^ 7" "unat row < 2 ^ 40"
    using assms by (simp_all add: AOTupleId_MaxSegmentFileNum_def AOTupleId_MaxRowNum_def word_le_nat_alt)
  moreover have "AOSegmentGet_segno ?b = ucast (take_bit 7 seg)"
    unfolding segno_drop tid_block_Init by (rule bit_word_eqI) (auto simp: bit_parts bit_take_bit_iff)
  ultimately have "AOSegmentGet_segno ?b = ucast seg" by (simp add: take_bit_small)
  moreover have "unat (take_bit 25 ?b * 32768) = unat row div 32768 * 32768"
    using assms(3) by (subst unat_word_ariths) (simp add: tid_block_row [OF assms(2)])
  then have "unat (AOHeapBlockGet_startRowNum ?b) = max 1 (unat row div 32768 * 32768)"
    by (auto simp: AOHeapBlockGet_startRowNum_def block_in_segment AO_MAX_TUPLES_PER_HEAP_BLOCK_def
        max_def word_le_nat_alt)
  ultimately show ?thesis by blast
qed


end
