(* ===== verification/Bitstream.thy ===== *)
theory Bitstream
  imports Prelude
begin

text \<open>
  The in-memory bit stream of \<^verbatim>\<open>src/backend/utils/misc/bitstream.c\<close>: a cursor of a byte
  and a bit offset over a byte buffer, written and read most significant bit
  first.  An operation returns its C result together with the stream after
  it; a value that C returns through a pointer is \<open>None\<close> where the pointer is
  left alone.  The abstract view is the list of bits of the buffer: a put
  appends to the bits written so far, a get takes bits off the rest, and the
  locale \<open>field_stream\<close> is the contract that the bitmap compression uses.
\<close>

section \<open>Model\<close>

record Bitstream =
  bitOffset :: nat
  byteOffset :: nat
  data :: "uint8 list"
  dataSize :: nat
  error :: bool

definition Bitstream_CheckForError :: "Bitstream \<Rightarrow> bool \<times> Bitstream" where
  "Bitstream_CheckForError bs =
     (if error bs then (False, bs)
      else if byteOffset bs \<ge> dataSize bs then (False, bs\<lparr>error := True, byteOffset := 0\<rparr>)
      else (True, bs))"

definition Bitstream_Init :: "uint8 list \<Rightarrow> nat \<Rightarrow> Bitstream" where
  "Bitstream_Init d n = \<lparr>bitOffset = 0, byteOffset = 0, data = d, dataSize = n, error = False\<rparr>"

text \<open>\<^verbatim>\<open>bitOffset++\<close> with the carry into \<^verbatim>\<open>byteOffset\<close>, the end of both bit operations.\<close>

definition next_bit :: "Bitstream \<Rightarrow> Bitstream" where
  "next_bit bs =
     (if bitOffset bs + 1 = 8 then bs\<lparr>bitOffset := 0, byteOffset := byteOffset bs + 1\<rparr>
      else bs\<lparr>bitOffset := bitOffset bs + 1\<rparr>)"

definition Bitstream_GetBit :: "Bitstream \<Rightarrow> uint32 option \<times> Bitstream" where
  "Bitstream_GetBit bs =
     (let (ok, bs1) = Bitstream_CheckForError bs in
      if \<not> ok then (None, bs1)
      else
        let c = data bs1 ! byteOffset bs1;
            mask = push_bit (7 - bitOffset bs1) (1 :: uint32)
        in (Some (of_bool (ucast c AND mask \<noteq> 0)), next_bit bs1))"

definition Bitstream_Skip :: "Bitstream \<Rightarrow> nat \<Rightarrow> bool \<times> Bitstream" where
  "Bitstream_Skip bs skipBitCount =
     (let (ok, bs1) = Bitstream_CheckForError bs in
      if \<not> ok then (False, bs1)
      else
        let newBitOffset = (bitOffset bs1 + skipBitCount) mod 2 ^ 32
        in (True, bs1\<lparr>bitOffset := newBitOffset mod 8,
                      byteOffset := byteOffset bs1 + newBitOffset div 8\<rparr>))"

definition Bitstream_HasError :: "Bitstream \<Rightarrow> bool" where
  "Bitstream_HasError bs = error bs"

definition Bitstream_GetOffset :: "Bitstream \<Rightarrow> nat" where
  "Bitstream_GetOffset bs = byteOffset bs * 8 + bitOffset bs"

definition Bitstream_GetRemaining :: "Bitstream \<Rightarrow> int" where
  "Bitstream_GetRemaining bs = int (dataSize bs) * 8 - int (Bitstream_GetOffset bs)"

definition Bitstream_GetLength :: "Bitstream \<Rightarrow> nat" where
  "Bitstream_GetLength bs = (if bitOffset bs = 0 then byteOffset bs else byteOffset bs + 1)"

definition Bitstream_Align :: "Bitstream \<Rightarrow> nat \<Rightarrow> bool \<times> Bitstream" where
  "Bitstream_Align bs alignment =
     (let forAlignment = Bitstream_GetOffset bs mod alignment in
      if forAlignment > 0 then
        (let (ok, bs1) = Bitstream_Skip bs (alignment - forAlignment) in
         if \<not> ok then (False, bs1) else (True, bs1))
      else (True, bs))"

text \<open>The pointer returned is \<^verbatim>\<open>data + byteOffset\<close>, represented by its offset into \<^verbatim>\<open>data\<close>.\<close>

definition Bitstream_GetAlignedData :: "Bitstream \<Rightarrow> nat \<Rightarrow> nat \<times> Bitstream" where
  "Bitstream_GetAlignedData bs alignment =
     (let bs1 = snd (Bitstream_Align bs alignment) in (byteOffset bs1, bs1))"

definition Bitstream_PutBit :: "Bitstream \<Rightarrow> uint32 \<Rightarrow> bool \<times> Bitstream" where
  "Bitstream_PutBit bs v =
     (let (ok, bs1) = Bitstream_CheckForError bs in
      if \<not> ok then (False, bs1)
      else
        let bs2 = (if v \<noteq> 0 then
                     (let mask = push_bit (7 - bitOffset bs1) (1 :: uint32) in
                      bs1\<lparr>data := (data bs1)[byteOffset bs1 :=
                              ucast (ucast (data bs1 ! byteOffset bs1) OR mask)]\<rparr>)
                   else bs1)
        in (True, next_bit bs2))"

text \<open>The loops run \<open>n\<close> more times; the get loop carries \<^verbatim>\<open>v\<close>, the put loop carries \<^verbatim>\<open>mask\<close>.\<close>

fun get_loop :: "nat \<Rightarrow> uint32 \<Rightarrow> Bitstream \<Rightarrow> uint32 option \<times> Bitstream" where
  "get_loop 0 v bs = (Some v, bs)"
| "get_loop (Suc n) v bs =
     (let v1 = push_bit 1 v in
      case Bitstream_GetBit bs of
        (None, bs1) \<Rightarrow> (None, bs1)
      | (Some tmp, bs1) \<Rightarrow> get_loop n (v1 OR tmp) bs1)"

definition Bitstream_Get :: "Bitstream \<Rightarrow> nat \<Rightarrow> uint32 option \<times> Bitstream" where
  "Bitstream_Get bs n = get_loop n 0 bs"

fun put_loop :: "nat \<Rightarrow> uint32 \<Rightarrow> uint32 \<Rightarrow> Bitstream \<Rightarrow> bool \<times> Bitstream" where
  "put_loop 0 v m bs = (True, bs)"
| "put_loop (Suc n) v m bs =
     (let bitValue = (if v AND m \<noteq> 0 then 1 else 0);
          (ok, bs1) = Bitstream_PutBit bs bitValue
      in if \<not> ok then (False, bs1) else put_loop n v (drop_bit 1 m) bs1)"

definition Bitstream_Put :: "Bitstream \<Rightarrow> uint32 \<Rightarrow> nat \<Rightarrow> bool \<times> Bitstream" where
  "Bitstream_Put bs v bitCount = put_loop bitCount v (push_bit (bitCount - 1) 1) bs"

section \<open>The bits of a buffer\<close>

definition byte_bits :: "uint8 \<Rightarrow> bool list" where
  "byte_bits b = map (\<lambda>k. bit b (7 - k)) [0..<8]"

definition stream_bits :: "uint8 list \<Rightarrow> bool list" where
  "stream_bits d = concat (map byte_bits d)"

text \<open>The \<open>n\<close> low bits of a value, most significant first.\<close>

fun enc :: "nat \<Rightarrow> uint32 \<Rightarrow> bool list" where
  "enc 0 v = []"
| "enc (Suc n) v = bit v n # enc n v"

lemma length_enc [simp]: "length (enc n v) = n"
  by (induction n) simp_all

lemma length_byte_bits [simp]: "length (byte_bits b) = 8"
  by (simp add: byte_bits_def)

lemma stream_bits_simps [simp]:
  "stream_bits [] = []"
  "stream_bits (b # d) = byte_bits b @ stream_bits d"
  "stream_bits (d @ e) = stream_bits d @ stream_bits e"
  by (simp_all add: stream_bits_def)

lemma length_stream_bits [simp]: "length (stream_bits d) = 8 * length d"
  by (induction d) simp_all

lemma nth_stream_bits:
  "i < length d \<Longrightarrow> j < 8 \<Longrightarrow> stream_bits d ! (i * 8 + j) = bit (d ! i) (7 - j)"
proof (induction d arbitrary: i)
  case (Cons b d)
  then show ?case by (cases i) (simp_all add: nth_append byte_bits_def)
qed simp

lemma byte_bits_zero [simp]: "byte_bits 0 = replicate 8 False"
  by (simp add: byte_bits_def map_replicate_const)

lemma stream_bits_zeros: "stream_bits (replicate n 0) = replicate (8 * n) False"
  by (induction n) (simp_all add: replicate_add [symmetric])

lemma stream_bits_take: "stream_bits (take n d) = take (8 * n) (stream_bits d)"
proof (induction d arbitrary: n)
  case (Cons b d)
  then show ?case by (cases n) simp_all
qed simp

lemma stream_bits_drop: "stream_bits (drop n d) = drop (8 * n) (stream_bits d)"
proof (induction d arbitrary: n)
  case (Cons b d)
  then show ?case by (cases n) simp_all
qed simp

lemma stream_bits_inj: "length d = length e \<Longrightarrow> stream_bits d = stream_bits e \<Longrightarrow> d = e"
proof (rule nth_equalityI)
  fix i
  assume eq: "length d = length e" "stream_bits d = stream_bits e" and i: "i < length d"
  have "bit (d ! i) k = bit (e ! i) k" if "k < 8" for k
    using nth_stream_bits [of i d "7 - k"] nth_stream_bits [of i e "7 - k"] eq i that by simp
  then show "d ! i = e ! i" by (auto intro: bit_word_eqI)
qed

lemma stream_bits_set:
  assumes "i < length d" and "j < 8"
  shows "stream_bits (d[i := ucast (ucast (d ! i) OR push_bit (7 - j) (1 :: uint32))])
         = (stream_bits d)[i * 8 + j := True]"
  using assms
proof (induction d arbitrary: i)
  case (Cons b d)
  have "byte_bits (ucast (ucast b OR push_bit (7 - j) (1 :: uint32))) = (byte_bits b)[j := True]"
    using \<open>j < 8\<close>
    by (intro nth_equalityI)
       (auto simp: byte_bits_def nth_list_update bit_ucast_iff bit_or_iff bit_exp_iff)
  with Cons show ?case by (cases i) (simp_all add: list_update_append)
qed simp

section \<open>Written and unread bits\<close>

text \<open>
  \<open>wrote bs xs\<close>: the stream is healthy, the bits before the cursor are \<open>xs\<close> and the rest of
  the buffer is still zero.  \<open>holds bs ys\<close>: the stream is healthy and \<open>ys\<close> are the bits
  from the cursor up to \<^verbatim>\<open>dataSize\<close>, behind which the buffer may go on.
\<close>

definition stream_ok :: "Bitstream \<Rightarrow> bool" where
  "stream_ok bs \<longleftrightarrow> \<not> error bs \<and> bitOffset bs < 8 \<and> dataSize bs \<le> length (data bs) \<and>
     Bitstream_GetOffset bs \<le> 8 * dataSize bs"

definition wrote :: "Bitstream \<Rightarrow> bool list \<Rightarrow> bool" where
  "wrote bs xs \<longleftrightarrow> stream_ok bs \<and> Bitstream_GetOffset bs = length xs \<and> dataSize bs = length (data bs) \<and>
     stream_bits (data bs) = xs @ replicate (8 * dataSize bs - length xs) False"

definition holds :: "Bitstream \<Rightarrow> bool list \<Rightarrow> bool" where
  "holds bs ys \<longleftrightarrow> stream_ok bs \<and>
     drop (Bitstream_GetOffset bs) (stream_bits (take (dataSize bs) (data bs))) = ys"

lemma wrote_ok: "wrote bs xs \<Longrightarrow> stream_ok bs"
  by (simp add: wrote_def)

lemma holds_ok: "holds bs xs \<Longrightarrow> stream_ok bs"
  by (simp add: holds_def)

lemma next_bit_simps [stream_simps]:
  "data (next_bit bs) = data bs" "dataSize (next_bit bs) = dataSize bs"
  "error (next_bit bs) = error bs" "Bitstream_GetOffset (next_bit bs) = Suc (Bitstream_GetOffset bs)"
  by (simp_all add: next_bit_def Bitstream_GetOffset_def)

lemma next_bit_ok:
  "stream_ok bs \<Longrightarrow> Bitstream_GetOffset bs < 8 * dataSize bs \<Longrightarrow> stream_ok (next_bit bs)"
  by (auto simp: stream_ok_def stream_simps) (simp add: next_bit_def)

lemma check_ok: "stream_ok bs \<Longrightarrow> Bitstream_GetOffset bs < 8 * dataSize bs \<Longrightarrow>
    Bitstream_CheckForError bs = (True, bs) \<and> byteOffset bs < length (data bs) \<and> bitOffset bs < 8"
  by (auto simp: Bitstream_CheckForError_def stream_ok_def Bitstream_GetOffset_def)

lemma check_full: "stream_ok bs \<Longrightarrow> Bitstream_GetOffset bs = 8 * dataSize bs \<Longrightarrow>
    \<not> fst (Bitstream_CheckForError bs)"
  by (auto simp: Bitstream_CheckForError_def stream_ok_def Bitstream_GetOffset_def)

lemma PutBit_ok:
  assumes "wrote bs xs" and "length xs < 8 * dataSize bs"
  shows "\<exists>bs'. Bitstream_PutBit bs v = (True, bs') \<and> wrote bs' (xs @ [v \<noteq> 0]) \<and> dataSize bs' = dataSize bs"
proof -
  have ok: "stream_ok bs" "Bitstream_GetOffset bs < 8 * dataSize bs" and off: "Bitstream_GetOffset bs = length xs"
    using assms by (auto simp: wrote_def)
  note check = check_ok [OF ok]
  define d where "d = (if v \<noteq> 0 then (data bs)[byteOffset bs :=
      ucast (ucast (data bs ! byteOffset bs) OR push_bit (7 - bitOffset bs) (1 :: uint32))] else data bs)"
  have len: "length d = length (data bs)" by (simp add: d_def)
  obtain k where k: "8 * dataSize bs - length xs = Suc k" using assms(2) by (cases "8 * dataSize bs - length xs") auto
  have "stream_bits d = (stream_bits (data bs))[length xs := v \<noteq> 0]"
  proof (cases "v = 0")
    case True
    have "stream_bits (data bs) ! length xs = False" using assms k by (simp add: wrote_def nth_append)
    then show ?thesis using True by (simp add: d_def list_update_same_conv assms(1)) (metis list_update_id)
  next
    case False
    then show ?thesis using check off stream_bits_set [of "byteOffset bs" "data bs" "bitOffset bs"]
      by (simp add: d_def Bitstream_GetOffset_def)
  qed
  also have "\<dots> = (xs @ [v \<noteq> 0]) @ replicate k False"
    using assms k by (simp add: wrote_def list_update_append)
  finally have bits: "stream_bits d = (xs @ [v \<noteq> 0]) @ replicate (8 * dataSize bs - Suc (length xs)) False"
    using k by simp
  let ?bs = "bs\<lparr>data := d\<rparr>"
  have off': "Bitstream_GetOffset ?bs = Bitstream_GetOffset bs" by (simp add: Bitstream_GetOffset_def)
  then have "stream_ok ?bs" using ok len by (simp add: stream_ok_def)
  then have "stream_ok (next_bit ?bs)" using ok off' by (intro next_bit_ok) simp_all
  then have "wrote (next_bit ?bs) (xs @ [v \<noteq> 0])" using bits off off' len assms(1) by (simp add: wrote_def stream_simps)
  moreover have "Bitstream_PutBit bs v = (True, next_bit ?bs)"
    using check by (simp add: Bitstream_PutBit_def d_def Let_def)
  ultimately show ?thesis by (simp add: stream_simps)
qed

lemma PutBit_full:
  "wrote bs xs \<Longrightarrow> length xs = 8 * dataSize bs \<Longrightarrow> \<not> fst (Bitstream_PutBit bs v)"
  using check_full [of bs] by (auto simp: wrote_def Bitstream_PutBit_def split: prod.split)

lemma GetBit_ok:
  assumes "holds bs (y # ys)"
  shows "\<exists>bs'. Bitstream_GetBit bs = (Some (of_bool y), bs') \<and> holds bs' ys"
proof -
  let ?o = "Bitstream_GetOffset bs"
  let ?d = "take (dataSize bs) (data bs)"
  have drop: "drop ?o (stream_bits ?d) = y # ys" and ok: "stream_ok bs"
    using assms by (auto simp: holds_def)
  have less: "?o < 8 * dataSize bs"
    using arg_cong [OF drop, of length] ok by (simp add: stream_ok_def)
  note check = check_ok [OF ok less]
  have y: "stream_bits ?d ! ?o = y" and ys: "drop (Suc ?o) (stream_bits ?d) = ys"
    using drop by (metis hd_drop_conv_nth drop_all linorder_not_less list.distinct(1) list.sel(1), metis drop_Suc drop_tl list.sel(3))
  have "ucast (data bs ! byteOffset bs) AND push_bit (7 - bitOffset bs) 1 \<noteq> (0 :: uint32) \<longleftrightarrow> y"
  proof -
    have "(ucast (data bs ! byteOffset bs) :: uint32) AND push_bit k 1 \<noteq> 0 \<longleftrightarrow> bit (data bs ! byteOffset bs) k"
      if "k < 8" for k
      using that by (auto simp: word_zero_iff_bits bit_and_iff bit_ucast_iff bit_exp_iff)
    then show ?thesis
      using check nth_stream_bits [of "byteOffset bs" ?d "bitOffset bs"] y less ok
      by (simp add: Bitstream_GetOffset_def stream_ok_def)
  qed
  then have "Bitstream_GetBit bs = (Some (of_bool y), next_bit bs)"
    using check by (simp add: Bitstream_GetBit_def Let_def)
  moreover have "holds (next_bit bs) ys"
    using next_bit_ok [OF ok less] ys by (simp add: holds_def stream_simps)
  ultimately show ?thesis by blast
qed

lemma bit_test_mask: "n < 32 \<Longrightarrow> (v :: uint32) AND push_bit n 1 \<noteq> 0 \<longleftrightarrow> bit v n"
  by (auto simp: word_zero_iff_bits bit_and_iff bit_exp_iff)

lemma mask_shift: "Suc m < 32 \<Longrightarrow> drop_bit 1 (push_bit (Suc m) 1) = (push_bit m 1 :: uint32)"
  by (rule bit_word_eqI) (auto simp: bit_drop_bit_eq bit_exp_iff simp del: power_Suc)

lemma put_loop_mask:
  "n < 32 \<Longrightarrow> put_loop (Suc n) v (push_bit n 1) bs =
     (case Bitstream_PutBit bs (of_bool (bit v n)) of
        (ok, bs1) \<Rightarrow> if \<not> ok then (False, bs1) else put_loop n v (push_bit (n - 1) 1) bs1)"
proof (cases n)
  case 0
  then show ?thesis using bit_test_mask [of 0 v] by (simp add: of_bool_def split: prod.split)
next
  case (Suc m)
  assume "n < 32"
  with Suc bit_test_mask [of n v] mask_shift [of m] show ?thesis
    by (simp only: put_loop.simps Let_def of_bool_def) (simp split: prod.split)
qed

lemma put_loop_room:
  assumes "wrote bs xs" and "length xs + n \<le> 8 * dataSize bs" and "n \<le> 32"
  shows "\<exists>bs'. put_loop n v (push_bit (n - 1) 1) bs = (True, bs') \<and> wrote bs' (xs @ enc n v) \<and>
           dataSize bs' = dataSize bs"
  using assms
proof (induction n arbitrary: bs xs)
  case (Suc n)
  from Suc.prems have "length xs < 8 * dataSize bs" by simp
  from PutBit_ok [OF Suc.prems(1) this, of "of_bool (bit v n)"] obtain bs1
    where bs1: "Bitstream_PutBit bs (of_bool (bit v n)) = (True, bs1)"
      "wrote bs1 (xs @ [bit v n])" "dataSize bs1 = dataSize bs" by auto
  with Suc.prems put_loop_mask [of n v bs] Suc.IH [OF bs1(2)] show ?case by simp
qed simp

lemma put_loop_full:
  assumes "wrote bs xs" and "length xs + n > 8 * dataSize bs" and "n \<le> 32"
  shows "\<not> fst (put_loop n v (push_bit (n - 1) 1) bs)"
  using assms
proof (induction n arbitrary: bs xs)
  case 0
  then show ?case by (simp add: wrote_def stream_ok_def)
next
  case (Suc n)
  show ?case
  proof (cases "length xs < 8 * dataSize bs")
    case True
    from PutBit_ok [OF Suc.prems(1) this, of "of_bool (bit v n)"] obtain bs1
      where bs1: "Bitstream_PutBit bs (of_bool (bit v n)) = (True, bs1)"
        "wrote bs1 (xs @ [bit v n])" "dataSize bs1 = dataSize bs" by auto
    with Suc.prems put_loop_mask [of n v bs] Suc.IH [OF bs1(2)] show ?thesis by simp
  next
    case False
    with Suc.prems(1) have "\<not> fst (Bitstream_PutBit bs (of_bool (bit v n)))"
      by (intro PutBit_full) (auto simp: wrote_def stream_ok_def)
    with Suc.prems put_loop_mask [of n v bs] show ?thesis by (auto split: prod.splits)
  qed
qed

lemma get_loop_ok:
  assumes "holds bs (enc n w @ ys)"
  shows "\<exists>bs'. get_loop n v bs = (Some (push_bit n v OR take_bit n w), bs') \<and> holds bs' ys"
  using assms
proof (induction n arbitrary: v bs)
  case (Suc n)
  from Suc.prems have "holds bs (bit w n # (enc n w @ ys))" by simp
  from GetBit_ok [OF this] obtain bs1 where bs1: "Bitstream_GetBit bs = (Some (of_bool (bit w n)), bs1)"
    "holds bs1 (enc n w @ ys)" by blast
  have "push_bit n (push_bit 1 v OR of_bool (bit w n)) OR take_bit n w = push_bit (Suc n) v OR take_bit (Suc n) w"
    by (rule bit_word_eqI) (auto simp: bit_or_iff bit_push_bit_iff bit_take_bit_iff less_Suc_eq bit_1_iff)
  with bs1(1) Suc.IH [OF bs1(2), of "push_bit 1 v OR of_bool (bit w n)"] show ?case by simp
qed simp

lemma get_loop_short: "holds bs ys \<Longrightarrow> length ys < n \<Longrightarrow> fst (get_loop n v bs) = None"
proof (induction n arbitrary: v bs ys)
  case (Suc n)
  show ?case
  proof (cases ys)
    case Nil
    with Suc.prems(1) have "fst (Bitstream_GetBit bs) = None"
      using check_full [of bs] by (auto simp: holds_def stream_ok_def Bitstream_GetBit_def split: prod.split)
    then show ?thesis by (auto split: prod.split option.split)
  next
    case (Cons y zs)
    with GetBit_ok [of bs y zs] Suc.prems obtain bs1 where
      "Bitstream_GetBit bs = (Some (of_bool y), bs1)" "holds bs1 zs" by blast
    with Suc.IH Suc.prems(2) Cons show ?thesis by simp
  qed
qed simp

section \<open>The contract of a field stream\<close>

text \<open>
  Sequences of fields: a value and its width.  \<open>put_fields\<close> stops at the first put that
  fails, as every caller in the compression code does.
\<close>

fun put_fields :: "('s \<Rightarrow> uint32 \<Rightarrow> nat \<Rightarrow> bool \<times> 's) \<Rightarrow> 's \<Rightarrow> (uint32 \<times> nat) list \<Rightarrow> bool \<times> 's" where
  "put_fields put s [] = (True, s)"
| "put_fields put s ((v, n) # fs) =
     (case put s v n of (ok, s1) \<Rightarrow> if \<not> ok then (False, s1) else put_fields put s1 fs)"

fun get_fields :: "('s \<Rightarrow> nat \<Rightarrow> uint32 option \<times> 's) \<Rightarrow> 's \<Rightarrow> nat list \<Rightarrow> uint32 list option \<times> 's" where
  "get_fields get s [] = (Some [], s)"
| "get_fields get s (n # ns) =
     (case get s n of
        (None, s1) \<Rightarrow> (None, s1)
      | (Some v, s1) \<Rightarrow>
          (case get_fields get s1 ns of (r, s2) \<Rightarrow> (map_option (Cons v) r, s2)))"

definition fields_bits :: "(uint32 \<times> nat) list \<Rightarrow> bool list" where
  "fields_bits fs = concat (map (\<lambda>(v, n). enc n v) fs)"

definition fields_ok :: "(uint32 \<times> nat) list \<Rightarrow> bool" where
  "fields_ok fs \<longleftrightarrow> list_all (\<lambda>(v, n). n \<le> 32 \<and> take_bit n v = v) fs"

lemma fields_bits_simps [simp]:
  "fields_bits [] = []" "fields_bits ((v, n) # fs) = enc n v @ fields_bits fs"
  "fields_bits (fs @ gs) = fields_bits fs @ fields_bits gs"
  by (simp_all add: fields_bits_def)

lemma fields_ok_simps [simp]:
  "fields_ok []" "fields_ok ((v, n) # fs) \<longleftrightarrow> n \<le> 32 \<and> take_bit n v = v \<and> fields_ok fs"
  "fields_ok (fs @ gs) \<longleftrightarrow> fields_ok fs \<and> fields_ok gs"
  by (simp_all add: fields_ok_def)

lemma length_fields_bits: "length (fields_bits fs) = sum_list (map snd fs)"
  by (induction fs) auto

lemma put_fields_append:
  "put_fields put s (fs @ gs) =
     (case put_fields put s fs of (ok, s1) \<Rightarrow> if \<not> ok then (False, s1) else put_fields put s1 gs)"
  by (induction put s fs rule: put_fields.induct) (auto split: prod.split)

locale field_stream =
  fixes put :: "'s \<Rightarrow> uint32 \<Rightarrow> nat \<Rightarrow> bool \<times> 's"
    and get :: "'s \<Rightarrow> nat \<Rightarrow> uint32 option \<times> 's"
    and wrote :: "'s \<Rightarrow> bool list \<Rightarrow> bool"
    and holds :: "'s \<Rightarrow> bool list \<Rightarrow> bool"
    and cap :: "'s \<Rightarrow> nat"
  assumes put_full: "wrote s xs \<Longrightarrow> n \<le> 32 \<Longrightarrow> cap s < length xs + n \<Longrightarrow> \<not> fst (put s v n)"
    and put_room: "wrote s xs \<Longrightarrow> n \<le> 32 \<Longrightarrow> length xs + n \<le> cap s \<Longrightarrow>
      \<exists>s'. put s v n = (True, s') \<and> wrote s' (xs @ enc n v) \<and> cap s' = cap s"
    and get_ok: "holds s (enc n v @ ys) \<Longrightarrow> take_bit n v = v \<Longrightarrow> \<exists>s'. get s n = (Some v, s') \<and> holds s' ys"
begin

lemma put_wrote:
  assumes "wrote s xs" and "n \<le> 32" and "put s v n = (True, s')"
  shows "wrote s' (xs @ enc n v)" and "cap s' = cap s"
proof -
  have "length xs + n \<le> cap s" using put_full [OF assms(1,2), of v] assms(3) by fastforce
  from put_room [OF assms(1,2) this, of v] assms(3) show "wrote s' (xs @ enc n v)" "cap s' = cap s" by auto
qed

lemma put_fields_wrote:
  "wrote s xs \<Longrightarrow> fields_ok fs \<Longrightarrow> put_fields put s fs = (True, s') \<Longrightarrow>
     wrote s' (xs @ fields_bits fs) \<and> cap s' = cap s"
proof (induction fs arbitrary: s xs)
  case (Cons f fs)
  obtain v n s1 where f: "f = (v, n)" and put: "put s v n = (True, s1)"
    using Cons.prems(3) by (cases f) (auto split: prod.splits if_splits)
  with Cons.prems put_wrote [OF Cons.prems(1) _ put] Cons.IH [of s1 "xs @ enc n v"] show ?case by simp
qed simp

lemma put_fields_room:
  "wrote s xs \<Longrightarrow> fields_ok fs \<Longrightarrow> length xs + length (fields_bits fs) \<le> cap s \<Longrightarrow>
     fst (put_fields put s fs)"
proof (induction fs arbitrary: s xs)
  case (Cons f fs)
  obtain v n where f: "f = (v, n)" by (cases f)
  with Cons.prems obtain s1 where put: "put s v n = (True, s1)" "wrote s1 (xs @ enc n v)" "cap s1 = cap s"
    using put_room [of s xs n v] by auto
  with f Cons.prems Cons.IH [OF put(2)] show ?case by simp
qed simp

lemma put_fields_full:
  "wrote s xs \<Longrightarrow> length xs \<le> cap s \<Longrightarrow> fields_ok fs \<Longrightarrow>
     cap s < length xs + length (fields_bits fs) \<Longrightarrow> \<not> fst (put_fields put s fs)"
proof (induction fs arbitrary: s xs)
  case (Cons f fs)
  obtain v n where f: "f = (v, n)" by (cases f)
  show ?case
  proof (cases "length xs + n \<le> cap s")
    case True
    with f Cons.prems obtain s1 where put: "put s v n = (True, s1)" "wrote s1 (xs @ enc n v)" "cap s1 = cap s"
      using put_room [of s xs n v] by auto
    with f True Cons.prems Cons.IH [OF put(2)] show ?thesis by simp
  next
    case False
    with f Cons.prems have "\<not> fst (put s v n)" by (intro put_full) auto
    with f show ?thesis by (auto split: prod.split)
  qed
qed simp

lemma get_fields_ok:
  "holds s (fields_bits fs @ ys) \<Longrightarrow> fields_ok fs \<Longrightarrow>
     \<exists>s'. get_fields get s (map snd fs) = (Some (map fst fs), s') \<and> holds s' ys"
proof (induction fs arbitrary: s)
  case (Cons f fs)
  obtain v n where f: "f = (v, n)" by (cases f)
  with Cons.prems get_ok [of s n v "fields_bits fs @ ys"] obtain s1
    where "get s n = (Some v, s1)" "holds s1 (fields_bits fs @ ys)" by auto
  with f Cons.prems(2) Cons.IH [of s1] show ?case by auto
qed simp

end

interpretation bstream: field_stream Bitstream_Put Bitstream_Get wrote holds "\<lambda>bs. 8 * dataSize bs"
proof unfold_locales
  fix s xs v and n :: nat
  assume "wrote s xs" "n \<le> 32"
  then show "8 * dataSize s < length xs + n \<Longrightarrow> \<not> fst (Bitstream_Put s v n)"
    and "length xs + n \<le> 8 * dataSize s \<Longrightarrow>
      \<exists>s'. Bitstream_Put s v n = (True, s') \<and> wrote s' (xs @ enc n v) \<and> 8 * dataSize s' = 8 * dataSize s"
    using put_loop_full [of s xs n v] put_loop_room [of s xs n v] by (auto simp: Bitstream_Put_def)
next
  fix s n v ys
  assume "holds s (enc n v @ ys)" "take_bit n v = v"
  then show "\<exists>s'. Bitstream_Get s n = (Some v, s') \<and> holds s' ys"
    using get_loop_ok [of s n v ys 0] by (simp add: Bitstream_Get_def)
qed

lemma wrote_Init: "wrote (Bitstream_Init (replicate n 0) n) []"
  by (simp add: wrote_def stream_ok_def Bitstream_Init_def Bitstream_GetOffset_def stream_bits_zeros)

lemma holds_Init: "n \<le> length d \<Longrightarrow> holds (Bitstream_Init d n) (stream_bits (take n d))"
  by (simp add: holds_def stream_ok_def Bitstream_Init_def Bitstream_GetOffset_def)

lemma Bitstream_GetLength_offset:
  "bitOffset bs < 8 \<Longrightarrow> Bitstream_GetOffset bs \<le> 8 * Bitstream_GetLength bs"
  "bitOffset bs < 8 \<Longrightarrow> Bitstream_GetOffset bs \<le> 8 * n \<Longrightarrow> Bitstream_GetLength bs \<le> n"
  by (auto simp: Bitstream_GetLength_def Bitstream_GetOffset_def)

section \<open>Properties\<close>

text \<open>
  C26: writing fields of at most 32 bits into a zeroed buffer succeeds exactly when they fit,
  and then reading fields of the same widths from the buffer cut to
  \<^verbatim>\<open>Bitstream_GetLength\<close> bytes gives back the values.
\<close>

theorem Bitstream_roundtrip:
  assumes "fields_ok fs"
  shows "case put_fields Bitstream_Put (Bitstream_Init (replicate n 0) n) fs of
     (ok, bs) \<Rightarrow> (ok \<longleftrightarrow> sum_list (map snd fs) \<le> 8 * n) \<and>
       (ok \<longrightarrow> (let d = take (Bitstream_GetLength bs) (data bs) in
               fst (get_fields Bitstream_Get (Bitstream_Init d (length d)) (map snd fs)) = Some (map fst fs)))"
proof (cases "put_fields Bitstream_Put (Bitstream_Init (replicate n 0) n) fs")
  case (Pair ok bs)
  have cap: "dataSize (Bitstream_Init (replicate n 0) n) = n" by (simp add: Bitstream_Init_def)
  have iff: "ok \<longleftrightarrow> sum_list (map snd fs) \<le> 8 * n"
    using bstream.put_fields_room [OF wrote_Init assms, of n] bstream.put_fields_full [OF wrote_Init _ assms, of n]
      Pair cap by (fastforce simp: length_fields_bits)
  have "fst (get_fields Bitstream_Get (Bitstream_Init d (length d)) (map snd fs)) = Some (map fst fs)"
    if ok and d: "d = take (Bitstream_GetLength bs) (data bs)" for d
  proof -
    have w: "wrote bs (fields_bits fs)"
      using bstream.put_fields_wrote [OF wrote_Init assms, of n] Pair that by simp
    let ?k = "8 * Bitstream_GetLength bs"
    have "length (fields_bits fs) \<le> ?k"
      using w Bitstream_GetLength_offset(1) [of bs] by (simp add: wrote_def stream_ok_def)
    then have "stream_bits d = fields_bits fs @ take (?k - length (fields_bits fs))
        (replicate (8 * dataSize bs - length (fields_bits fs)) False)"
      using w by (simp add: d stream_bits_take wrote_def)
    with bstream.get_fields_ok [OF _ assms] holds_Init [of "length d" d] show ?thesis by fastforce
  qed
  with Pair iff show ?thesis by (simp add: Let_def)
qed

theorem Bitstream_roundtrip_witness:
  "fields_ok [(1, 1), (300, 12)] \<and>
   (case put_fields Bitstream_Put (Bitstream_Init (replicate 2 0) 2) [(1, 1), (300, 12)] of
     (ok, bs) \<Rightarrow> (ok \<longleftrightarrow> sum_list (map snd [(1 :: uint32, 1 :: nat), (300, 12)]) \<le> 8 * 2) \<and>
       (ok \<longrightarrow> (let d = take (Bitstream_GetLength bs) (data bs) in
               fst (get_fields Bitstream_Get (Bitstream_Init d (length d)) (map snd [(1 :: uint32, 1 :: nat), (300, 12)])) =
                 Some (map fst [(1 :: uint32, 1 :: nat), (300, 12)]))))"
proof -
  have "fields_ok [(1, 1), (300, 12)]" by (simp add: take_bit_eq_mask mask_numeral)
  from conjI [OF this Bitstream_roundtrip [OF this, of 2]] show ?thesis .
qed

end
