(* ===== verification/BitmapCompression.thy ===== *)
theory BitmapCompression
  imports Bitstream Bitmapset
begin

text \<open>
  The bitmap compression of \<^verbatim>\<open>src/backend/utils/misc/bitmap_compression.c\<close>: a two-byte
  header, then either the raw blocks or a sequence of two-bit flags for all-zero,
  all-one, raw and run-length encoded 32-bit blocks.  Buffers are byte lists;
  \<^verbatim>\<open>memcpy\<close> between bytes and 32-bit blocks uses the little-endian layout of the
  platforms the server runs on.  The main result is that decompression
  inverts compression, whichever of the two encodings was chosen.
\<close>

section \<open>Model\<close>

text \<open>The enumerations of the source are the integers that the stream carries.\<close>

definition BITMAP_COMPRESSION_TYPE_NO :: uint32 where "BITMAP_COMPRESSION_TYPE_NO = 0"
definition BITMAP_COMPRESSION_TYPE_DEFAULT :: uint32 where "BITMAP_COMPRESSION_TYPE_DEFAULT = 1"

definition BITMAP_COMPRESSION_FLAG_ZERO :: uint32 where "BITMAP_COMPRESSION_FLAG_ZERO = 0"
definition BITMAP_COMPRESSION_FLAG_ONE :: uint32 where "BITMAP_COMPRESSION_FLAG_ONE = 1"
definition BITMAP_COMPRESSION_FLAG_RLE :: uint32 where "BITMAP_COMPRESSION_FLAG_RLE = 2"
definition BITMAP_COMPRESSION_FLAG_RAW :: uint32 where "BITMAP_COMPRESSION_FLAG_RAW = 3"

lemmas compression_consts =
  BITMAP_COMPRESSION_TYPE_NO_def BITMAP_COMPRESSION_TYPE_DEFAULT_def
  BITMAP_COMPRESSION_FLAG_ZERO_def BITMAP_COMPRESSION_FLAG_ONE_def
  BITMAP_COMPRESSION_FLAG_RLE_def BITMAP_COMPRESSION_FLAG_RAW_def

record BitmapDecompressState =
  bitstream :: Bitstream
  compressionType :: uint32
  blockCount :: nat

text \<open>The memory image of blocks.\<close>

definition u32_bytes :: "uint32 \<Rightarrow> uint8 list" where
  "u32_bytes w = [ucast w, ucast (drop_bit 8 w), ucast (drop_bit 16 w), ucast (drop_bit 24 w)]"

definition block_bytes :: "uint32 list \<Rightarrow> uint8 list" where
  "block_bytes ws = concat (map u32_bytes ws)"

fun bytes_blocks :: "uint8 list \<Rightarrow> uint32 list" where
  "bytes_blocks (a # b # c # d # r) =
     (ucast a OR push_bit 8 (ucast b) OR push_bit 16 (ucast c) OR push_bit 24 (ucast d)) # bytes_blocks r"
| "bytes_blocks _ = []"

text \<open>
  \<^verbatim>\<open>BitmapDecompress_Init\<close> fills a caller's state, whose old fields survive where it
  returns early.
\<close>

definition BitmapDecompress_Init ::
  "BitmapDecompressState \<Rightarrow> uint8 list \<Rightarrow> nat \<Rightarrow> bool \<times> BitmapDecompressState" where
  "BitmapDecompress_Init state inData inDataSize =
     (let bs = Bitstream_Init inData inDataSize in
      case Bitstream_Get bs 1 of
        (None, bs1) \<Rightarrow> (False, state\<lparr>bitstream := bs1\<rparr>)
      | (Some tmp, bs1) \<Rightarrow>
          (let state1 = state\<lparr>compressionType := tmp\<rparr> in
           case Bitstream_Skip bs1 3 of
             (ok, bs2) \<Rightarrow>
               if \<not> ok then (False, state1\<lparr>bitstream := bs2\<rparr>)
               else
                 case Bitstream_Get bs2 12 of
                   (None, bs3) \<Rightarrow> (False, state1\<lparr>bitstream := bs3\<rparr>)
                 | (Some tmp, bs3) \<Rightarrow> (True, state1\<lparr>bitstream := bs3, blockCount := unat tmp\<rparr>)))"

definition BitmapDecompress_GetBlockCount :: "BitmapDecompressState \<Rightarrow> nat" where
  "BitmapDecompress_GetBlockCount state = blockCount state"

definition BitmapDecompress_GetCompressionType :: "BitmapDecompressState \<Rightarrow> uint32" where
  "BitmapDecompress_GetCompressionType state = compressionType state"

definition BitmapDecompress_HasError :: "BitmapDecompressState \<Rightarrow> bool" where
  "BitmapDecompress_HasError state = Bitstream_HasError (bitstream state)"

text \<open>The assignment \<^verbatim>\<open>bitmap[i] = v\<close> to the caller's buffer.\<close>

definition set_block :: "uint32 list \<Rightarrow> nat \<Rightarrow> uint32 \<Rightarrow> uint32 list result" where
  "set_block bitmap i v =
     (if i < length bitmap then Inr (bitmap[i := v]) else Inl (UB ''bitmap written out of range''))"

text \<open>
  One pass through the \<^verbatim>\<open>switch\<close>: the new stream, bitmap, repeat count and \<^verbatim>\<open>failed\<close>.  A
  \<^verbatim>\<open>break\<close> after a failed read leaves the \<^verbatim>\<open>switch\<close> only, so the loop goes on.
\<close>

definition decompress_switch ::
  "uint32 \<Rightarrow> Bitstream \<Rightarrow> uint32 list \<Rightarrow> nat \<Rightarrow> uint32 \<Rightarrow> bool
   \<Rightarrow> (Bitstream \<times> uint32 list \<times> uint32 \<times> bool) result" where
  "decompress_switch flag bs bitmap i lastBlockData failed =
     (if flag = BITMAP_COMPRESSION_FLAG_ZERO then
        bindE (set_block bitmap i 0) (\<lambda>bitmap1. Inr (bs, bitmap1, 0, failed))
      else if flag = BITMAP_COMPRESSION_FLAG_ONE then
        bindE (set_block bitmap i 0xFFFFFFFF) (\<lambda>bitmap1. Inr (bs, bitmap1, 0, failed))
      else if flag = BITMAP_COMPRESSION_FLAG_RAW then
        (case Bitstream_Get bs 32 of
           (None, bs1) \<Rightarrow> Inr (bs1, bitmap, 0, True)
         | (Some w, bs1) \<Rightarrow> bindE (set_block bitmap i w) (\<lambda>bitmap1. Inr (bs1, bitmap1, 0, failed)))
      else if flag = BITMAP_COMPRESSION_FLAG_RLE then
        (case Bitstream_Get bs 8 of
           (None, bs1) \<Rightarrow> Inr (bs1, bitmap, 0, True)
         | (Some count, bs1) \<Rightarrow>
             bindE (set_block bitmap i lastBlockData) (\<lambda>bitmap1. Inr (bs1, bitmap1, count, failed)))
      else Inl (ERROR ''Invalid compression flag''))"

text \<open>The loop over the blocks, \<open>n\<close> of them left; it returns the bitmap, the repeat count and \<^verbatim>\<open>failed\<close>.\<close>

fun decompress_loop ::
  "nat \<Rightarrow> nat \<Rightarrow> Bitstream \<Rightarrow> uint32 list \<Rightarrow> uint32 \<Rightarrow> uint32 \<Rightarrow> bool
   \<Rightarrow> (uint32 list \<times> uint32 \<times> bool) result" where
  "decompress_loop 0 i bs bitmap lastBlockData rleRepeatCount failed =
     Inr (bitmap, rleRepeatCount, failed)"
| "decompress_loop (Suc n) i bs bitmap lastBlockData rleRepeatCount failed =
     (if rleRepeatCount = 0 then
        (case Bitstream_Get bs 2 of
           (None, bs1) \<Rightarrow> Inr (bitmap, rleRepeatCount, True)
         | (Some flag, bs1) \<Rightarrow>
             bindE (decompress_switch flag bs1 bitmap i lastBlockData failed)
               (\<lambda>(bs2, bitmap1, rle, failed1).
                  if i < length bitmap1
                  then decompress_loop n (Suc i) bs2 bitmap1 (bitmap1 ! i) rle failed1
                  else Inl (UB ''bitmap read out of range'')))
      else
        bindE (set_block bitmap i lastBlockData)
          (\<lambda>bitmap1. decompress_loop n (Suc i) bs bitmap1 lastBlockData (rleRepeatCount - 1) failed))"

text \<open>\<^verbatim>\<open>memcpy\<close> of \<open>n\<close> blocks from offset \<open>off\<close> of the byte buffer to the start of the bitmap.\<close>

definition copy_blocks :: "uint32 list \<Rightarrow> uint8 list \<Rightarrow> nat \<Rightarrow> nat \<Rightarrow> uint32 list result" where
  "copy_blocks bitmap d off n =
     (if off + 4 * n \<le> length d \<and> n \<le> length bitmap
      then Inr (bytes_blocks (take (4 * n) (drop off d)) @ drop n bitmap)
      else Inl (UB ''memcpy out of range''))"

definition BitmapDecompress_Decompress ::
  "BitmapDecompressState \<Rightarrow> uint32 list \<Rightarrow> nat \<Rightarrow> uint32 list result" where
  "BitmapDecompress_Decompress state bitmap bitmapDataSize =
     (if blockCount state > bitmapDataSize then
        Inl (ERROR ''invalid block count for bitmap during decompression'')
      else if compressionType state = BITMAP_COMPRESSION_TYPE_NO then
        (let (off, bs) = Bitstream_GetAlignedData (bitstream state) 16
         in copy_blocks bitmap (data bs) off (blockCount state))
      else if compressionType state = BITMAP_COMPRESSION_TYPE_DEFAULT then
        bindE (decompress_loop (blockCount state) 0 (bitstream state) bitmap 0 0 False)
          (\<lambda>(bitmap1, rleRepeatCount, failed).
             if rleRepeatCount > 0 then Inl (ERROR ''illegal RLE state after bitmap decompression'')
             else if failed then Inl (ERROR ''bitstream read error seen during decompression'')
             else Inr bitmap1)
      else Inl (ERROR ''illegal compression type during bitmap decompression''))"

text \<open>The loop that writes the flag \<open>n\<close> more times.\<close>

fun repeat_flag :: "nat \<Rightarrow> Bitstream \<Rightarrow> uint32 \<Rightarrow> bool \<times> Bitstream" where
  "repeat_flag 0 bs flag = (True, bs)"
| "repeat_flag (Suc n) bs flag =
     (case Bitstream_Put bs flag 2 of
        (ok, bs1) \<Rightarrow> if \<not> ok then (False, bs1) else repeat_flag n bs1 flag)"

definition Bitmap_EncodeRLE :: "Bitstream \<Rightarrow> nat \<Rightarrow> uint32 \<Rightarrow> bool \<times> Bitstream" where
  "Bitmap_EncodeRLE bs rleRepeatCount lastBlockFlag =
     (if lastBlockFlag = BITMAP_COMPRESSION_FLAG_RAW \<or> rleRepeatCount > 4 then
        (case Bitstream_Put bs BITMAP_COMPRESSION_FLAG_RLE 2 of
           (ok, bs1) \<Rightarrow>
             if \<not> ok then (False, bs1)
             else
               case Bitstream_Put bs1 (of_nat (rleRepeatCount - 1)) 8 of
                 (ok, bs2) \<Rightarrow> if \<not> ok then (False, bs2) else (True, bs2))
      else repeat_flag rleRepeatCount bs lastBlockFlag)"

text \<open>The three-way branch that writes one block; the second component is the new \<^verbatim>\<open>lastBlockFlag\<close>.\<close>

definition put_block :: "Bitstream \<Rightarrow> uint32 \<Rightarrow> bool \<times> uint32 \<times> Bitstream" where
  "put_block bs blockData =
     (if blockData = 0 then
        (case Bitstream_Put bs BITMAP_COMPRESSION_FLAG_ZERO 2 of
           (ok, bs1) \<Rightarrow> (ok, BITMAP_COMPRESSION_FLAG_ZERO, bs1))
      else if blockData = 0xFFFFFFFF then
        (case Bitstream_Put bs BITMAP_COMPRESSION_FLAG_ONE 2 of
           (ok, bs1) \<Rightarrow> (ok, BITMAP_COMPRESSION_FLAG_ONE, bs1))
      else
        (case Bitstream_Put bs BITMAP_COMPRESSION_FLAG_RAW 2 of
           (ok, bs1) \<Rightarrow>
             if \<not> ok then (False, BITMAP_COMPRESSION_FLAG_RAW, bs1)
             else
               case Bitstream_Put bs1 blockData 32 of
                 (ok, bs2) \<Rightarrow> (ok, BITMAP_COMPRESSION_FLAG_RAW, bs2)))"

fun compress_loop ::
  "uint32 list \<Rightarrow> nat \<Rightarrow> uint32 \<Rightarrow> uint32 \<Rightarrow> nat \<Rightarrow> Bitstream \<Rightarrow> bool \<times> Bitstream" where
  "compress_loop [] i lastBlockData lastBlockFlag rleRepeatCount bs =
     (if rleRepeatCount > 0 then Bitmap_EncodeRLE bs rleRepeatCount lastBlockFlag else (True, bs))"
| "compress_loop (blockData # bitmap) i lastBlockData lastBlockFlag rleRepeatCount bs =
     (if blockData = lastBlockData \<and> rleRepeatCount \<le> 255 \<and> i > 0 then
        compress_loop bitmap (Suc i) lastBlockData lastBlockFlag (rleRepeatCount + 1) bs
      else
        case (if rleRepeatCount > 0 then Bitmap_EncodeRLE bs rleRepeatCount lastBlockFlag
              else (True, bs)) of
          (ok, bs1) \<Rightarrow>
            if \<not> ok then (False, bs1)
            else
              case put_block bs1 blockData of
                (ok, flag, bs2) \<Rightarrow>
                  if \<not> ok then (False, bs2)
                  else compress_loop bitmap (Suc i) blockData flag 0 bs2)"

definition Bitmap_Compress_Default :: "uint32 list \<Rightarrow> Bitstream \<Rightarrow> bool \<times> Bitstream" where
  "Bitmap_Compress_Default bitmap bs = compress_loop bitmap 0 0 0 0 bs"

definition Bitmap_Compress_Write_Header :: "uint32 \<Rightarrow> nat \<Rightarrow> Bitstream \<Rightarrow> bool \<times> Bitstream" where
  "Bitmap_Compress_Write_Header ctype count bs =
     (case Bitstream_Put bs ctype 1 of
        (ok, bs1) \<Rightarrow>
          if \<not> ok then (False, bs1)
          else
            case Bitstream_Skip bs1 3 of
              (ok, bs2) \<Rightarrow>
                if \<not> ok then (False, bs2)
                else
                  case Bitstream_Put bs2 (of_nat count) 12 of
                    (ok, bs3) \<Rightarrow> if \<not> ok then (False, bs3) else (True, bs3))"

text \<open>
  \<^verbatim>\<open>Bitmap_Compress\<close> clears the caller's buffer of \<^verbatim>\<open>maxOutDataSize\<close> bytes first, so only its
  size is an argument; the result is the number of bytes used and the buffer.
\<close>

function Bitmap_Compress :: "uint32 \<Rightarrow> uint32 list \<Rightarrow> nat \<Rightarrow> (nat \<times> uint8 list) result" where
  "Bitmap_Compress ctype bitmap maxOutDataSize =
     (case Bitmap_Compress_Write_Header ctype (length bitmap)
             (Bitstream_Init (replicate maxOutDataSize 0) maxOutDataSize) of
        (ok, bs) \<Rightarrow>
          if \<not> ok then Inl (ERROR ''Failed to write bitmap compression header'')
          else if ctype = BITMAP_COMPRESSION_TYPE_NO then
            (if bitmap = [] then Inr (2, data bs)
             else
               let (off, bs1) = Bitstream_GetAlignedData bs 16;
                   src = block_bytes bitmap
               in if off + length src \<le> length (data bs1)
                  then Inr (4 * length bitmap + 2,
                            take off (data bs1) @ src @ drop (off + length src) (data bs1))
                  else Inl (UB ''memcpy out of range''))
          else if ctype = BITMAP_COMPRESSION_TYPE_DEFAULT then
            (case Bitmap_Compress_Default bitmap bs of
               (ok, bs1) \<Rightarrow>
                 if \<not> ok then Bitmap_Compress BITMAP_COMPRESSION_TYPE_NO bitmap maxOutDataSize
                 else Inr (Bitstream_GetLength bs1, data bs1))
          else Inl (ERROR ''illegal compression type during bitmap compression''))"
  by pat_completeness auto
termination
  by (relation "measure (\<lambda>(ctype, _, _). if ctype = BITMAP_COMPRESSION_TYPE_NO then 0 else 1)") auto

declare Bitmap_Compress.simps [simp del]

text \<open>The counts for a 64-bit \<^verbatim>\<open>bitmapword\<close>: blocks on disk and words in memory.\<close>

definition BitmapDecompress_CalculateBlockCounts :: "BitmapDecompressState \<Rightarrow> nat \<times> nat" where
  "BitmapDecompress_CalculateBlockCounts state =
     (let onDiskBlockCount = BitmapDecompress_GetBlockCount state in
      (onDiskBlockCount, if onDiskBlockCount = 1 then 1 else onDiskBlockCount div 2))"

definition BitmapCompress_CalculateBlockCounts :: "bms \<Rightarrow> nat \<times> nat" where
  "BitmapCompress_CalculateBlockCounts bitmap =
     (case bitmap of
        None \<Rightarrow> (0, 0)
      | Some r \<Rightarrow>
          (if nwords r = 1 \<and> drop_bit 32 (words r ! 0) = 0 then 1 else nwords r * 2, nwords r))"


section \<open>Memory images of blocks\<close>

lemma length_block_bytes [simp]: "length (block_bytes ws) = 4 * length ws"
  by (induction ws) (simp_all add: block_bytes_def u32_bytes_def)

lemma u32_bytes_join:
  "(ucast (ucast w :: uint8) OR push_bit 8 (ucast (ucast (drop_bit 8 w) :: uint8)) OR
    push_bit 16 (ucast (ucast (drop_bit 16 w) :: uint8)) OR
    push_bit 24 (ucast (ucast (drop_bit 24 w) :: uint8))) = (w :: uint32)"
proof (rule bit_word_eqI, goal_cases)
  case (1 n)
  then show ?case
    by (cases "24 \<le> n"; cases "16 \<le> n") (auto simp: bit_or_iff bit_push_bit_iff bit_ucast_iff bit_drop_bit_eq)
qed

lemma bytes_blocks_inverse [simp]: "bytes_blocks (block_bytes ws) = ws"
  by (induction ws) (simp_all add: block_bytes_def u32_bytes_def u32_bytes_join)

section \<open>Tokens\<close>

text \<open>
  The default encoding as a list of tokens, the blocks that a token list stands for after
  a given last block, and the fields it is written as.
\<close>

datatype token = TZero | TOne | TRaw uint32 | TRle nat

fun token_fields :: "token \<Rightarrow> (uint32 \<times> nat) list" where
  "token_fields TZero = [(BITMAP_COMPRESSION_FLAG_ZERO, 2)]"
| "token_fields TOne = [(BITMAP_COMPRESSION_FLAG_ONE, 2)]"
| "token_fields (TRaw w) = [(BITMAP_COMPRESSION_FLAG_RAW, 2), (w, 32)]"
| "token_fields (TRle n) = [(BITMAP_COMPRESSION_FLAG_RLE, 2), (of_nat n, 8)]"

fun token_ok :: "token \<Rightarrow> bool" where
  "token_ok (TRle n) \<longleftrightarrow> n < 256"
| "token_ok _ \<longleftrightarrow> True"

fun expand :: "uint32 \<Rightarrow> token list \<Rightarrow> uint32 list" where
  "expand b [] = []"
| "expand b (TZero # ts) = 0 # expand 0 ts"
| "expand b (TOne # ts) = 0xFFFFFFFF # expand 0xFFFFFFFF ts"
| "expand b (TRaw w # ts) = w # expand w ts"
| "expand b (TRle n # ts) = b # replicate n b @ expand b ts"

definition block_token :: "uint32 \<Rightarrow> token" where
  "block_token b = (if b = 0 then TZero else if b = 0xFFFFFFFF then TOne else TRaw b)"

definition block_flag :: "uint32 \<Rightarrow> uint32" where
  "block_flag b =
     (if b = 0 then BITMAP_COMPRESSION_FLAG_ZERO
      else if b = 0xFFFFFFFF then BITMAP_COMPRESSION_FLAG_ONE else BITMAP_COMPRESSION_FLAG_RAW)"

definition rle_tokens :: "nat \<Rightarrow> uint32 \<Rightarrow> token list" where
  "rle_tokens n b =
     (if n = 0 then [] else if block_flag b = BITMAP_COMPRESSION_FLAG_RAW \<or> n > 4 then [TRle (n - 1)]
      else replicate n (block_token b))"

fun loop_tokens :: "uint32 list \<Rightarrow> nat \<Rightarrow> uint32 \<Rightarrow> nat \<Rightarrow> token list" where
  "loop_tokens [] i b n = rle_tokens n b"
| "loop_tokens (c # cs) i b n =
     (if c = b \<and> n \<le> 255 \<and> i > 0 then loop_tokens cs (Suc i) b (n + 1)
      else rle_tokens n b @ block_token c # loop_tokens cs (Suc i) c 0)"

definition tokens_fields :: "token list \<Rightarrow> (uint32 \<times> nat) list" where
  "tokens_fields ts = concat (map token_fields ts)"

lemma tokens_fields_simps [simp]:
  "tokens_fields [] = []" "tokens_fields (t # ts) = token_fields t @ tokens_fields ts"
  "tokens_fields (ts @ us) = tokens_fields ts @ tokens_fields us"
  by (simp_all add: tokens_fields_def)

lemma token_fields_ok: "token_ok t \<Longrightarrow> fields_ok (token_fields t)"
proof (cases t)
  case (TRle n)
  assume "token_ok t"
  with TRle have "take_bit 8 (of_nat n) = (of_nat n :: uint32)"
    by (simp add: take_bit_of_nat take_bit_nat_eq_self)
  with TRle show ?thesis by (simp add: compression_consts take_bit_numeral_numeral)
qed (simp_all add: compression_consts take_bit_numeral_numeral take_bit_word_eq_self)

lemma tokens_fields_ok: "list_all token_ok ts \<Longrightarrow> fields_ok (tokens_fields ts)"
  by (induction ts) (simp_all add: token_fields_ok)

lemma expand_block: "expand b (block_token c # ts) = c # expand c ts"
  by (simp add: block_token_def)

lemma expand_rle: "expand b (rle_tokens n b @ ts) = replicate n b @ expand b ts"
proof -
  have "expand b (replicate n (block_token b) @ ts) = replicate n b @ expand b ts"
    by (induction n) (simp_all add: expand_block)
  then show ?thesis by (cases n) (auto simp: rle_tokens_def)
qed

lemma expand_loop_tokens: "expand b (loop_tokens cs i b n) = replicate n b @ cs"
proof (induction cs i b n rule: loop_tokens.induct)
  case (1 i b n)
  then show ?case using expand_rle [of b n "[]"] by simp
next
  case (2 c cs i b n)
  then show ?case by (auto simp: expand_rle expand_block replicate_app_Cons_same)
qed

lemma loop_tokens_ok: "n \<le> 256 \<Longrightarrow> list_all token_ok (loop_tokens cs i b n)"
proof (induction cs i b n rule: loop_tokens.induct)
  case (2 c cs i b n)
  then show ?case by (auto simp: rle_tokens_def list_all_iff block_token_def)
qed (auto simp: rle_tokens_def list_all_iff block_token_def)

section \<open>The compressor writes the tokens\<close>

lemma repeat_flag_fields: "repeat_flag n bs flag = put_fields Bitstream_Put bs (replicate n (flag, 2))"
  by (induction n arbitrary: bs) (auto split: prod.split)

lemma EncodeRLE_fields:
  assumes "n > 0"
  shows "Bitmap_EncodeRLE bs n (block_flag b) = put_fields Bitstream_Put bs (tokens_fields (rle_tokens n b))"
proof -
  have "tokens_fields (replicate k (block_token b)) = replicate k (block_flag b, 2)"
    if "block_flag b \<noteq> BITMAP_COMPRESSION_FLAG_RAW" for k
  proof -
    have "token_fields (block_token b) = [(block_flag b, 2)]"
      using that by (auto simp: block_token_def block_flag_def split: if_splits)
    then show ?thesis by (induction k) simp_all
  qed
  with assms show ?thesis
    by (auto simp: Bitmap_EncodeRLE_def rle_tokens_def repeat_flag_fields split: prod.split)
qed

lemma put_block_fields:
  "put_block bs b = (case put_fields Bitstream_Put bs (token_fields (block_token b)) of
     (ok, bs') \<Rightarrow> (ok, block_flag b, bs'))"
  by (auto simp: put_block_def block_token_def block_flag_def split: prod.split)

lemma compress_loop_fields:
  "compress_loop cs i b (block_flag b) n bs =
     put_fields Bitstream_Put bs (tokens_fields (loop_tokens cs i b n))"
proof (induction cs arbitrary: i b n bs)
  case Nil
  then show ?case by (auto simp: EncodeRLE_fields rle_tokens_def)
next
  case (Cons c cs)
  have rle: "(if n > 0 then Bitmap_EncodeRLE bs n (block_flag b) else (True, bs)) =
      put_fields Bitstream_Put bs (tokens_fields (rle_tokens n b))"
    by (auto simp: EncodeRLE_fields rle_tokens_def)
  show ?case
    by (auto simp only: compress_loop.simps loop_tokens.simps rle Cons.IH tokens_fields_simps
          put_fields_append put_block_fields split: prod.split if_split)
qed

section \<open>The decompressor reads them back\<close>

lemma set_block_in: "i < length bm \<Longrightarrow> set_block bm i v = Inr (bm[i := v])"
  by (simp add: set_block_def)

text \<open>The bitmap with \<open>xs\<close> written from index \<open>i\<close> on.\<close>

definition overlay :: "uint32 list \<Rightarrow> nat \<Rightarrow> uint32 list \<Rightarrow> uint32 list" where
  "overlay bm i xs = take i bm @ xs @ drop (i + length xs) bm"

lemma overlay_Nil [simp]: "overlay bm i [] = bm"
  by (simp add: overlay_def)

lemma length_overlay [simp]: "i + length xs \<le> length bm \<Longrightarrow> length (overlay bm i xs) = length bm"
  by (simp add: overlay_def)

lemma overlay_Cons:
  "i + Suc (length xs) \<le> length bm \<Longrightarrow> overlay (bm[i := x]) (Suc i) xs = overlay bm i (x # xs)"
  by (simp add: overlay_def take_Suc_conv_app_nth drop_update_cancel)

lemma overlay_append:
  "i + length xs + length ys \<le> length bm \<Longrightarrow> overlay (overlay bm i xs) (i + length xs) ys = overlay bm i (xs @ ys)"
  by (simp add: overlay_def add_ac)

lemma decompress_run:
  "i + n \<le> length bm \<Longrightarrow> n < 2 ^ 32 \<Longrightarrow>
   decompress_loop (n + m) i bs bm b (of_nat n) failed =
     decompress_loop m (i + n) bs (overlay bm i (replicate n b)) b 0 failed"
proof (induction n arbitrary: i bm)
  case (Suc n)
  have "(of_nat (Suc n) :: uint32) \<noteq> 0"
    using Suc.prems(2) by (simp only: word_of_nat_eq_0_iff) (auto dest: dvd_imp_le)
  with Suc show ?case
    by (simp add: set_block_in overlay_Cons [of _ "replicate n b", simplified])
qed simp

lemma Get_field:
  "holds bs (enc n v @ ys) \<Longrightarrow> take_bit n v = v \<Longrightarrow> \<exists>bs'. Bitstream_Get bs n = (Some v, bs') \<and> holds bs' ys"
  by (rule bstream.get_ok)

lemma decompress_switch_token:
  assumes "holds bs (fields_bits (token_fields t) @ ys)" and "token_ok t" and "i < length bm"
  shows "\<exists>flag bs1 bs2. Bitstream_Get bs 2 = (Some flag, bs1) \<and>
    decompress_switch flag bs1 bm i b failed =
      Inr (bs2, bm[i := hd (expand b [t])], (case t of TRle n \<Rightarrow> of_nat n | _ \<Rightarrow> 0), failed) \<and>
    holds bs2 ys"
proof -
  obtain flag rest where f: "token_fields t = (flag, 2) # rest" by (cases t) auto
  have ok: "fields_ok (token_fields t)" using assms(2) by (rule token_fields_ok)
  with assms(1) f obtain bs1 where bs1: "Bitstream_Get bs 2 = (Some flag, bs1)" "holds bs1 (fields_bits rest @ ys)"
    using Get_field [of bs 2 flag "fields_bits rest @ ys"] by auto
  show ?thesis
  proof (cases t)
    case (TRaw w)
    with f ok bs1 Get_field [of bs1 32 w ys] assms(3) show ?thesis
      by (auto simp: decompress_switch_def compression_consts set_block_in)
  next
    case (TRle n)
    with f ok bs1 Get_field [of bs1 8 "of_nat n" ys] assms(3) show ?thesis
      by (auto simp: decompress_switch_def compression_consts set_block_in)
  qed (use f bs1 assms(3) in \<open>auto simp: decompress_switch_def compression_consts set_block_in\<close>)
qed

lemma decompress_loop_tokens:
  "holds bs (fields_bits (tokens_fields ts) @ ys) \<Longrightarrow> list_all token_ok ts \<Longrightarrow>
   i + length (expand b ts) \<le> length bm \<Longrightarrow>
   decompress_loop (length (expand b ts)) i bs bm b 0 False = Inr (overlay bm i (expand b ts), 0, False)"
proof (induction ts arbitrary: bs i b bm)
  case (Cons t ts)
  let ?x = "hd (expand b [t])"
  define k where "k = (case t of TRle n \<Rightarrow> n | _ \<Rightarrow> 0)"
  have exp: "expand b (t # ts) = ?x # replicate k ?x @ expand ?x ts" by (cases t) (simp_all add: k_def)
  have k: "k < 256" "(case t of TRle n \<Rightarrow> of_nat n | _ \<Rightarrow> 0) = (of_nat k :: uint32)"
    using Cons.prems(2) by (cases t; simp add: k_def)+
  have "i < length bm" using Cons.prems(3) exp by simp
  with Cons.prems decompress_switch_token [of bs t "fields_bits (tokens_fields ts) @ ys" i bm b False]
  obtain flag bs1 bs2 where step: "Bitstream_Get bs 2 = (Some flag, bs1)"
    "decompress_switch flag bs1 bm i b False = Inr (bs2, bm[i := ?x], of_nat k, False)"
    "holds bs2 (fields_bits (tokens_fields ts) @ ys)" by (auto simp: k(2))
  let ?bm = "bm[i := ?x]" and ?n = "length (expand ?x ts)"
  have "decompress_loop (length (expand b (t # ts))) i bs bm b 0 False =
      decompress_loop (k + ?n) (Suc i) bs2 ?bm ?x (of_nat k) False"
    using step \<open>i < length bm\<close> by (simp only: exp list.size length_append length_replicate) simp
  also have "\<dots> = decompress_loop ?n (Suc i + k) bs2 (overlay ?bm (Suc i) (replicate k ?x)) ?x 0 False"
    using Cons.prems(3) k(1) exp by (intro decompress_run) auto
  also have "\<dots> = Inr (overlay (overlay ?bm (Suc i) (replicate k ?x)) (Suc i + k) (expand ?x ts), 0, False)"
    using Cons.prems exp step(3) by (intro Cons.IH) auto
  also have "overlay (overlay ?bm (Suc i) (replicate k ?x)) (Suc i + k) (expand ?x ts) =
      overlay ?bm (Suc i) (replicate k ?x @ expand ?x ts)"
    using Cons.prems(3) exp overlay_append [of "Suc i" "replicate k ?x" "expand ?x ts" ?bm] by simp
  also have "\<dots> = overlay bm i (expand b (t # ts))"
    using Cons.prems(3) exp by (simp only: exp) (rule overlay_Cons, simp)
  finally show ?case .
qed simp

section \<open>The header\<close>

definition header_bits :: "uint32 \<Rightarrow> nat \<Rightarrow> bool list" where
  "header_bits ctype n = enc 1 ctype @ replicate 3 False @ enc 12 (of_nat n)"

lemma length_header_bits [simp]: "length (header_bits ctype n) = 16"
  by (simp add: header_bits_def)

lemma Skip_wrote:
  assumes "wrote bs xs" and "length xs < 8 * dataSize bs" and "length xs + k \<le> 8 * dataSize bs" and "k < 8"
  shows "\<exists>bs'. Bitstream_Skip bs k = (True, bs') \<and> wrote bs' (xs @ replicate k False) \<and> dataSize bs' = dataSize bs"
proof -
  have ok: "stream_ok bs" "Bitstream_GetOffset bs = length xs" using assms(1) by (auto simp: wrote_def)
  then have "Bitstream_CheckForError bs = (True, bs)" "bitOffset bs < 8" using check_ok [of bs] assms(2) by auto
  moreover have "(bitOffset bs + k) mod 2 ^ 32 = bitOffset bs + k" using \<open>bitOffset bs < 8\<close> assms(4) by simp
  moreover have "8 * dataSize bs - length xs = k + (8 * dataSize bs - (length xs + k))" using assms(3) by simp
  then have "replicate (8 * dataSize bs - length xs) False =
      replicate k False @ replicate (8 * dataSize bs - (length xs + k)) False" by (simp only: replicate_add)
  ultimately show ?thesis
    using assms ok by (auto simp: Bitstream_Skip_def wrote_def stream_ok_def Bitstream_GetOffset_def Let_def)
qed

lemma Skip_holds:
  assumes "holds bs (xs @ ys)" and "length xs < 8" and "xs \<noteq> []"
  shows "\<exists>bs'. Bitstream_Skip bs (length xs) = (True, bs') \<and> holds bs' ys \<and>
    data bs' = data bs \<and> dataSize bs' = dataSize bs"
proof -
  let ?o = "Bitstream_GetOffset bs" and ?d = "take (dataSize bs) (data bs)"
  have ok: "stream_ok bs" and drop: "drop ?o (stream_bits ?d) = xs @ ys" using assms(1) by (auto simp: holds_def)
  have len: "?o + length xs \<le> 8 * dataSize bs"
    using arg_cong [OF drop, of length] ok by (auto simp: stream_ok_def)
  have less: "?o < 8 * dataSize bs" using len assms(3) by (cases xs) auto
  then have "Bitstream_CheckForError bs = (True, bs)" "bitOffset bs < 8" using check_ok [OF ok] by auto
  moreover have "drop (?o + length xs) (stream_bits ?d) = ys"
    using arg_cong [OF drop, of "drop (length xs)"] by (simp add: add.commute)
  moreover have "(bitOffset bs + length xs) mod 2 ^ 32 = bitOffset bs + length xs"
    using \<open>bitOffset bs < 8\<close> assms(2) by simp
  ultimately show ?thesis
    using ok len by (auto simp: Bitstream_Skip_def holds_def stream_ok_def Bitstream_GetOffset_def Let_def algebra_simps)
qed

lemma Write_Header_wrote:
  assumes "2 \<le> n"
  shows "\<exists>bs. Bitmap_Compress_Write_Header ctype count (Bitstream_Init (replicate n 0) n) = (True, bs) \<and>
     wrote bs (header_bits ctype count) \<and> dataSize bs = n"
proof -
  let ?bs = "Bitstream_Init (replicate n 0) n"
  have "dataSize ?bs = n" by (simp add: Bitstream_Init_def)
  with assms bstream.put_room [OF wrote_Init, of 1 n ctype] obtain bs1
    where 1: "Bitstream_Put ?bs ctype 1 = (True, bs1)" "wrote bs1 (enc 1 ctype)" "dataSize bs1 = n" by auto
  with assms Skip_wrote [of bs1 "enc 1 ctype" 3] obtain bs2
    where 2: "Bitstream_Skip bs1 3 = (True, bs2)" "wrote bs2 (enc 1 ctype @ replicate 3 False)" "dataSize bs2 = n"
    by auto
  with assms bstream.put_room [OF 2(2), of 12 "of_nat count"] obtain bs3
    where "Bitstream_Put bs2 (of_nat count) 12 = (True, bs3)"
      "wrote bs3 ((enc 1 ctype @ replicate 3 False) @ enc 12 (of_nat count))" "dataSize bs3 = n" by auto
  with 1 2 show ?thesis by (simp add: Bitmap_Compress_Write_Header_def header_bits_def)
qed

lemma GetBit_data:
  "data (snd (Bitstream_GetBit bs)) = data bs \<and> dataSize (snd (Bitstream_GetBit bs)) = dataSize bs"
  by (simp add: Bitstream_GetBit_def Bitstream_CheckForError_def Let_def stream_simps)

lemma get_loop_data: "data (snd (get_loop n v bs)) = data bs \<and> dataSize (snd (get_loop n v bs)) = dataSize bs"
proof (induction n arbitrary: v bs)
  case (Suc n)
  then show ?case using GetBit_data [of bs] by (auto split: prod.split option.split)
qed simp

lemma Get_data: "Bitstream_Get bs n = (r, bs') \<Longrightarrow> data bs' = data bs \<and> dataSize bs' = dataSize bs"
  using get_loop_data [of n 0 bs] by (simp add: Bitstream_Get_def)

lemma Decompress_Init_ok:
  assumes "stream_bits (take len d) = header_bits ctype n @ ys" and "len \<le> length d"
    and "take_bit 1 ctype = ctype" and "n < 4096"
  shows "\<exists>st. BitmapDecompress_Init st0 d len = (True, st) \<and> compressionType st = ctype \<and>
     blockCount st = n \<and> holds (bitstream st) ys \<and> data (bitstream st) = d \<and> dataSize (bitstream st) = len"
proof -
  let ?bs = "Bitstream_Init d len"
  have "holds ?bs (enc 1 ctype @ replicate 3 False @ enc 12 (of_nat n) @ ys)"
    using holds_Init [OF assms(2)] assms(1) by (simp add: header_bits_def)
  from Get_field [OF this assms(3)] obtain bs1 where
    1: "Bitstream_Get ?bs 1 = (Some ctype, bs1)" "holds bs1 (replicate 3 False @ enc 12 (of_nat n) @ ys)" by blast
  have "replicate 3 False \<noteq> []" "length (replicate 3 False) < 8" by simp_all
  from Skip_holds [OF 1(2) this(2,1)] obtain bs2 where
    2: "Bitstream_Skip bs1 3 = (True, bs2)" "holds bs2 (enc 12 (of_nat n) @ ys)" "data bs2 = data bs1"
      "dataSize bs2 = dataSize bs1" by auto
  have "take_bit 12 (of_nat n) = (of_nat n :: uint32)"
    using assms(4) by (simp add: take_bit_of_nat take_bit_nat_eq_self)
  from Get_field [OF 2(2) this] obtain bs3 where
    3: "Bitstream_Get bs2 12 = (Some (of_nat n), bs3)" "holds bs3 ys" by blast
  have "data bs3 = d" "dataSize bs3 = len"
    using Get_data [OF 1(1)] Get_data [OF 3(1)] 2(3,4) by (simp_all add: Bitstream_Init_def)
  moreover have "unat (of_nat n :: uint32) = n" using assms(4) by (simp add: unsigned_of_nat take_bit_nat_eq_self)
  ultimately show ?thesis using 1 2 3 by (simp add: BitmapDecompress_Init_def)
qed

lemma holds_offset: "holds bs ys \<Longrightarrow> Bitstream_GetOffset bs + length ys = 8 * dataSize bs"
  by (auto simp: holds_def stream_ok_def)

section \<open>Round trip\<close>

text \<open>The two shapes of a compressed bitmap.\<close>

definition raw_image :: "uint32 list \<Rightarrow> uint8 list \<Rightarrow> bool" where
  "raw_image bitmap d \<longleftrightarrow> (\<exists>h. d = h @ block_bytes bitmap \<and> length h = 2 \<and>
     stream_bits h = header_bits BITMAP_COMPRESSION_TYPE_NO (length bitmap))"

definition default_image :: "uint32 list \<Rightarrow> uint8 list \<Rightarrow> bool" where
  "default_image bitmap d \<longleftrightarrow> (\<exists>ts ys. list_all token_ok ts \<and> expand 0 ts = bitmap \<and>
     stream_bits d = header_bits BITMAP_COMPRESSION_TYPE_DEFAULT (length bitmap) @ fields_bits (tokens_fields ts) @ ys)"

lemma compress_raw:
  assumes "4 * length bitmap + 2 \<le> n"
  shows "\<exists>len out. Bitmap_Compress BITMAP_COMPRESSION_TYPE_NO bitmap n = Inr (len, out) \<and>
    2 \<le> len \<and> len \<le> n \<and> length out = n \<and> raw_image bitmap (take len out)"
proof -
  from assms Write_Header_wrote [of n BITMAP_COMPRESSION_TYPE_NO "length bitmap"] obtain bs where
    bs: "Bitmap_Compress_Write_Header BITMAP_COMPRESSION_TYPE_NO (length bitmap) (Bitstream_Init (replicate n 0) n) = (True, bs)"
      "wrote bs (header_bits BITMAP_COMPRESSION_TYPE_NO (length bitmap))" "dataSize bs = n" by auto
  have off: "Bitstream_GetOffset bs = 16" and len: "length (data bs) = n" and lt: "bitOffset bs < 8"
    using bs by (auto simp: wrote_def stream_ok_def)
  then have byte: "byteOffset bs = 2" by (simp add: Bitstream_GetOffset_def)
  have "stream_bits (take 2 (data bs)) = take 16 (stream_bits (data bs))" by (simp add: stream_bits_take)
  also have "\<dots> = header_bits BITMAP_COMPRESSION_TYPE_NO (length bitmap)"
    using bs by (simp add: wrote_def)
  finally have h: "stream_bits (take 2 (data bs)) = header_bits BITMAP_COMPRESSION_TYPE_NO (length bitmap)" .
  have al: "Bitstream_GetAlignedData bs 16 = (2, bs)"
    using off byte by (simp add: Bitstream_GetAlignedData_def Bitstream_Align_def)
  show ?thesis
  proof (cases "bitmap = []")
    case True
    with bs(1) h len assms show ?thesis
      by (auto simp: Bitmap_Compress.simps raw_image_def block_bytes_def intro!: exI [of _ "take 2 (data bs)"])
  next
    case False
    let ?out = "take 2 (data bs) @ block_bytes bitmap @ drop (2 + 4 * length bitmap) (data bs)"
    have "Bitmap_Compress BITMAP_COMPRESSION_TYPE_NO bitmap n = Inr (4 * length bitmap + 2, ?out)"
      using False bs(1) al len assms by (simp add: Bitmap_Compress.simps Let_def)
    moreover have "raw_image bitmap (take (4 * length bitmap + 2) ?out)"
      using h len assms by (auto simp: raw_image_def numeral_2_eq_2)
    ultimately show ?thesis using len assms by auto
  qed
qed

lemma compress_default:
  assumes "4 * length bitmap + 2 \<le> n"
  shows "\<exists>len out. Bitmap_Compress BITMAP_COMPRESSION_TYPE_DEFAULT bitmap n = Inr (len, out) \<and>
    2 \<le> len \<and> len \<le> n \<and> length out = n \<and>
    (raw_image bitmap (take len out) \<or> default_image bitmap (take len out))"
proof -
  let ?t = BITMAP_COMPRESSION_TYPE_DEFAULT
  let ?ts = "loop_tokens bitmap 0 0 0"
  from assms Write_Header_wrote [of n ?t "length bitmap"] obtain bs where
    bs: "Bitmap_Compress_Write_Header ?t (length bitmap) (Bitstream_Init (replicate n 0) n) = (True, bs)"
      "wrote bs (header_bits ?t (length bitmap))" "dataSize bs = n" by auto
  obtain ok bs1 where fin: "Bitmap_Compress_Default bitmap bs = (ok, bs1)" by force
  have unfold: "Bitmap_Compress ?t bitmap n = (if ok then Inr (Bitstream_GetLength bs1, data bs1)
      else Bitmap_Compress BITMAP_COMPRESSION_TYPE_NO bitmap n)"
    using bs(1) fin by (subst Bitmap_Compress.simps) (simp add: compression_consts)
  show ?thesis
  proof (cases ok)
    case True
    have "put_fields Bitstream_Put bs (tokens_fields ?ts) = (True, bs1)"
      using fin True compress_loop_fields [of bitmap 0 0 0 bs]
      by (simp add: Bitmap_Compress_Default_def block_flag_def compression_consts)
    from bstream.put_fields_wrote [OF bs(2) tokens_fields_ok this] loop_tokens_ok [of 0 bitmap 0 0] bs(3)
    have w: "wrote bs1 (header_bits ?t (length bitmap) @ fields_bits (tokens_fields ?ts))" (is "wrote _ ?xs")
      and size: "dataSize bs1 = n" by auto
    let ?len = "Bitstream_GetLength bs1"
    have offs: "length ?xs \<le> 8 * ?len" "?len \<le> n" "length (data bs1) = n"
      using w size Bitstream_GetLength_offset [of bs1] by (auto simp: wrote_def stream_ok_def)
    then have "stream_bits (take ?len (data bs1)) =
        ?xs @ take (8 * ?len - length ?xs) (replicate (8 * n - length ?xs) False)"
      using w size by (simp add: stream_bits_take wrote_def)
    then have "default_image bitmap (take ?len (data bs1))"
      using loop_tokens_ok [of 0 bitmap 0 0] expand_loop_tokens [of 0 bitmap 0 0]
      unfolding default_image_def by (intro exI [of _ ?ts]) auto
    moreover have "2 \<le> ?len" using offs(1) by simp
    ultimately show ?thesis using unfold True offs by auto
  next
    case False
    with unfold compress_raw [OF assms] show ?thesis by auto
  qed
qed

lemma decompress_raw:
  assumes "raw_image bitmap (take len d)" and "len \<le> length d"
    and "length bitmap < 4096" and "length bitmap \<le> length buf"
  shows "\<exists>st. BitmapDecompress_Init st0 d len = (True, st) \<and> blockCount st = length bitmap \<and>
    \<not> BitmapDecompress_HasError st \<and>
    BitmapDecompress_Decompress st buf (length bitmap) = Inr (bitmap @ drop (length bitmap) buf)"
proof -
  from assms(1) obtain h where h: "take len d = h @ block_bytes bitmap" "length h = 2"
    "stream_bits h = header_bits BITMAP_COMPRESSION_TYPE_NO (length bitmap)" by (auto simp: raw_image_def)
  then have bits: "stream_bits (take len d) = header_bits BITMAP_COMPRESSION_TYPE_NO (length bitmap) @ stream_bits (block_bytes bitmap)"
    by simp
  have "take_bit 1 BITMAP_COMPRESSION_TYPE_NO = BITMAP_COMPRESSION_TYPE_NO" by (simp add: compression_consts)
  from Decompress_Init_ok [OF bits assms(2) this assms(3), of st0] obtain st where
    st: "BitmapDecompress_Init st0 d len = (True, st)" "compressionType st = BITMAP_COMPRESSION_TYPE_NO"
      "blockCount st = length bitmap" "holds (bitstream st) (stream_bits (block_bytes bitmap))"
      "data (bitstream st) = d" "dataSize (bitstream st) = len" by blast
  have len: "len = 2 + 4 * length bitmap" using arg_cong [OF h(1), of length] h(2) assms(2) by simp
  have "take (4 * length bitmap) (drop 2 d) = drop 2 (take len d)" by (simp add: len drop_take)
  also have "\<dots> = block_bytes bitmap" using h by simp
  finally have src: "take (4 * length bitmap) (drop 2 d) = block_bytes bitmap" .
  have "Bitstream_GetOffset (bitstream st) = 16" using holds_offset [OF st(4)] st(6) len by simp
  moreover have "bitOffset (bitstream st) < 8" "\<not> error (bitstream st)"
    using holds_ok [OF st(4)] by (auto simp: stream_ok_def)
  ultimately have "Bitstream_GetAlignedData (bitstream st) 16 = (2, bitstream st)"
    by (simp add: Bitstream_GetAlignedData_def Bitstream_Align_def Bitstream_GetOffset_def Let_def)
  with st src len assms(2,4) \<open>\<not> error (bitstream st)\<close> show ?thesis
    by (simp add: BitmapDecompress_Decompress_def copy_blocks_def BitmapDecompress_HasError_def Bitstream_HasError_def)
qed

lemma decompress_default:
  assumes "default_image bitmap (take len d)" and "len \<le> length d"
    and "length bitmap < 4096" and "length bitmap \<le> length buf"
  shows "\<exists>st. BitmapDecompress_Init st0 d len = (True, st) \<and> blockCount st = length bitmap \<and>
    \<not> BitmapDecompress_HasError st \<and>
    BitmapDecompress_Decompress st buf (length bitmap) = Inr (bitmap @ drop (length bitmap) buf)"
proof -
  let ?t = BITMAP_COMPRESSION_TYPE_DEFAULT
  from assms(1) obtain ts ys where ts: "list_all token_ok ts" "expand 0 ts = bitmap"
    "stream_bits (take len d) = header_bits ?t (length bitmap) @ fields_bits (tokens_fields ts) @ ys"
    by (auto simp: default_image_def)
  have "take_bit 1 ?t = ?t" by (simp add: compression_consts)
  from Decompress_Init_ok [OF ts(3) assms(2) this assms(3), of st0] obtain st where
    st: "BitmapDecompress_Init st0 d len = (True, st)" "compressionType st = ?t"
      "blockCount st = length bitmap" "holds (bitstream st) (fields_bits (tokens_fields ts) @ ys)" by blast
  from decompress_loop_tokens [OF st(4) ts(1), of 0 0 buf] ts(2) assms(4)
  have "decompress_loop (length bitmap) 0 (bitstream st) buf 0 0 False = Inr (overlay buf 0 bitmap, 0, False)"
    by simp
  moreover have "\<not> error (bitstream st)" using holds_ok [OF st(4)] by (auto simp: stream_ok_def)
  ultimately show ?thesis using st
    by (simp add: BitmapDecompress_Decompress_def compression_consts overlay_def
        BitmapDecompress_HasError_def Bitstream_HasError_def)
qed

section \<open>Memory safety\<close>

lemma decompress_switch_safe:
  assumes "i < length bm"
  shows "(case decompress_switch flag bs bm i b failed of
            Inl e \<Rightarrow> e = ERROR ''Invalid compression flag''
          | Inr (bs', bm', rle, failed') \<Rightarrow> length bm' = length bm)"
  using assms by (auto simp: decompress_switch_def set_block_in split: prod.split option.split)

lemma decompress_loop_safe:
  "i + n \<le> length bm \<Longrightarrow> decompress_loop n i bs bm b rle failed \<noteq> Inl (UB msg)"
proof (induction n arbitrary: i bs bm b rle failed)
  case (Suc n)
  show ?case
  proof (cases "rle = 0")
    case True
    have "i < length bm" using Suc.prems by simp
    have "bindE (decompress_switch flag bs1 bm i b failed)
        (\<lambda>(bs2, bm1, r, f). if i < length bm1 then decompress_loop n (Suc i) bs2 bm1 (bm1 ! i) r f
           else Inl (UB ''bitmap read out of range'')) \<noteq> Inl (UB msg)" for flag bs1
      using decompress_switch_safe [OF \<open>i < length bm\<close>, of flag bs1 b failed] Suc.prems
      by (auto simp: bindE_def Suc.IH split: sum.split)
    then show ?thesis using True by (auto split: prod.split option.split)
  next
    case False
    then show ?thesis using Suc by (simp add: set_block_in)
  qed
qed simp

section \<open>Properties\<close>

text \<open>
  C4: decompression inverts compression.  For either compression type, a bitmap of fewer
  than 4096 blocks and an output buffer that could hold it raw, \<^verbatim>\<open>Bitmap_Compress\<close> succeeds; the
  bytes it reports as used, whatever follows them in memory, decode to the same block count and,
  block for block, to the same bitmap, leaving the rest of the destination alone.
\<close>

theorem Bitmap_Compress_roundtrip:
  assumes "ctype = BITMAP_COMPRESSION_TYPE_NO \<or> ctype = BITMAP_COMPRESSION_TYPE_DEFAULT"
    and "length bitmap < 4096" and "4 * length bitmap + 2 \<le> maxOutDataSize"
    and "length bitmap \<le> length buf"
  shows "\<exists>len out st.
    Bitmap_Compress ctype bitmap maxOutDataSize = Inr (len, out) \<and>
    2 \<le> len \<and> len \<le> maxOutDataSize \<and> length out = maxOutDataSize \<and>
    BitmapDecompress_Init st0 (take len out @ rest) len = (True, st) \<and>
    blockCount st = length bitmap \<and> \<not> BitmapDecompress_HasError st \<and>
    BitmapDecompress_Decompress st buf (length bitmap) = Inr (bitmap @ drop (length bitmap) buf)"
proof -
  obtain len out where c: "Bitmap_Compress ctype bitmap maxOutDataSize = Inr (len, out)"
    "2 \<le> len" "len \<le> maxOutDataSize" "length out = maxOutDataSize"
    and image: "raw_image bitmap (take len out) \<or> default_image bitmap (take len out)"
    using assms(1) compress_raw [OF assms(3)] compress_default [OF assms(3)] by blast
  then have len: "take len (take len out @ rest) = take len out" "len \<le> length (take len out @ rest)" by simp_all
  from image show ?thesis
  proof
    assume "raw_image bitmap (take len out)"
    with decompress_raw [OF _ len(2) assms(2,4), of st0] len(1) c show ?thesis by auto
  next
    assume "default_image bitmap (take len out)"
    with decompress_default [OF _ len(2) assms(2,4), of st0] len(1) c show ?thesis by auto
  qed
qed

theorem Bitmap_Compress_roundtrip_witness:
  "\<exists>len out st.
    Bitmap_Compress BITMAP_COMPRESSION_TYPE_DEFAULT [0, 0, 7, 7] 18 = Inr (len, out) \<and>
    2 \<le> len \<and> len \<le> 18 \<and> length out = 18 \<and>
    BitmapDecompress_Init \<lparr>bitstream = Bitstream_Init [] 0, compressionType = 0, blockCount = 0\<rparr>
      (take len out @ [9]) len = (True, st) \<and>
    blockCount st = length [0, 0, 7, 7 :: uint32] \<and> \<not> BitmapDecompress_HasError st \<and>
    BitmapDecompress_Decompress st [1, 2, 3, 4] (length [0, 0, 7, 7 :: uint32]) =
      Inr ([0, 0, 7, 7] @ drop (length [0, 0, 7, 7 :: uint32]) [1, 2, 3, 4])"
  by (rule Bitmap_Compress_roundtrip) simp_all




end
