(* ===== verification/VisimapEntry.thy ===== *)
theory VisimapEntry
  imports AOTupleId BitmapCompression
begin

text \<open>
  The entries of the append-only visibility map,
  \<^verbatim>\<open>src/backend/access/appendonly/appendonly_visimap_entry.c\<close>.  An entry covers a range
  of 32768 row numbers of one segment file; its bitmap has the offsets of the
  hidden rows, and its data buffer is the compressed image of the bitmap that
  is stored in the auxiliary table.  The theory builds on the bitmapset
  package, on the bitmap compression and on the row identifiers; memory
  contexts and debug logging are left out.
\<close>

section \<open>Model\<close>

text \<open>
  \<^verbatim>\<open>AppendOnlyVisimapData\<close>: \<open>vl_len\<close> is \<^verbatim>\<open>VARSIZE\<close>, which counts the eight bytes of the two
  leading integers; \<open>vdata\<close> is the byte array.
\<close>

record AppendOnlyVisimapData =
  vl_len :: nat
  version :: int
  vdata :: "uint8 list"

record AppendOnlyVisimapEntry =
  visidata :: "AppendOnlyVisimapData option"
  bitmap :: bms
  segmentFileNum :: int
  firstRowNum :: int
  dirty :: bool
  tupleTid :: AOTupleId

text \<open>The attributes of a tuple of the visibility map relation, \<open>None\<close> being SQL null.\<close>

record visimap_tuple =
  t_segno :: "int option"
  t_firstrownum :: "int option"
  t_visimap :: "AppendOnlyVisimapData option"

datatype TM_Result =
  TM_Ok | TM_Invisible | TM_SelfModified | TM_Updated | TM_Deleted | TM_BeingModified | TM_WouldBlock

definition APPENDONLY_VISIMAP_MAX_RANGE :: int where
  "APPENDONLY_VISIMAP_MAX_RANGE = 32768"

definition APPENDONLY_VISIMAP_MAX_BITMAP_SIZE :: nat where
  "APPENDONLY_VISIMAP_MAX_BITMAP_SIZE = 4096"

definition APPENDONLY_VISIMAP_MAX_BITMAP_WORD_COUNT :: nat where
  "APPENDONLY_VISIMAP_MAX_BITMAP_WORD_COUNT = APPENDONLY_VISIMAP_MAX_BITMAP_SIZE div 8"

text \<open>The \<^verbatim>\<open>data\<close> part of \<^verbatim>\<open>APPENDONLY_VISIMAP_DATA_BUFFER_SIZE\<close>.\<close>

definition visimap_buffer_bytes :: nat where
  "visimap_buffer_bytes = APPENDONLY_VISIMAP_MAX_BITMAP_SIZE + 2"

text \<open>An array of 64-bit words read as 32-bit blocks, and the converse.\<close>

definition word_blocks :: "uint64 list \<Rightarrow> uint32 list" where
  "word_blocks ws = concat (map (\<lambda>w. [ucast w, ucast (drop_bit 32 w)]) ws)"

fun blocks_words :: "uint32 list \<Rightarrow> uint64 list" where
  "blocks_words (lo # hi # bs) = (ucast lo OR push_bit 32 (ucast hi)) # blocks_words bs"
| "blocks_words _ = []"

definition AppendOnlyVisimapEntry_Finish :: "AppendOnlyVisimapEntry \<Rightarrow> AppendOnlyVisimapEntry" where
  "AppendOnlyVisimapEntry_Finish e = e\<lparr>visidata := None, bitmap := None\<rparr>"

definition AppendOnlyVisimapEntry_Init :: "AppendOnlyVisimapEntry \<Rightarrow> AppendOnlyVisimapEntry" where
  "AppendOnlyVisimapEntry_Init e =
     e\<lparr>dirty := False,
       visidata := Some \<lparr>vl_len = 0, version = 0, vdata = replicate visimap_buffer_bytes 0\<rparr>,
       segmentFileNum := -1, firstRowNum := -1, bitmap := None\<rparr>"

definition AppendOnlyVisimapEntry_Reset :: "AppendOnlyVisimapEntry \<Rightarrow> AppendOnlyVisimapEntry" where
  "AppendOnlyVisimapEntry_Reset e =
     e\<lparr>dirty := False, segmentFileNum := -1, firstRowNum := -1, bitmap := None\<rparr>"

definition AppendOnlyVisimapEntry_GetFirstRowNum :: "AOTupleId \<Rightarrow> int" where
  "AppendOnlyVisimapEntry_GetFirstRowNum tupleId =
     (let rowNum = sint (AOTupleIdGet_rowNum tupleId)
      in c_div rowNum APPENDONLY_VISIMAP_MAX_RANGE * APPENDONLY_VISIMAP_MAX_RANGE)"

definition AppendOnlyVisimapEntry_New :: "AppendOnlyVisimapEntry \<Rightarrow> AOTupleId \<Rightarrow> AppendOnlyVisimapEntry" where
  "AppendOnlyVisimapEntry_New e tupleId =
     e\<lparr>bitmap := None,
       segmentFileNum := uint (AOTupleIdGet_segmentFileNum tupleId),
       firstRowNum := AppendOnlyVisimapEntry_GetFirstRowNum tupleId,
       tupleTid := AOTupleIdSetInvalid\<rparr>"

definition AppendOnlyVisimap_GetAttrNotNull :: "'a option \<Rightarrow> 'a result" where
  "AppendOnlyVisimap_GetAttrNotNull a =
     (case a of None \<Rightarrow> Inl (ERROR ''got invalid value: NULL'') | Some d \<Rightarrow> Inr d)"

text \<open>
  \<open>garbage\<close> is the uninitialised \<^verbatim>\<open>BitmapDecompressState\<close> on the stack.  The return value of
  \<^verbatim>\<open>BitmapDecompress_Init\<close> is ignored; the error flag of the stream decides.
\<close>

definition AppendOnlyVisiMapEnty_ReadData ::
  "BitmapDecompressState \<Rightarrow> AppendOnlyVisimapEntry \<Rightarrow> nat \<Rightarrow> AppendOnlyVisimapEntry result" where
  "AppendOnlyVisiMapEnty_ReadData garbage e n =
     (case visidata e of
        None \<Rightarrow> Inl (UB ''null pointer'')
      | Some d \<Rightarrow>
          let state = snd (BitmapDecompress_Init garbage (vdata d) n) in
          if BitmapDecompress_HasError state then
            Inl (ERROR ''error occurred during visimap bitmap decompression'')
          else
            let (onDiskBlockCount, bmsWordCount) = BitmapDecompress_CalculateBlockCounts state in
            if onDiskBlockCount > 0 then
              bindE (BitmapDecompress_Decompress state (word_blocks (replicate bmsWordCount 0)) onDiskBlockCount)
                (\<lambda>blocks. Inr (e\<lparr>bitmap := mk_bms (blocks_words blocks)\<rparr>))
            else Inr (e\<lparr>bitmap := None\<rparr>))"

text \<open>
  The tuple carries the value after \<^verbatim>\<open>pg_detoast_datum\<close>; \<^verbatim>\<open>memcpy\<close> overwrites the front of the
  entry's buffer with its \<^verbatim>\<open>VARSIZE\<close> bytes.
\<close>

definition copy_datum :: "AppendOnlyVisimapData \<Rightarrow> AppendOnlyVisimapData \<Rightarrow> AppendOnlyVisimapData result" where
  "copy_datum buffer v =
     (if length (vdata v) \<le> length (vdata buffer)
      then Inr \<lparr>vl_len = vl_len v, version = version v,
                vdata = vdata v @ drop (length (vdata v)) (vdata buffer)\<rparr>
      else Inl (UB ''memcpy out of range''))"

definition AppendOnlyVisimapEntry_Copyout ::
  "BitmapDecompressState \<Rightarrow> AppendOnlyVisimapEntry \<Rightarrow> visimap_tuple \<Rightarrow> AppendOnlyVisimapEntry result" where
  "AppendOnlyVisimapEntry_Copyout garbage e tuple =
     bindE (AppendOnlyVisimap_GetAttrNotNull (t_segno tuple)) (\<lambda>segno.
     bindE (AppendOnlyVisimap_GetAttrNotNull (t_firstrownum tuple)) (\<lambda>first.
       let e1 = e\<lparr>segmentFileNum := segno, firstRowNum := first\<rparr> in
       case t_visimap tuple of
         None \<Rightarrow> Inr (e1\<lparr>bitmap := None\<rparr>)
       | Some v \<Rightarrow>
           (case visidata e1 of
              None \<Rightarrow> Inl (UB ''null pointer'')
            | Some d \<Rightarrow>
                bindE (copy_datum d v) (\<lambda>d'.
                  AppendOnlyVisiMapEnty_ReadData garbage (e1\<lparr>visidata := Some d'\<rparr>) (vl_len v - 8)))))"

definition AppendOnlyVisimapEntry_GetHiddenTupleCount :: "AppendOnlyVisimapEntry \<Rightarrow> nat" where
  "AppendOnlyVisimapEntry_GetHiddenTupleCount e = bms_num_members (bitmap e)"

definition AppendOnlyVisimapEntry_WriteData :: "AppendOnlyVisimapEntry \<Rightarrow> AppendOnlyVisimapEntry result" where
  "AppendOnlyVisimapEntry_WriteData e =
     (case visidata e of
        None \<Rightarrow> Inl (UB ''null pointer'')
      | Some d \<Rightarrow>
          let (count, bmsWordCount) = BitmapCompress_CalculateBlockCounts (bitmap e);
              bitmapSize = 4 * count + 2;
              blocks = (case bitmap e of None \<Rightarrow> [] | Some r \<Rightarrow> take count (word_blocks (words r)))
          in if bitmapSize > length (vdata d) then Inl (UB ''data buffer too small'')
             else
               bindE (Bitmap_Compress BITMAP_COMPRESSION_TYPE_DEFAULT blocks bitmapSize)
                 (\<lambda>(compressedBitmapSize, out).
                    Inr (e\<lparr>visidata := Some \<lparr>vl_len = 8 + compressedBitmapSize, version = 1,
                                             vdata = out @ drop bitmapSize (vdata d)\<rparr>\<rparr>)))"

text \<open>The datum that a pointer to the data buffer denotes: the first \<^verbatim>\<open>VARSIZE\<close> bytes.\<close>

definition datum_of :: "AppendOnlyVisimapData \<Rightarrow> AppendOnlyVisimapData" where
  "datum_of d = d\<lparr>vdata := take (vl_len d - 8) (vdata d)\<rparr>"

definition AppendOnlyVisimapEntry_Write ::
  "AppendOnlyVisimapEntry \<Rightarrow> (visimap_tuple \<times> AppendOnlyVisimapEntry) result" where
  "AppendOnlyVisimapEntry_Write e =
     (let tuple = \<lparr>t_segno = Some (segmentFileNum e), t_firstrownum = Some (firstRowNum e), t_visimap = None\<rparr> in
      if bms_is_empty (bitmap e) then Inr (tuple, e\<lparr>dirty := False\<rparr>)
      else
        bindE (AppendOnlyVisimapEntry_WriteData e) (\<lambda>e1.
          Inr (tuple\<lparr>t_visimap := map_option datum_of (visidata e1)\<rparr>, e1\<lparr>dirty := False\<rparr>)))"

definition AppendOnlyVisimapEntry_AreAllVisible :: "AppendOnlyVisimapEntry \<Rightarrow> bool" where
  "AppendOnlyVisimapEntry_AreAllVisible e = bms_is_empty (bitmap e)"

definition AppendOnlyVisimapEntry_GetRownumOffset :: "AppendOnlyVisimapEntry \<Rightarrow> int \<Rightarrow> int" where
  "AppendOnlyVisimapEntry_GetRownumOffset e rowNum = rowNum - firstRowNum e"

definition AppendOnlyVisimapEntry_IsValid :: "AppendOnlyVisimapEntry \<Rightarrow> bool" where
  "AppendOnlyVisimapEntry_IsValid e \<longleftrightarrow> segmentFileNum e \<ge> 0 \<and> firstRowNum e \<ge> 0"

definition AppendOnlyVisimapEntry_CoversTuple :: "AppendOnlyVisimapEntry \<Rightarrow> AOTupleId \<Rightarrow> bool" where
  "AppendOnlyVisimapEntry_CoversTuple e tupleId =
     (if \<not> AppendOnlyVisimapEntry_IsValid e then False
      else if segmentFileNum e \<noteq> uint (AOTupleIdGet_segmentFileNum tupleId) then False
      else
        let rowNum = sint (AOTupleIdGet_rowNum tupleId)
        in firstRowNum e \<le> rowNum \<and> firstRowNum e + APPENDONLY_VISIMAP_MAX_RANGE > rowNum)"

definition AppendOnlyVisimapEntry_IsVisible :: "AppendOnlyVisimapEntry \<Rightarrow> AOTupleId \<Rightarrow> bool result" where
  "AppendOnlyVisimapEntry_IsVisible e tupleId =
     (let rowNum = sint (AOTupleIdGet_rowNum tupleId) in
      if AppendOnlyVisimapEntry_AreAllVisible e then Inr True
      else
        let rowNumOffset = AppendOnlyVisimapEntry_GetRownumOffset e rowNum
        in bindE (bms_is_member (c_int rowNumOffset) (bitmap e)) (\<lambda>m. Inr (\<not> m)))"

definition AppendOnlyVisimapEntry_GetMinimalSizeToCover :: "int \<Rightarrow> uint32" where
  "AppendOnlyVisimapEntry_GetMinimalSizeToCover offset =
     (let minSize = word_of_int (c_div offset 64 + 1) - 1;
          minSize = minSize OR drop_bit 1 minSize;
          minSize = minSize OR drop_bit 2 minSize;
          minSize = minSize OR drop_bit 4 minSize;
          minSize = minSize OR drop_bit 8 minSize;
          minSize = minSize OR drop_bit 16 minSize
      in minSize + 1)"

definition AppendOnlyVisimapEntry_HideTuple ::
  "AppendOnlyVisimapEntry \<Rightarrow> AOTupleId \<Rightarrow> (TM_Result \<times> AppendOnlyVisimapEntry) result" where
  "AppendOnlyVisimapEntry_HideTuple e tupleId =
     (let rowNum = sint (AOTupleIdGet_rowNum tupleId);
          rowNumOffset = AppendOnlyVisimapEntry_GetRownumOffset e rowNum
      in bindE (bms_covers_member (bitmap e) (c_int rowNumOffset)) (\<lambda>covers.
         let bm = (if \<not> covers
                   then bms_resize (bitmap e) (unat (AppendOnlyVisimapEntry_GetMinimalSizeToCover rowNumOffset))
                   else bitmap e)
         in bindE (bms_is_member (c_int rowNumOffset) bm) (\<lambda>m.
            if \<not> m then
              bindE (bms_add_member bm (c_int rowNumOffset)) (\<lambda>bm'.
                Inr (TM_Ok, e\<lparr>bitmap := bm', dirty := True\<rparr>))
            else if dirty e then Inr (TM_SelfModified, e\<lparr>bitmap := bm, dirty := True\<rparr>)
            else Inr (TM_Updated, e\<lparr>bitmap := bm, dirty := True\<rparr>))))"

definition AppendOnlyVisimapEntry_HasChanged :: "AppendOnlyVisimapEntry \<Rightarrow> bool" where
  "AppendOnlyVisimapEntry_HasChanged e = dirty e"

text \<open>The second component is the identifier that \<^verbatim>\<open>tupleId\<close> points to afterwards.\<close>

definition AppendOnlyVisimapEntry_GetNextInvisible ::
  "AppendOnlyVisimapEntry \<Rightarrow> AOTupleId \<Rightarrow> bool \<times> AOTupleId" where
  "AppendOnlyVisimapEntry_GetNextInvisible e tupleId =
     (let currentBitmapOffset =
            (if AppendOnlyVisimapEntry_CoversTuple e tupleId
             then AppendOnlyVisimapEntry_GetRownumOffset e (sint (AOTupleIdGet_rowNum tupleId)) else -1);
          offset = bms_next_member (bitmap e) (c_int currentBitmapOffset)
      in if offset \<ge> 0 then
           (True, AOTupleIdInit (word_of_int (segmentFileNum e)) (word_of_int (firstRowNum e + offset)))
         else (False, tupleId))"


section \<open>Words as blocks\<close>

lemma word_blocks_simps [simp]:
  "word_blocks [] = []"
  "word_blocks (w # ws) = ucast w # ucast (drop_bit 32 w) # word_blocks ws"
  by (simp_all add: word_blocks_def)

lemma length_word_blocks [simp]: "length (word_blocks ws) = 2 * length ws"
  by (induction ws) simp_all

lemma join_halves: "(ucast (ucast w :: uint32) OR push_bit 32 (ucast (ucast (drop_bit 32 w) :: uint32))) = (w :: uint64)"
  by (rule bit_word_eqI) (auto simp: bit_or_iff bit_push_bit_iff bit_ucast_iff bit_drop_bit_eq)

lemma blocks_words_inverse [simp]: "blocks_words (word_blocks ws) = ws"
  by (induction ws) (simp_all only: word_blocks_simps blocks_words.simps join_halves)

section \<open>The size of a grown bitmap\<close>

text \<open>Each shift doubles the window of higher bits that a bit has absorbed.\<close>

definition smeared :: "nat \<Rightarrow> uint32 \<Rightarrow> uint32 \<Rightarrow> bool" where
  "smeared s v x \<longleftrightarrow> (\<forall>k. bit x k \<longleftrightarrow> (\<exists>j. k \<le> j \<and> j < k + s \<and> bit v j))"

lemma smeared_start: "smeared 1 v v"
proof -
  have "(k \<le> j \<and> j < k + 1 \<and> bit v j) \<longleftrightarrow> j = k \<and> bit v k" for j k
    by (auto simp: le_less_Suc_eq)
  then show ?thesis by (simp only: smeared_def) blast
qed

lemma smeared_step:
  assumes "smeared s v x"
  shows "smeared (2 * s) v (x OR drop_bit s x)"
  unfolding smeared_def
proof
  fix k
  have "bit (x OR drop_bit s x) k \<longleftrightarrow>
      (\<exists>j. k \<le> j \<and> j < k + s \<and> bit v j) \<or> (\<exists>j. s + k \<le> j \<and> j < s + k + s \<and> bit v j)"
    using assms by (simp add: smeared_def bit_or_iff bit_drop_bit_eq)
  also have "\<dots> \<longleftrightarrow> (\<exists>j. k \<le> j \<and> j < k + 2 * s \<and> bit v j)"
  proof -
    have "k \<le> j \<and> j < k + 2 * s \<longleftrightarrow> k \<le> j \<and> j < k + s \<or> s + k \<le> j \<and> j < s + k + s" for j by auto
    then show ?thesis by blast
  qed
  finally show "bit (x OR drop_bit s x) k = (\<exists>j. k \<le> j \<and> j < k + 2 * s \<and> bit v j)" .
qed

lemma smear_mask:
  assumes x: "smeared 32 v x" and h: "bit v h" and max: "\<And>j. bit v j \<Longrightarrow> j \<le> h"
  shows "x = mask (Suc h)"
proof (rule bit_word_eqI)
  fix k :: nat
  assume "k < LENGTH(32)"
  have "h < 32" using bit_word_length [OF h] by simp
  then have "(\<exists>j. k \<le> j \<and> j < k + 32 \<and> bit v j) \<longleftrightarrow> k \<le> h" using h max by (meson le_trans trans_less_add2)
  with x \<open>k < LENGTH(32)\<close> show "bit x k = bit (mask (Suc h) :: uint32) k"
    by (auto simp: smeared_def bit_mask_iff)
qed

lemma top_bit:
  assumes "2 ^ h \<le> unat (v :: uint32)" and "unat v < 2 ^ Suc h"
  shows "bit v h" and "bit v j \<Longrightarrow> j \<le> h"
proof -
  have bv: "bit v j \<longleftrightarrow> odd (unat v div 2 ^ j)" for j
    using bit_unsigned_iff [of v j, where 'a = nat] by (simp add: bit_iff_odd)
  have "unat v div 2 ^ h = 1" using assms by (intro div_nat_eqI) (simp_all add: mult.commute)
  then show "bit v h" by (simp add: bv)
  show "j \<le> h" if "bit v j"
  proof (rule ccontr)
    assume "\<not> j \<le> h"
    then have "(2 :: nat) ^ Suc h \<le> 2 ^ j" by (intro power_increasing) auto
    with assms(2) have "unat v div 2 ^ j = 0" by simp
    with that show False by (simp add: bv)
  qed
qed

lemma unat_mask_succ: "h < 9 \<Longrightarrow> unat (mask (Suc h) + 1 :: uint32) = 2 ^ Suc h"
proof -
  assume "h < 9"
  then have "(2 :: nat) ^ Suc h < 2 ^ 32" by (intro power_strict_increasing) auto
  then have "unat (of_nat (2 ^ Suc h) :: uint32) = 2 ^ Suc h"
    by (simp only: unsigned_of_nat of_nat_id len_of_numeral_defs) (simp add: take_bit_nat_eq_self)
  then show ?thesis by (simp add: mask_eq_exp_minus_1)
qed

lemma minimal_size:
  assumes "0 \<le> offset" and "offset < 32768"
  shows "\<exists>k. unat (AppendOnlyVisimapEntry_GetMinimalSizeToCover offset) = 2 ^ k \<and> k \<le> 9 \<and>
    nat (offset div 64) < 2 ^ k \<and> (\<forall>j. nat (offset div 64) < 2 ^ j \<longrightarrow> k \<le> j)"
proof -
  define n where "n = nat (offset div 64)"
  define v where "v = (of_nat n :: uint32)"
  have n: "n < 512" using assms unfolding n_def by linarith
  have v: "unat v = n" using n by (simp add: v_def unsigned_of_nat take_bit_nat_eq_self)
  have "word_of_int (c_div offset 64 + 1) - 1 = v"
    using assms by (simp add: c_div_def v_def n_def)
  then have "\<exists>x. smeared 32 v x \<and> AppendOnlyVisimapEntry_GetMinimalSizeToCover offset = x + 1"
    unfolding AppendOnlyVisimapEntry_GetMinimalSizeToCover_def Let_def
    using smeared_start [THEN smeared_step, THEN smeared_step, THEN smeared_step, THEN smeared_step,
        THEN smeared_step, of v] by (simp only: mult_1_right numeral_times_numeral semiring_norm) blast
  then obtain x where x: "smeared 32 v x" "AppendOnlyVisimapEntry_GetMinimalSizeToCover offset = x + 1"
    by blast
  show ?thesis
  proof (cases "n = 0")
    case True
    then have "v = 0" by (simp add: v_def)
    with x(1) have "\<not> bit x k" for k by (simp add: smeared_def)
    then have "x = 0" by (auto intro: bit_word_eqI)
    then show ?thesis using x(2) True by (intro exI [of _ 0]) (simp add: n_def)
  next
    case False
    then obtain h where h: "2 ^ h \<le> n" "n < 2 ^ Suc h" using ex_power_ivl1 [of 2 n] by auto
    have xm: "x = mask (Suc h)" using smear_mask [OF x(1)] top_bit [of h v] h v by blast
    have "(2 :: nat) ^ h < 2 ^ 9" using h(1) n by simp
    then have "h < 9" by (rule power_less_imp_less_exp [rotated]) simp
    moreover have "Suc h \<le> j" if "n < 2 ^ j" for j
    proof -
      have "(2 :: nat) ^ h < 2 ^ j" using h(1) that by (rule le_less_trans)
      then show ?thesis by simp
    qed
    ultimately show ?thesis using x(2) h(2) unat_mask_succ [OF \<open>h < 9\<close>]
      by (intro exI [of _ "Suc h"]) (auto simp only: xm n_def [symmetric])
  qed
qed

section \<open>Hidden rows\<close>

text \<open>
  The abstract state of an entry is the set of row numbers that it hides.  The invariant
  bounds the bitmap by the words that the range needs.
\<close>

abbreviation tid_row :: "AOTupleId \<Rightarrow> int" where
  "tid_row t \<equiv> sint (AOTupleIdGet_rowNum t)"

definition hidden_rows :: "AppendOnlyVisimapEntry \<Rightarrow> int set" where
  "hidden_rows e = (\<lambda>m. firstRowNum e + int m) ` bms_members (bitmap e)"

definition word_count :: "bms \<Rightarrow> nat" where
  "word_count a = (case a of None \<Rightarrow> 0 | Some r \<Rightarrow> nwords r)"

definition visimap_ok :: "AppendOnlyVisimapEntry \<Rightarrow> bool" where
  "visimap_ok e \<longleftrightarrow> word_count (bitmap e) \<le> APPENDONLY_VISIMAP_MAX_BITMAP_WORD_COUNT"

lemma max_words [simp]: "APPENDONLY_VISIMAP_MAX_BITMAP_WORD_COUNT = 512"
  by (simp add: APPENDONLY_VISIMAP_MAX_BITMAP_WORD_COUNT_def APPENDONLY_VISIMAP_MAX_BITMAP_SIZE_def)

lemma hidden_rows_iff: "firstRowNum e + int n \<in> hidden_rows e \<longleftrightarrow> n \<in> bms_members (bitmap e)"
  by (auto simp: hidden_rows_def)

lemma members_bound: "n \<in> bms_members a \<Longrightarrow> n < word_count a * 64"
  by (cases a) (auto simp: word_count_def nwords_def dest: word_members_bound)

lemma covers_offset:
  assumes "AppendOnlyVisimapEntry_CoversTuple e t"
  obtains n where "tid_row t = firstRowNum e + int n" and "n < 32768"
proof -
  have "0 \<le> tid_row t - firstRowNum e" "tid_row t - firstRowNum e < 32768"
    using assms by (auto simp: AppendOnlyVisimapEntry_CoversTuple_def APPENDONLY_VISIMAP_MAX_RANGE_def
        Let_def split: if_splits)
  then have "tid_row t = firstRowNum e + int (nat (tid_row t - firstRowNum e))"
    and "nat (tid_row t - firstRowNum e) < 32768" by auto
  then show ?thesis using that by blast
qed

lemma IsVisible_covered:
  assumes "AppendOnlyVisimapEntry_CoversTuple e t"
  shows "AppendOnlyVisimapEntry_IsVisible e t = Inr (tid_row t \<notin> hidden_rows e)"
proof -
  from covers_offset [OF assms] obtain n where n: "tid_row t = firstRowNum e + int n" "n < 32768" .
  then have "c_int (tid_row t - firstRowNum e) = int n" by (simp add: c_int_small)
  with n show ?thesis
    by (simp add: AppendOnlyVisimapEntry_IsVisible_def AppendOnlyVisimapEntry_AreAllVisible_def
        AppendOnlyVisimapEntry_GetRownumOffset_def bms_is_empty_iff bmset.is_mem_nat hidden_rows_iff)
qed

lemma resize_word_count: "word_count (bms_resize a n) = max (word_count a) n"
  by (cases a) (auto simp: bms_resize_def word_count_def nwords_def length_enlarge)

lemma add_member_word_count:
  "bms_add_member a (int n) = Inr b \<Longrightarrow> n div 64 < word_count a \<Longrightarrow> word_count b = word_count a"
  by (cases a) (auto simp: bms_add_member_def word_count_def nwords_def Let_def split: if_splits)

lemma covers_word_count: "bms_covers_member a (int n) = Inr (n div 64 < word_count a)"
  by (cases a) (simp_all add: bms_covers_member_def word_count_def)

text \<open>The bitmap after the conditional growth at the start of \<^verbatim>\<open>HideTuple\<close>.\<close>

lemma grow_bitmap:
  assumes "n < 32768" and "word_count a \<le> 512"
    and "b = (if \<not> n div 64 < word_count a
              then bms_resize a (unat (AppendOnlyVisimapEntry_GetMinimalSizeToCover (int n))) else a)"
  shows "bms_members b = bms_members a" and "word_count b \<le> 512" and "n div 64 < word_count b"
proof -
  from minimal_size [of "int n"] assms(1) obtain k where
    k: "unat (AppendOnlyVisimapEntry_GetMinimalSizeToCover (int n)) = 2 ^ k" "k \<le> 9" "n div 64 < 2 ^ k"
    by (auto simp: nat_div_distrib)
  have "(2 :: nat) ^ k \<le> 2 ^ 9" using k(2) by (intro power_increasing) simp_all
  then show "bms_members b = bms_members a" "word_count b \<le> 512" "n div 64 < word_count b"
    using assms(2,3) k by (auto simp: resize_word_count)
qed

lemma HideTuple_covered:
  assumes "AppendOnlyVisimapEntry_CoversTuple e t" and "visimap_ok e"
  shows "\<exists>e'. AppendOnlyVisimapEntry_HideTuple e t =
      Inr (if tid_row t \<notin> hidden_rows e then TM_Ok else if dirty e then TM_SelfModified else TM_Updated, e') \<and>
    hidden_rows e' = insert (tid_row t) (hidden_rows e) \<and> dirty e' \<and> visimap_ok e' \<and>
    e' = e\<lparr>bitmap := bitmap e', dirty := True\<rparr>"
proof -
  from covers_offset [OF assms(1)] obtain n where n: "tid_row t = firstRowNum e + int n" "n < 32768" .
  define b where "b = (if \<not> n div 64 < word_count (bitmap e)
      then bms_resize (bitmap e) (unat (AppendOnlyVisimapEntry_GetMinimalSizeToCover (int n))) else bitmap e)"
  note b = grow_bitmap [OF n(2) _ b_def]
  have ok: "word_count (bitmap e) \<le> 512" using assms(2) by (simp add: visimap_ok_def)
  have off: "AppendOnlyVisimapEntry_GetRownumOffset e (tid_row t) = int n"
    using n by (simp add: AppendOnlyVisimapEntry_GetRownumOffset_def)
  from bmset.add_nat [of b n] obtain b' where b': "bms_add_member b (int n) = Inr b'"
    "bms_members b' = insert n (bms_members b)" by blast
  have unfold: "AppendOnlyVisimapEntry_HideTuple e t =
      (if n \<notin> bms_members (bitmap e) then Inr (TM_Ok, e\<lparr>bitmap := b', dirty := True\<rparr>)
       else if dirty e then Inr (TM_SelfModified, e\<lparr>bitmap := b, dirty := True\<rparr>)
       else Inr (TM_Updated, e\<lparr>bitmap := b, dirty := True\<rparr>))"
    using n(2) b'(1) b(1) [OF ok]
    by (cases "n div 64 < word_count (bitmap e)")
       (simp_all add: AppendOnlyVisimapEntry_HideTuple_def off c_int_small covers_word_count Let_def
         bmset.is_mem_nat b_def)
  have hid: "hidden_rows (e\<lparr>bitmap := b', dirty := True\<rparr>) = insert (tid_row t) (hidden_rows e)"
    "hidden_rows (e\<lparr>bitmap := b, dirty := True\<rparr>) = hidden_rows e"
    using b'(2) b(1) [OF ok] n(1) by (auto simp: hidden_rows_def)
  have cnt: "word_count b' \<le> 512" "word_count b \<le> 512"
    using add_member_word_count [OF b'(1)] b(2,3) [OF ok] by simp_all
  show ?thesis
  proof (cases "n \<in> bms_members (bitmap e)")
    case True
    then have "tid_row t \<in> hidden_rows e" using n(1) by (simp add: hidden_rows_iff)
    with True unfold hid(2) cnt(2) show ?thesis
      by (auto simp: visimap_ok_def insert_absorb)
  next
    case False
    then have "tid_row t \<notin> hidden_rows e" using n(1) by (simp add: hidden_rows_iff)
    with False unfold hid(1) cnt(1) show ?thesis by (auto simp: visimap_ok_def)
  qed
qed

section \<open>Persistence\<close>

definition disk_blocks :: "uint64 list \<Rightarrow> nat" where
  "disk_blocks ws = (if length ws = 1 \<and> drop_bit 32 (ws ! 0) = 0 then 1 else 2 * length ws)"

lemma CalculateBlockCounts_words: "BitmapCompress_CalculateBlockCounts (mk_bms ws) = (disk_blocks ws, length ws)"
  by (auto simp: BitmapCompress_CalculateBlockCounts_def disk_blocks_def nwords_def)

lemma disk_blocks_words: "(if disk_blocks ws = 1 then 1 else disk_blocks ws div 2) = length ws"
  by (auto simp: disk_blocks_def)

lemma disk_blocks_le: "disk_blocks ws \<le> 2 * length ws"
  by (auto simp: disk_blocks_def)

lemma blocks_restore:
  "blocks_words (take (disk_blocks ws) (word_blocks ws) @
     drop (disk_blocks ws) (word_blocks (replicate (length ws) 0))) = ws"
proof (cases "length ws = 1 \<and> drop_bit 32 (ws ! 0) = 0")
  case True
  then obtain w where w: "ws = [w]" by (auto simp: length_Suc_conv)
  with True have "ucast (ucast w :: uint32) = w" using join_halves [of w] by simp
  with True w show ?thesis by (simp add: disk_blocks_def)
next
  case False
  then have "disk_blocks ws = 2 * length ws" by (auto simp: disk_blocks_def)
  then show ?thesis by simp
qed

definition buffer_ok :: "AppendOnlyVisimapEntry \<Rightarrow> bool" where
  "buffer_ok e \<longleftrightarrow> (\<exists>d. visidata e = Some d \<and> length (vdata d) = visimap_buffer_bytes)"

lemma WriteData_image:
  assumes "buffer_ok e" and "visimap_ok e" and "bitmap e = mk_bms ws"
  shows "\<exists>d len. AppendOnlyVisimapEntry_WriteData e = Inr (e\<lparr>visidata := Some d\<rparr>) \<and>
    vl_len d = 8 + len \<and> len \<le> length (vdata d) \<and> length (vdata d) = visimap_buffer_bytes \<and>
    (raw_image (take (disk_blocks ws) (word_blocks ws)) (take len (vdata d)) \<or>
     default_image (take (disk_blocks ws) (word_blocks ws)) (take len (vdata d)))"
proof -
  from assms(1) obtain d0 where d0: "visidata e = Some d0" "length (vdata d0) = visimap_buffer_bytes"
    by (auto simp: buffer_ok_def)
  let ?blocks = "take (disk_blocks ws) (word_blocks ws)" and ?n = "4 * disk_blocks ws + 2"
  have len: "length ?blocks = disk_blocks ws" using disk_blocks_le [of ws] by simp
  then have "4 * length ?blocks + 2 \<le> ?n" by simp
  from compress_default [OF this] obtain len out where
    c: "Bitmap_Compress BITMAP_COMPRESSION_TYPE_DEFAULT ?blocks ?n = Inr (len, out)" "len \<le> ?n" "length out = ?n"
      "raw_image ?blocks (take len out) \<or> default_image ?blocks (take len out)" by blast
  have "length ws \<le> 512" using assms(2,3) by (simp add: visimap_ok_def word_count_def nwords_def)
  then have n: "?n \<le> visimap_buffer_bytes"
    using disk_blocks_le [of ws]
    by (simp add: visimap_buffer_bytes_def APPENDONLY_VISIMAP_MAX_BITMAP_SIZE_def)
  let ?d = "\<lparr>vl_len = 8 + len, version = 1, vdata = out @ drop ?n (vdata d0)\<rparr>"
  have "AppendOnlyVisimapEntry_WriteData e = Inr (e\<lparr>visidata := Some ?d\<rparr>)"
    using d0 n c(1) assms(3)
    by (simp add: AppendOnlyVisimapEntry_WriteData_def CalculateBlockCounts_words)
  then show ?thesis using c(2-4) n d0(2) by (intro exI [of _ ?d] exI [of _ len]) auto
qed

lemma ReadData_image:
  assumes "visidata e = Some d" and "len \<le> length (vdata d)" and "length ws \<le> 512" and "0 < length ws"
    and "raw_image (take (disk_blocks ws) (word_blocks ws)) (take len (vdata d)) \<or>
     default_image (take (disk_blocks ws) (word_blocks ws)) (take len (vdata d))"
  shows "AppendOnlyVisiMapEnty_ReadData garbage e len = Inr (e\<lparr>bitmap := mk_bms ws\<rparr>)"
proof -
  let ?blocks = "take (disk_blocks ws) (word_blocks ws)" and ?buf = "word_blocks (replicate (length ws) 0)"
  have count: "length ?blocks = disk_blocks ws" using disk_blocks_le [of ws] by simp
  then have small: "length ?blocks < 4096" "length ?blocks \<le> length ?buf"
    using assms(3) disk_blocks_le [of ws] by simp_all
  have "\<exists>st. BitmapDecompress_Init garbage (vdata d) len = (True, st) \<and> blockCount st = length ?blocks \<and>
      \<not> BitmapDecompress_HasError st \<and>
      BitmapDecompress_Decompress st ?buf (length ?blocks) = Inr (?blocks @ drop (length ?blocks) ?buf)"
    using assms(5) decompress_raw [OF _ assms(2) small] decompress_default [OF _ assms(2) small] by blast
  then obtain st where st: "BitmapDecompress_Init garbage (vdata d) len = (True, st)" "blockCount st = disk_blocks ws"
      "\<not> BitmapDecompress_HasError st"
      "BitmapDecompress_Decompress st ?buf (disk_blocks ws) = Inr (?blocks @ drop (disk_blocks ws) ?buf)"
    unfolding count by blast
  have "0 < disk_blocks ws" using assms(4) by (simp add: disk_blocks_def)
  moreover have "BitmapDecompress_CalculateBlockCounts st = (disk_blocks ws, length ws)"
    using st(2) disk_blocks_words [of ws]
    by (simp add: BitmapDecompress_CalculateBlockCounts_def BitmapDecompress_GetBlockCount_def)
  ultimately show ?thesis
    using st assms(1) by (simp add: AppendOnlyVisiMapEnty_ReadData_def blocks_restore)
qed

text \<open>What a stored tuple holds: the key of an entry and the compressed image of its bitmap, or no image for an empty one.\<close>

definition image_of :: "uint64 list \<Rightarrow> AppendOnlyVisimapData \<Rightarrow> bool" where
  "image_of ws v \<longleftrightarrow> vl_len v = 8 + length (vdata v) \<and> length (vdata v) \<le> visimap_buffer_bytes \<and> 0 < length ws \<and> length ws \<le> 512 \<and>
     (raw_image (take (disk_blocks ws) (word_blocks ws)) (vdata v) \<or> default_image (take (disk_blocks ws) (word_blocks ws)) (vdata v))"

definition stored :: "visimap_tuple \<Rightarrow> int \<Rightarrow> int \<Rightarrow> bms \<Rightarrow> bool" where
  "stored t seg first b \<longleftrightarrow> t_segno t = Some seg \<and> t_firstrownum t = Some first \<and>
     (case t_visimap t of None \<Rightarrow> b = None | Some v \<Rightarrow> \<exists>ws. b = mk_bms ws \<and> image_of ws v)"

lemma stored_word_count: "stored t seg first b \<Longrightarrow> word_count b \<le> 512"
  by (auto simp: stored_def image_of_def word_count_def nwords_def split: option.splits)

lemma ReadData_prefix:
  assumes "visidata e = Some d" and "image_of ws v" and "vdata d = vdata v @ rest"
  shows "AppendOnlyVisiMapEnty_ReadData garbage e (vl_len v - 8) = Inr (e\<lparr>bitmap := mk_bms ws\<rparr>)"
  using assms by (intro ReadData_image [where d = d]) (auto simp: image_of_def)

lemma Copyout_stored:
  assumes "stored t seg first b" and "buffer_ok e"
  shows "\<exists>d. AppendOnlyVisimapEntry_Copyout garbage e t =
      Inr (e\<lparr>segmentFileNum := seg, firstRowNum := first, visidata := Some d, bitmap := b\<rparr>) \<and> length (vdata d) = visimap_buffer_bytes"
proof -
  from assms(2) obtain d0 where d0: "visidata e = Some d0" "length (vdata d0) = visimap_buffer_bytes" by (auto simp: buffer_ok_def)
  show ?thesis
  proof (cases "t_visimap t")
    case None
    with assms(1) d0 show ?thesis
      by (intro exI [of _ d0]) (simp add: stored_def AppendOnlyVisimapEntry_Copyout_def AppendOnlyVisimap_GetAttrNotNull_def)
  next
    case (Some v)
    with assms(1) obtain ws where ws: "b = mk_bms ws" "image_of ws v" by (auto simp: stored_def)
    define d where "d = \<lparr>vl_len = vl_len v, version = version v, vdata = vdata v @ drop (length (vdata v)) (vdata d0)\<rparr>"
    define e1 where "e1 = e\<lparr>segmentFileNum := seg, firstRowNum := first, visidata := Some d\<rparr>"
    have "copy_datum d0 v = Inr d" "length (vdata d) = visimap_buffer_bytes" using ws(2) d0(2) by (simp_all add: copy_datum_def d_def image_of_def)
    moreover have "AppendOnlyVisiMapEnty_ReadData garbage e1 (vl_len v - 8) = Inr (e1\<lparr>bitmap := mk_bms ws\<rparr>)"
      by (rule ReadData_prefix [OF _ ws(2), of _ d "drop (length (vdata v)) (vdata d0)"]) (simp_all add: e1_def d_def)
    ultimately show ?thesis using assms(1) Some d0(1) ws(1)
      by (intro exI [of _ d]) (simp add: stored_def AppendOnlyVisimapEntry_Copyout_def AppendOnlyVisimap_GetAttrNotNull_def e1_def)
  qed
qed

lemma WriteData_stored:
  assumes "buffer_ok e" and "visimap_ok e" and "\<not> bms_is_empty (bitmap e)"
  shows "\<exists>d ws. AppendOnlyVisimapEntry_WriteData e = Inr (e\<lparr>visidata := Some d\<rparr>) \<and> length (vdata d) = visimap_buffer_bytes \<and>
    8 \<le> vl_len d \<and> vl_len d \<le> 8 + visimap_buffer_bytes \<and> bitmap e = mk_bms ws \<and> image_of ws (datum_of d)"
proof -
  obtain ws where ws: "bitmap e = mk_bms ws"
    using assms(3) by (cases "bitmap e") (auto simp: bms_is_empty_def, metis Bitmapset.cases Bitmapset.select_convs(1))
  from assms(3) ws have pos: "0 < length ws" by (auto simp: bms_is_empty_def)
  have small: "length ws \<le> 512" using assms(2) ws by (simp add: visimap_ok_def word_count_def nwords_def)
  from WriteData_image [OF assms(1,2) ws] obtain d len where
    w: "AppendOnlyVisimapEntry_WriteData e = Inr (e\<lparr>visidata := Some d\<rparr>)" "vl_len d = 8 + len"
      "len \<le> length (vdata d)" "length (vdata d) = visimap_buffer_bytes"
      "raw_image (take (disk_blocks ws) (word_blocks ws)) (take len (vdata d)) \<or>
       default_image (take (disk_blocks ws) (word_blocks ws)) (take len (vdata d))" by blast
  then have "image_of ws (datum_of d)" using pos small by (simp add: image_of_def datum_of_def)
  with w ws show ?thesis by auto
qed

lemma Write_stored:
  assumes "buffer_ok e" and "visimap_ok e"
  shows "\<exists>t d b. AppendOnlyVisimapEntry_Write e = Inr (t, e\<lparr>visidata := Some d, dirty := False\<rparr>) \<and> length (vdata d) = visimap_buffer_bytes \<and>
    stored t (segmentFileNum e) (firstRowNum e) b \<and> bms_members b = bms_members (bitmap e)"
proof (cases "bms_is_empty (bitmap e)")
  case True
  from assms(1) obtain d where "visidata e = Some d" "length (vdata d) = visimap_buffer_bytes" by (auto simp: buffer_ok_def)
  with True show ?thesis
    by (intro exI [of _ "\<lparr>t_segno = Some (segmentFileNum e), t_firstrownum = Some (firstRowNum e), t_visimap = None\<rparr>"] exI [of _ d])
      (simp add: AppendOnlyVisimapEntry_Write_def stored_def bms_is_empty_iff)
next
  case False
  from WriteData_stored [OF assms False] obtain d ws where
    w: "AppendOnlyVisimapEntry_WriteData e = Inr (e\<lparr>visidata := Some d\<rparr>)" "length (vdata d) = visimap_buffer_bytes"
      "bitmap e = mk_bms ws" "image_of ws (datum_of d)" by blast
  with False show ?thesis
    by (intro exI [of _ "\<lparr>t_segno = Some (segmentFileNum e), t_firstrownum = Some (firstRowNum e), t_visimap = Some (datum_of d)\<rparr>"]
          exI [of _ d] exI [of _ "mk_bms ws"])
      (auto simp: AppendOnlyVisimapEntry_Write_def stored_def)
qed

section \<open>Row identifiers of hidden rows\<close>

lemma tid_row_Init:
  assumes "0 \<le> x" and "x < 2 ^ 40"
  shows "tid_row (AOTupleIdInit seg (word_of_int x)) = x"
proof -
  have "take_bit 40 (word_of_int x) = (word_of_int x :: uint64)"
    using assms by (intro take_bit_small) (simp add: unsigned_of_int take_bit_int_eq_self)
  then show ?thesis
    using assms by (simp add: rowNum_Init signed_of_int signed_take_bit_int_eq_self)
qed

lemma tid_seg_Init:
  assumes "0 \<le> s" and "s \<le> 127"
  shows "uint (AOTupleIdGet_segmentFileNum (AOTupleIdInit (word_of_int s) row)) = s"
proof -
  have "take_bit 7 (word_of_int s) = (word_of_int s :: uint16)"
    using assms by (intro take_bit_small) (simp add: unsigned_of_int take_bit_int_eq_self)
  then show ?thesis using assms by (simp add: segmentFileNum_Init unsigned_of_int take_bit_int_eq_self)
qed

text \<open>The first offset that \<^verbatim>\<open>GetNextInvisible\<close> may return.\<close>

definition scan_start :: "AppendOnlyVisimapEntry \<Rightarrow> AOTupleId \<Rightarrow> nat" where
  "scan_start e t =
     (if AppendOnlyVisimapEntry_CoversTuple e t then Suc (nat (tid_row t - firstRowNum e)) else 0)"

lemma GetNextInvisible_unfold:
  "AppendOnlyVisimapEntry_GetNextInvisible e t =
     (let offset = bms_next_member (bitmap e) (int (scan_start e t) - 1) in
      if offset \<ge> 0 then
        (True, AOTupleIdInit (word_of_int (segmentFileNum e)) (word_of_int (firstRowNum e + offset)))
      else (False, t))"
proof (cases "AppendOnlyVisimapEntry_CoversTuple e t")
  case True
  from covers_offset [OF True] obtain n where n: "tid_row t = firstRowNum e + int n" "n < 32768" .
  then have "c_int (tid_row t - firstRowNum e) = int n" by (simp add: c_int_small)
  with n True show ?thesis
    by (simp add: AppendOnlyVisimapEntry_GetNextInvisible_def AppendOnlyVisimapEntry_GetRownumOffset_def
        scan_start_def Let_def)
qed (simp add: AppendOnlyVisimapEntry_GetNextInvisible_def scan_start_def)

lemma hidden_after:
  assumes "S = {r \<in> hidden_rows e. AppendOnlyVisimapEntry_CoversTuple e t \<longrightarrow> tid_row t < r}"
  shows "S = (\<lambda>m. firstRowNum e + int m) ` {m \<in> bms_members (bitmap e). scan_start e t \<le> m}"
proof (cases "AppendOnlyVisimapEntry_CoversTuple e t")
  case True
  from covers_offset [OF True] obtain n where n: "tid_row t = firstRowNum e + int n" "n < 32768" .
  with True assms show ?thesis by (auto simp: scan_start_def hidden_rows_def)
qed (use assms in \<open>simp add: scan_start_def hidden_rows_def\<close>)

section \<open>Properties\<close>

text \<open>
  C5: hiding a covered tuple never fails.  The result is \<^verbatim>\<open>TM_Ok\<close> exactly when the tuple was
  visible, else it tells whether this command already changed the entry; afterwards exactly
  that row is hidden in addition, the entry is dirty and still within its size bound.
\<close>

theorem HideTuple_correct:
  assumes "AppendOnlyVisimapEntry_CoversTuple e t" and "visimap_ok e"
  shows "\<exists>e'. AppendOnlyVisimapEntry_HideTuple e t =
      Inr (if AppendOnlyVisimapEntry_IsVisible e t = Inr True then TM_Ok
           else if AppendOnlyVisimapEntry_HasChanged e then TM_SelfModified else TM_Updated, e') \<and>
    hidden_rows e' = insert (tid_row t) (hidden_rows e) \<and>
    AppendOnlyVisimapEntry_HasChanged e' \<and> visimap_ok e' \<and> e' = e\<lparr>bitmap := bitmap e', dirty := True\<rparr>"
  using HideTuple_covered [OF assms] IsVisible_covered [OF assms(1)]
  by (auto simp: AppendOnlyVisimapEntry_HasChanged_def)

text \<open>An entry for the segment file 1 and the rows from 32768 on, and the identifier of row 32773.\<close>

abbreviation sample_entry :: AppendOnlyVisimapEntry where
  "sample_entry \<equiv> \<lparr>visidata = Some \<lparr>vl_len = 0, version = 0, vdata = replicate visimap_buffer_bytes 0\<rparr>,
     bitmap = None, segmentFileNum = 1, firstRowNum = 32768, dirty = False, tupleTid = AOTupleIdSetInvalid\<rparr>"

abbreviation sample_tid :: AOTupleId where
  "sample_tid \<equiv> AOTupleIdInit 1 (word_of_int 32773)"

lemma sample_row: "tid_row sample_tid = 32773"
  by (rule tid_row_Init) simp_all

lemma sample_covered: "AppendOnlyVisimapEntry_CoversTuple sample_entry sample_tid"
proof -
  have "uint (AOTupleIdGet_segmentFileNum sample_tid) = 1"
    using tid_seg_Init [of 1] by simp
  then show ?thesis using sample_row
    by (simp add: AppendOnlyVisimapEntry_CoversTuple_def AppendOnlyVisimapEntry_IsValid_def
        APPENDONLY_VISIMAP_MAX_RANGE_def)
qed

lemma sample_ok: "visimap_ok sample_entry" "buffer_ok sample_entry"
  by (simp_all add: visimap_ok_def word_count_def buffer_ok_def)

theorem HideTuple_correct_witness:
  "\<exists>e'. AppendOnlyVisimapEntry_HideTuple sample_entry sample_tid =
      Inr (if AppendOnlyVisimapEntry_IsVisible sample_entry sample_tid = Inr True then TM_Ok
           else if AppendOnlyVisimapEntry_HasChanged sample_entry then TM_SelfModified else TM_Updated, e') \<and>
    hidden_rows e' = insert (tid_row sample_tid) (hidden_rows sample_entry) \<and>
    AppendOnlyVisimapEntry_HasChanged e' \<and> visimap_ok e' \<and> e' = sample_entry\<lparr>bitmap := bitmap e', dirty := True\<rparr>"
  by (rule HideTuple_correct [OF sample_covered sample_ok(1)])

text \<open>
  What a tuple's visibility means after a hide: a covered tuple is visible afterwards
  exactly when it was visible before and is not the tuple that was hidden.
\<close>

theorem HideTuple_IsVisible:
  assumes "AppendOnlyVisimapEntry_CoversTuple e t" and "visimap_ok e"
    and "AppendOnlyVisimapEntry_CoversTuple e t'" and "AppendOnlyVisimapEntry_HideTuple e t = Inr (r, e')"
  shows "AppendOnlyVisimapEntry_IsVisible e' t' =
    Inr (tid_row t' \<noteq> tid_row t \<and> AppendOnlyVisimapEntry_IsVisible e t' = Inr True)"
proof -
  from HideTuple_covered [OF assms(1,2)] assms(4)
  have e': "hidden_rows e' = insert (tid_row t) (hidden_rows e)" "e' = e\<lparr>bitmap := bitmap e', dirty := True\<rparr>" by auto
  have "AppendOnlyVisimapEntry_CoversTuple e' t'"
    using assms(3) by (subst e'(2))
      (auto simp: AppendOnlyVisimapEntry_CoversTuple_def AppendOnlyVisimapEntry_IsValid_def split: if_splits)
  with e'(1) show ?thesis by (simp add: IsVisible_covered assms(3))
qed

text \<open>
  A new entry for a tuple covers it, hides nothing and starts at the multiple of 32768 below
  the tuple's row number.
\<close>

theorem New_covers:
  assumes "0 \<le> tid_row t"
  shows "let e' = AppendOnlyVisimapEntry_New e t in
    AppendOnlyVisimapEntry_CoversTuple e' t \<and> hidden_rows e' = {} \<and> visimap_ok e' \<and>
    firstRowNum e' mod 32768 = 0 \<and> AppendOnlyVisimapEntry_IsVisible e' t = Inr True"
proof -
  let ?e = "AppendOnlyVisimapEntry_New e t"
  have "0 \<le> firstRowNum ?e" "firstRowNum ?e \<le> tid_row t" "tid_row t < firstRowNum ?e + 32768"
    using assms pos_mod_bound [of 32768 "tid_row t"] div_mult_mod_eq [of "tid_row t" 32768]
      pos_mod_sign [of 32768 "tid_row t"]
    by (simp_all add: AppendOnlyVisimapEntry_New_def AppendOnlyVisimapEntry_GetFirstRowNum_def c_div_def
        APPENDONLY_VISIMAP_MAX_RANGE_def Let_def pos_imp_zdiv_nonneg_iff del: div_mult_mod_eq)
  then have cov: "AppendOnlyVisimapEntry_CoversTuple ?e t"
    by (simp add: AppendOnlyVisimapEntry_CoversTuple_def AppendOnlyVisimapEntry_IsValid_def
        APPENDONLY_VISIMAP_MAX_RANGE_def) (simp add: AppendOnlyVisimapEntry_New_def)
  moreover have "hidden_rows ?e = {}" "visimap_ok ?e" "firstRowNum ?e mod 32768 = 0"
    by (simp_all add: hidden_rows_def visimap_ok_def word_count_def AppendOnlyVisimapEntry_New_def
        AppendOnlyVisimapEntry_GetFirstRowNum_def APPENDONLY_VISIMAP_MAX_RANGE_def Let_def)
  ultimately show ?thesis by (simp add: IsVisible_covered Let_def)
qed

text \<open>
  C9: an entry survives storage.  Writing an entry within its size bound succeeds and clears
  the dirty flag, and copying the stored tuple into any entry with a data buffer restores the
  segment file, the first row number and exactly the hidden rows, whichever compression the
  writer chose and whatever the buffers held before.
\<close>

theorem Write_Copyout:
  assumes "buffer_ok e" and "visimap_ok e" and "buffer_ok e0"
  shows "\<exists>tuple e1 e2. AppendOnlyVisimapEntry_Write e = Inr (tuple, e1) \<and>
    \<not> AppendOnlyVisimapEntry_HasChanged e1 \<and> hidden_rows e1 = hidden_rows e \<and>
    AppendOnlyVisimapEntry_Copyout garbage e0 tuple = Inr e2 \<and>
    segmentFileNum e2 = segmentFileNum e \<and> firstRowNum e2 = firstRowNum e \<and>
    hidden_rows e2 = hidden_rows e \<and> visimap_ok e2"
proof -
  from Write_stored [OF assms(1,2)] obtain t d b where
    w: "AppendOnlyVisimapEntry_Write e = Inr (t, e\<lparr>visidata := Some d, dirty := False\<rparr>)"
      "stored t (segmentFileNum e) (firstRowNum e) b" "bms_members b = bms_members (bitmap e)" by blast
  from Copyout_stored [OF w(2) assms(3)] w stored_word_count [OF w(2)] show ?thesis
    by (fastforce simp: hidden_rows_def visimap_ok_def AppendOnlyVisimapEntry_HasChanged_def)
qed

theorem Write_Copyout_witness:
  "\<exists>tuple e1 e2. AppendOnlyVisimapEntry_Write sample_entry = Inr (tuple, e1) \<and>
    \<not> AppendOnlyVisimapEntry_HasChanged e1 \<and> hidden_rows e1 = hidden_rows sample_entry \<and>
    AppendOnlyVisimapEntry_Copyout \<lparr>bitstream = Bitstream_Init [] 0, compressionType = 0, blockCount = 0\<rparr>
      sample_entry tuple = Inr e2 \<and>
    segmentFileNum e2 = segmentFileNum sample_entry \<and> firstRowNum e2 = firstRowNum sample_entry \<and>
    hidden_rows e2 = hidden_rows sample_entry \<and> visimap_ok e2"
  by (rule Write_Copyout [OF sample_ok(2,1,2)])

text \<open>
  \<^verbatim>\<open>GetNextInvisible\<close> returns the identifier of the next hidden row of the entry: the least
  one above the given tuple's row when the entry covers that tuple, the least of all
  otherwise, and false exactly when there is none.
\<close>

theorem GetNextInvisible_next:
  assumes "0 \<le> segmentFileNum e" and "segmentFileNum e \<le> 127"
    and "0 \<le> firstRowNum e" and "firstRowNum e + 32768 \<le> 2 ^ 40" and "visimap_ok e"
    and "S = {r \<in> hidden_rows e. AppendOnlyVisimapEntry_CoversTuple e t \<longrightarrow> tid_row t < r}"
  shows "case AppendOnlyVisimapEntry_GetNextInvisible e t of
      (found, t') \<Rightarrow> (if S = {} then \<not> found \<and> t' = t
        else found \<and> tid_row t' = Min S \<and> uint (AOTupleIdGet_segmentFileNum t') = segmentFileNum e)"
proof -
  let ?A = "{m \<in> bms_members (bitmap e). scan_start e t \<le> m}"
  have S: "S = (\<lambda>m. firstRowNum e + int m) ` ?A" using hidden_after [OF assms(6)] .
  have "int (scan_start e t) - 1 + 1 = int (scan_start e t)" by simp
  from bmset.nxt_least [OF this, of "bitmap e"] show ?thesis
  proof (elim disjE exE conjE)
    fix m
    assume m: "is_least ?A m" "bms_next_member (bitmap e) (int (scan_start e t) - 1) = int m"
    then have mA: "m \<in> ?A" and least: "\<And>k. k \<in> ?A \<Longrightarrow> m \<le> k" by (auto simp: is_least_def)
    have "Min S = firstRowNum e + int m"
      unfolding S by (rule Min_eqI) (use mA least in auto)
    moreover have "m < 32768" using mA members_bound [of m "bitmap e"] assms(5) by (simp add: visimap_ok_def)
    then have "tid_row (AOTupleIdInit (word_of_int (segmentFileNum e)) (word_of_int (firstRowNum e + int m))) =
        firstRowNum e + int m" using assms(3,4) by (intro tid_row_Init) simp_all
    moreover have "S \<noteq> {}" using S mA by blast
    ultimately show ?thesis
      using m(2) tid_seg_Init [OF assms(1,2)] by (simp only: GetNextInvisible_unfold Let_def) simp
  next
    assume "?A = {}" "bms_next_member (bitmap e) (int (scan_start e t) - 1) = -2"
    then show ?thesis using S by (simp only: GetNextInvisible_unfold Let_def) simp
  qed
qed

text \<open>
  The size to which a bitmap is grown is the least power of two that covers the offset, and
  never more than the words of a full range.
\<close>

theorem GetMinimalSizeToCover_power:
  assumes "0 \<le> offset" and "offset < 32768"
  shows "\<exists>k. unat (AppendOnlyVisimapEntry_GetMinimalSizeToCover offset) = 2 ^ k \<and>
    2 ^ k \<le> APPENDONLY_VISIMAP_MAX_BITMAP_WORD_COUNT \<and>
    nat (offset div 64) < 2 ^ k \<and> (\<forall>j. nat (offset div 64) < 2 ^ j \<longrightarrow> k \<le> j)"
proof -
  from minimal_size [OF assms] obtain k where
    k: "unat (AppendOnlyVisimapEntry_GetMinimalSizeToCover offset) = 2 ^ k" "k \<le> 9"
      "nat (offset div 64) < 2 ^ k" "\<forall>j. nat (offset div 64) < 2 ^ j \<longrightarrow> k \<le> j" by blast
  moreover have "(2 :: nat) ^ k \<le> 2 ^ 9" using k(2) by (intro power_increasing) simp_all
  ultimately show ?thesis by (intro exI [of _ k]) simp
qed

end
