(* ===== verification/VisimapStore.thy ===== *)
theory VisimapStore
  imports VisimapEntry
begin

text \<open>
  The storage layer of the visibility map, \<^verbatim>\<open>src/backend/access/appendonly/appendonly_visimap_store.c\<close>: lookup, scans,
  updates and deletion of the tuples of the visibility map relation.  The heap relation and its index are a parameter:
  the rows that the registered snapshot sees, each with its tuple identifier, in the order of the index.  Changes of a
  command are not visible to its own snapshot, so they are collected as a list of catalog operations, and
  \<open>table_after\<close> says what the relation holds after the command.
\<close>

section \<open>Model\<close>

definition ItemPointerIsValid :: "AOTupleId \<Rightarrow> bool" where
  "ItemPointerIsValid p \<longleftrightarrow> bytes_4_5 p \<noteq> 0"

datatype catalog_op = CatalogTupleInsert visimap_tuple | CatalogTupleUpdate AOTupleId visimap_tuple | CatalogTupleDelete AOTupleId

type_synonym visimap_row = "AOTupleId \<times> visimap_tuple"

text \<open>A scan key: an attribute number and the value it must be equal to.\<close>

type_synonym ScanKey = "nat \<times> int"

definition Anum_pg_aovisimap_segno :: nat where "Anum_pg_aovisimap_segno = 1"

definition Anum_pg_aovisimap_firstrownum :: nat where "Anum_pg_aovisimap_firstrownum = 2"

record AppendOnlyVisimapStore =
  scanKeys :: "ScanKey list option"
  visimap_rows :: "visimap_row list"
  catalog_ops :: "catalog_op list"

text \<open>Ordered scans of the index: the matching rows that are left.\<close>

datatype ScanDirection = ForwardScanDirection | BackwardScanDirection

definition key_matches :: "visimap_tuple \<Rightarrow> ScanKey \<Rightarrow> bool" where
  "key_matches t k \<longleftrightarrow>
     (if fst k = Anum_pg_aovisimap_segno then t_segno t = Some (snd k) else t_firstrownum t = Some (snd k))"

definition systable_beginscan_ordered :: "visimap_row list \<Rightarrow> ScanKey list \<Rightarrow> visimap_row list" where
  "systable_beginscan_ordered rows keys = filter (\<lambda>(tid, t). list_all (key_matches t) keys) rows"

fun systable_getnext_ordered :: "visimap_row list \<Rightarrow> ScanDirection \<Rightarrow> visimap_row option \<times> visimap_row list" where
  "systable_getnext_ordered [] _ = (None, [])"
| "systable_getnext_ordered (r # rs) ForwardScanDirection = (Some r, rs)"
| "systable_getnext_ordered (r # rs) BackwardScanDirection = (Some (last (r # rs)), butlast (r # rs))"

definition AppendOnlyVisimapStore_Finish :: "AppendOnlyVisimapStore \<Rightarrow> AppendOnlyVisimapStore" where
  "AppendOnlyVisimapStore_Finish s = s\<lparr>scanKeys := None\<rparr>"

definition AppendOnlyVisimapStore_Init :: "visimap_row list \<Rightarrow> AppendOnlyVisimapStore" where
  "AppendOnlyVisimapStore_Init rows =
     \<lparr>scanKeys = Some [(Anum_pg_aovisimap_segno, 0), (Anum_pg_aovisimap_firstrownum, 0)], visimap_rows = rows, catalog_ops = []\<rparr>"

definition AppendOnlyVisimapStore_Store ::
  "AppendOnlyVisimapStore \<Rightarrow> AppendOnlyVisimapEntry \<Rightarrow> (AppendOnlyVisimapStore \<times> AppendOnlyVisimapEntry) result" where
  "AppendOnlyVisimapStore_Store s e =
     bindE (AppendOnlyVisimapEntry_Write e) (\<lambda>(tuple, e1).
       let change = (if ItemPointerIsValid (tupleTid e1) then CatalogTupleUpdate (tupleTid e1) tuple else CatalogTupleInsert tuple)
       in Inr (s\<lparr>catalog_ops := catalog_ops s @ [change]\<rparr>, e1\<lparr>tupleTid := AOTupleIdSetInvalid\<rparr>))"

definition AppendOnlyVisimapStore_BeginScan :: "AppendOnlyVisimapStore \<Rightarrow> ScanKey list \<Rightarrow> visimap_row list" where
  "AppendOnlyVisimapStore_BeginScan s keys = systable_beginscan_ordered (visimap_rows s) keys"

definition AppendOnlyVisimapStore_GetNextTuple :: "visimap_row list \<Rightarrow> ScanDirection \<Rightarrow> visimap_row option \<times> visimap_row list" where
  "AppendOnlyVisimapStore_GetNextTuple indexScan dir = systable_getnext_ordered indexScan dir"

text \<open>
  The entry is \<open>None\<close> where the C code passes \<^verbatim>\<open>NULL\<close>.  The result is the tuple identifier of the row, \<open>None\<close> when there
  is none; callers that pass \<^verbatim>\<open>NULL\<close> for it ignore it.
\<close>

definition AppendOnlyVisimapStore_GetNext ::
  "BitmapDecompressState \<Rightarrow> visimap_row list \<Rightarrow> ScanDirection \<Rightarrow> AppendOnlyVisimapEntry option \<Rightarrow>
   (AOTupleId option \<times> visimap_row list \<times> AppendOnlyVisimapEntry option) result" where
  "AppendOnlyVisimapStore_GetNext garbage indexScan dir entry =
     (case AppendOnlyVisimapStore_GetNextTuple indexScan dir of
        (None, rest) \<Rightarrow> Inr (None, rest, entry)
      | (Some (tid, tuple), rest) \<Rightarrow>
          (case entry of
             None \<Rightarrow> Inr (Some tid, rest, None)
           | Some e \<Rightarrow> bindE (AppendOnlyVisimapEntry_Copyout garbage e tuple) (\<lambda>e1. Inr (Some tid, rest, Some e1))))"

definition AppendOnlyVisimapStore_Find ::
  "BitmapDecompressState \<Rightarrow> AppendOnlyVisimapStore \<Rightarrow> int \<Rightarrow> int \<Rightarrow> AppendOnlyVisimapEntry \<Rightarrow>
   (bool \<times> AppendOnlyVisimapStore \<times> AppendOnlyVisimapEntry) result" where
  "AppendOnlyVisimapStore_Find garbage s seg first e =
     (case scanKeys s of
        Some [k0, k1] \<Rightarrow>
          let keys = [(fst k0, seg), (fst k1, first)];
              s1 = s\<lparr>scanKeys := Some keys\<rparr>;
              indexScan = AppendOnlyVisimapStore_BeginScan s1 keys
          in bindE (AppendOnlyVisimapStore_GetNext garbage indexScan BackwardScanDirection (Some e)) (\<lambda>(found, _, entry).
             case (found, entry) of
               (Some tid, Some e1) \<Rightarrow> Inr (True, s1, e1\<lparr>tupleTid := tid\<rparr>)
             | _ \<Rightarrow> Inr (False, s1, e))
      | _ \<Rightarrow> Inl (UB ''scan keys are not allocated''))"

lemma getnext_shorter:
  "AppendOnlyVisimapStore_GetNext garbage indexScan ForwardScanDirection entry = Inr (Some tid, rest, entry1) \<Longrightarrow>
   length rest < length indexScan"
  by (cases indexScan)
    (auto simp: AppendOnlyVisimapStore_GetNext_def AppendOnlyVisimapStore_GetNextTuple_def bindE_eq_Inr split: option.splits)

function delete_loop :: "BitmapDecompressState \<Rightarrow> AppendOnlyVisimapStore \<Rightarrow> visimap_row list \<Rightarrow> AppendOnlyVisimapStore result" where
  "delete_loop garbage s indexScan =
     (case AppendOnlyVisimapStore_GetNext garbage indexScan ForwardScanDirection None of
        Inl err \<Rightarrow> Inl err
      | Inr (None, rest, _) \<Rightarrow> Inr s
      | Inr (Some tid, rest, _) \<Rightarrow> delete_loop garbage (s\<lparr>catalog_ops := catalog_ops s @ [CatalogTupleDelete tid]\<rparr>) rest)"
  by pat_completeness auto
termination
  by (relation "measure (\<lambda>(garbage, s, indexScan). length indexScan)") (auto dest: getnext_shorter)

definition AppendOnlyVisimapStore_DeleteSegmentFile ::
  "BitmapDecompressState \<Rightarrow> AppendOnlyVisimapStore \<Rightarrow> int \<Rightarrow> AppendOnlyVisimapStore result" where
  "AppendOnlyVisimapStore_DeleteSegmentFile garbage s seg =
     delete_loop garbage s (AppendOnlyVisimapStore_BeginScan s [(Anum_pg_aovisimap_segno, seg)])"

text \<open>The loop of the two counting functions; the entry is overwritten by every row.\<close>

function count_loop ::
  "BitmapDecompressState \<Rightarrow> visimap_row list \<Rightarrow> AppendOnlyVisimapEntry \<Rightarrow> nat \<Rightarrow> (nat \<times> AppendOnlyVisimapEntry) result" where
  "count_loop garbage indexScan e hiddenTupcount =
     (case AppendOnlyVisimapStore_GetNext garbage indexScan ForwardScanDirection (Some e) of
        Inl err \<Rightarrow> Inl err
      | Inr (Some tid, rest, Some e1) \<Rightarrow>
          count_loop garbage rest e1 (hiddenTupcount + AppendOnlyVisimapEntry_GetHiddenTupleCount e1)
      | Inr _ \<Rightarrow> Inr (hiddenTupcount, e))"
  by pat_completeness auto
termination
  by (relation "measure (\<lambda>(garbage, indexScan, e, n). length indexScan)") (auto dest: getnext_shorter)

declare delete_loop.simps [simp del] count_loop.simps [simp del]

definition AppendOnlyVisimapStore_GetSegmentFileHiddenTupleCount ::
  "BitmapDecompressState \<Rightarrow> AppendOnlyVisimapStore \<Rightarrow> AppendOnlyVisimapEntry \<Rightarrow> int \<Rightarrow> (nat \<times> AppendOnlyVisimapEntry) result" where
  "AppendOnlyVisimapStore_GetSegmentFileHiddenTupleCount garbage s e seg =
     count_loop garbage (AppendOnlyVisimapStore_BeginScan s [(Anum_pg_aovisimap_segno, seg)]) e 0"

definition AppendOnlyVisimapStore_GetRelationHiddenTupleCount ::
  "BitmapDecompressState \<Rightarrow> AppendOnlyVisimapStore \<Rightarrow> AppendOnlyVisimapEntry \<Rightarrow> (nat \<times> AppendOnlyVisimapEntry) result" where
  "AppendOnlyVisimapStore_GetRelationHiddenTupleCount garbage s e = count_loop garbage (AppendOnlyVisimapStore_BeginScan s []) e 0"

section \<open>The contents of the relation\<close>

text \<open>
  A row for a range of 32768 rows of a segment file.  The rows that it hides are those of its bitmap; they are found by
  copying the row into any entry.
\<close>

type_synonym range = "int \<times> int"

definition range_ok :: "range \<Rightarrow> bool" where
  "range_ok k \<longleftrightarrow> 0 \<le> fst k \<and> fst k \<le> 127 \<and> 0 \<le> snd k \<and> snd k mod 32768 = 0 \<and> snd k + 32768 \<le> 2 ^ 40"

definition tuple_range :: "visimap_tuple \<Rightarrow> range" where
  "tuple_range t = (the (t_segno t), the (t_firstrownum t))"

definition blank_state :: BitmapDecompressState where
  "blank_state = \<lparr>bitstream = Bitstream_Init [] 0, compressionType = 0, blockCount = 0\<rparr>"

definition blank_entry :: AppendOnlyVisimapEntry where
  "blank_entry = AppendOnlyVisimapEntry_Init
     \<lparr>visidata = None, bitmap = None, segmentFileNum = 0, firstRowNum = 0, dirty = False, tupleTid = AOTupleIdSetInvalid\<rparr>"

definition entry_hidden :: "AppendOnlyVisimapEntry \<Rightarrow> (int \<times> int) set" where
  "entry_hidden e = Pair (segmentFileNum e) ` hidden_rows e"

definition tuple_hidden :: "visimap_tuple \<Rightarrow> (int \<times> int) set" where
  "tuple_hidden t = (case AppendOnlyVisimapEntry_Copyout blank_state blank_entry t of Inl _ \<Rightarrow> {} | Inr e \<Rightarrow> entry_hidden e)"

definition row_ok :: "visimap_tuple \<Rightarrow> bool" where
  "row_ok t \<longleftrightarrow> range_ok (tuple_range t) \<and> (\<exists>b. stored t (fst (tuple_range t)) (snd (tuple_range t)) b)"

definition table_ok :: "visimap_tuple list \<Rightarrow> bool" where
  "table_ok ts \<longleftrightarrow> list_all row_ok ts \<and> distinct (map tuple_range ts)"

definition rows_ok :: "visimap_row list \<Rightarrow> bool" where
  "rows_ok rows \<longleftrightarrow> table_ok (map snd rows) \<and> distinct (map fst rows) \<and> list_all (ItemPointerIsValid \<circ> fst) rows"

definition table_hidden :: "visimap_tuple list \<Rightarrow> (int \<times> int) set" where
  "table_hidden ts = (\<Union>t \<in> set ts. tuple_hidden t)"

text \<open>What the relation holds after a command: the rows it left alone and the tuples it wrote.\<close>

fun op_kills :: "catalog_op \<Rightarrow> AOTupleId list" where
  "op_kills (CatalogTupleInsert t) = []"
| "op_kills (CatalogTupleUpdate tid t) = [tid]"
| "op_kills (CatalogTupleDelete tid) = [tid]"

fun op_writes :: "catalog_op \<Rightarrow> visimap_tuple list" where
  "op_writes (CatalogTupleInsert t) = [t]"
| "op_writes (CatalogTupleUpdate tid t) = [t]"
| "op_writes (CatalogTupleDelete tid) = []"

definition table_after :: "visimap_row list \<Rightarrow> catalog_op list \<Rightarrow> visimap_tuple list" where
  "table_after rows ops =
     map snd (filter (\<lambda>r. fst r \<notin> set (concat (map op_kills ops))) rows) @ concat (map op_writes ops)"

text \<open>A row is replaced or deleted at most once in a command, and only rows that the snapshot sees.\<close>

definition ops_ok :: "visimap_row list \<Rightarrow> catalog_op list \<Rightarrow> bool" where
  "ops_ok rows ops \<longleftrightarrow> distinct (concat (map op_kills ops)) \<and> set (concat (map op_kills ops)) \<subseteq> set (map fst rows)"

section \<open>Lookup\<close>

lemma blank_buffer_ok: "buffer_ok blank_entry"
  by (simp add: buffer_ok_def blank_entry_def AppendOnlyVisimapEntry_Init_def)

lemma stored_range: "stored t seg first b \<Longrightarrow> tuple_range t = (seg, first)"
  by (simp add: stored_def tuple_range_def)

lemma stored_hidden:
  assumes "stored t seg first b"
  shows "tuple_hidden t = (\<lambda>m. (seg, first + int m)) ` bms_members b"
  using Copyout_stored [OF assms blank_buffer_ok, of blank_state]
  by (auto simp: tuple_hidden_def entry_hidden_def hidden_rows_def image_image)

lemma row_ok_stored: "stored t seg first b \<Longrightarrow> range_ok (seg, first) \<Longrightarrow> row_ok t"
  by (auto simp: row_ok_def stored_range)

lemma row_attributes: "row_ok t \<Longrightarrow> t_segno t = Some (fst (tuple_range t)) \<and> t_firstrownum t = Some (snd (tuple_range t))"
  by (auto simp: row_ok_def stored_def)

text \<open>Copying out a good row.\<close>

lemma Copyout_row:
  assumes "row_ok t" and "buffer_ok e"
  shows "\<exists>e1. AppendOnlyVisimapEntry_Copyout garbage e t = Inr e1 \<and> (segmentFileNum e1, firstRowNum e1) = tuple_range t \<and>
    buffer_ok e1 \<and> visimap_ok e1 \<and> entry_hidden e1 = tuple_hidden t \<and> dirty e1 = dirty e \<and> tupleTid e1 = tupleTid e"
proof -
  from assms(1) obtain b where b: "stored t (fst (tuple_range t)) (snd (tuple_range t)) b" by (auto simp: row_ok_def)
  from Copyout_stored [OF b assms(2), of garbage] obtain d where
    "AppendOnlyVisimapEntry_Copyout garbage e t =
      Inr (e\<lparr>segmentFileNum := fst (tuple_range t), firstRowNum := snd (tuple_range t), visidata := Some d, bitmap := b\<rparr>)"
    "length (vdata d) = visimap_buffer_bytes" by blast
  with stored_word_count [OF b] stored_hidden [OF b] show ?thesis
    by (simp add: buffer_ok_def visimap_ok_def entry_hidden_def hidden_rows_def image_image)
qed

lemma scan_filter:
  "rows_ok rows \<Longrightarrow> systable_beginscan_ordered rows [(Anum_pg_aovisimap_segno, seg), (Anum_pg_aovisimap_firstrownum, first)] =
     filter (\<lambda>r. tuple_range (snd r) = (seg, first)) rows"
  unfolding systable_beginscan_ordered_def
  by (intro filter_cong refl)
    (auto simp: rows_ok_def table_ok_def list_all_iff key_matches_def Anum_pg_aovisimap_segno_def Anum_pg_aovisimap_firstrownum_def
      tuple_range_def dest!: row_attributes)

lemma scan_segment:
  "rows_ok rows \<Longrightarrow> systable_beginscan_ordered rows [(Anum_pg_aovisimap_segno, seg)] = filter (\<lambda>r. fst (tuple_range (snd r)) = seg) rows"
  unfolding systable_beginscan_ordered_def
  by (intro filter_cong refl)
    (auto simp: rows_ok_def table_ok_def list_all_iff key_matches_def tuple_range_def dest!: row_attributes)

lemma filter_unique: "distinct (map f xs) \<Longrightarrow> x \<in> set xs \<Longrightarrow> filter (\<lambda>y. f y = f x) xs = [x]"
proof (induction xs)
  case (Cons y ys)
  then show ?case by (cases "y = x") (auto simp: filter_empty_conv image_iff)
qed simp

definition store_ready :: "AppendOnlyVisimapStore \<Rightarrow> bool" where
  "store_ready s \<longleftrightarrow> (\<exists>a b. scanKeys s = Some [(Anum_pg_aovisimap_segno, a), (Anum_pg_aovisimap_firstrownum, b)]) \<and> rows_ok (visimap_rows s)"

text \<open>The row of a range, which is found, or not found, whatever the entry held before.\<close>

definition find_row :: "visimap_row list \<Rightarrow> range \<Rightarrow> visimap_row option" where
  "find_row rows k = (case filter (\<lambda>r. tuple_range (snd r) = k) rows of [] \<Rightarrow> None | r # _ \<Rightarrow> Some r)"

lemma find_row_Some:
  assumes "find_row rows k = Some r"
  shows "r \<in> set rows" and "tuple_range (snd r) = k"
proof -
  have "r \<in> set (filter (\<lambda>r. tuple_range (snd r) = k) rows)"
    using assms by (auto simp: find_row_def split: list.splits simp del: set_filter)
  then show "r \<in> set rows" "tuple_range (snd r) = k" by simp_all
qed

lemma find_row_None: "find_row rows k = None \<longleftrightarrow> (\<forall>r \<in> set rows. tuple_range (snd r) \<noteq> k)"
  unfolding find_row_def filter_empty_conv [symmetric] by (simp split: list.split)

lemma find_row_filter:
  assumes "rows_ok rows" and "r \<in> set rows"
  shows "filter (\<lambda>y. tuple_range (snd y) = tuple_range (snd r)) rows = [r]"
  using assms filter_unique [of "\<lambda>y. tuple_range (snd y)" rows r] by (simp add: rows_ok_def table_ok_def comp_def)

lemma find_row_in: "rows_ok rows \<Longrightarrow> r \<in> set rows \<Longrightarrow> find_row rows (tuple_range (snd r)) = Some r"
  by (simp add: find_row_def find_row_filter)

lemma rows_ok_row: "rows_ok rows \<Longrightarrow> r \<in> set rows \<Longrightarrow> row_ok (snd r) \<and> ItemPointerIsValid (fst r)"
  by (auto simp: rows_ok_def table_ok_def list_all_iff)

lemma Find_ok:
  assumes "store_ready s" and "buffer_ok e"
  shows "\<exists>s1 e1. AppendOnlyVisimapStore_Find garbage s seg first e = Inr (find_row (visimap_rows s) (seg, first) \<noteq> None, s1, e1) \<and>
    store_ready s1 \<and> visimap_rows s1 = visimap_rows s \<and> catalog_ops s1 = catalog_ops s \<and>
    (case find_row (visimap_rows s) (seg, first) of
       None \<Rightarrow> e1 = e
     | Some (tid, t) \<Rightarrow> (segmentFileNum e1, firstRowNum e1) = (seg, first) \<and> buffer_ok e1 \<and> visimap_ok e1 \<and>
         entry_hidden e1 = tuple_hidden t \<and> dirty e1 = dirty e \<and> tupleTid e1 = tid)"
proof -
  from assms(1) obtain a b where k: "scanKeys s = Some [(Anum_pg_aovisimap_segno, a), (Anum_pg_aovisimap_firstrownum, b)]"
    and ok: "rows_ok (visimap_rows s)" by (auto simp: store_ready_def)
  define s1 where "s1 = s\<lparr>scanKeys := Some [(Anum_pg_aovisimap_segno, seg), (Anum_pg_aovisimap_firstrownum, first)]\<rparr>"
  have s1: "store_ready s1" "visimap_rows s1 = visimap_rows s" "catalog_ops s1 = catalog_ops s"
    using ok by (simp_all add: s1_def store_ready_def)
  let ?scan = "filter (\<lambda>r. tuple_range (snd r) = (seg, first)) (visimap_rows s)"
  have find: "AppendOnlyVisimapStore_Find garbage s seg first e =
      bindE (AppendOnlyVisimapStore_GetNext garbage ?scan BackwardScanDirection (Some e)) (\<lambda>(found, _, entry).
        case (found, entry) of (Some tid, Some e1) \<Rightarrow> Inr (True, s1, e1\<lparr>tupleTid := tid\<rparr>) | _ \<Rightarrow> Inr (False, s1, e))"
    using k ok by (simp add: AppendOnlyVisimapStore_Find_def AppendOnlyVisimapStore_BeginScan_def scan_filter s1_def Let_def cong: option.case_cong)
  show ?thesis
  proof (cases "find_row (visimap_rows s) (seg, first)")
    case None
    then have "?scan = []" by (simp add: find_row_None filter_empty_conv)
    with None find s1 show ?thesis by (simp add: AppendOnlyVisimapStore_GetNext_def AppendOnlyVisimapStore_GetNextTuple_def)
  next
    case (Some r)
    obtain tid t where r: "r = (tid, t)" by (cases r)
    from find_row_Some [OF Some] r have t: "(tid, t) \<in> set (visimap_rows s)" "tuple_range t = (seg, first)" by simp_all
    with find_row_filter [OF ok t(1)] have scan: "?scan = [(tid, t)]" by simp
    have "row_ok t" using rows_ok_row [OF ok t(1)] by simp
    from Copyout_row [OF this assms(2), of garbage] obtain e1 where
      "AppendOnlyVisimapEntry_Copyout garbage e t = Inr e1" "(segmentFileNum e1, firstRowNum e1) = tuple_range t"
      "buffer_ok e1" "visimap_ok e1" "entry_hidden e1 = tuple_hidden t" "dirty e1 = dirty e" by blast
    with Some r s1 t(2) show ?thesis unfolding find scan
      by (simp add: AppendOnlyVisimapStore_GetNext_def AppendOnlyVisimapStore_GetNextTuple_def buffer_ok_def visimap_ok_def
          entry_hidden_def hidden_rows_def)
  qed
qed

lemma Store_ok:
  assumes "buffer_ok e" and "visimap_ok e" and "range_ok (segmentFileNum e, firstRowNum e)"
  shows "\<exists>t e1. AppendOnlyVisimapStore_Store s e = Inr (s\<lparr>catalog_ops := catalog_ops s @
      [if ItemPointerIsValid (tupleTid e) then CatalogTupleUpdate (tupleTid e) t else CatalogTupleInsert t]\<rparr>, e1) \<and>
    row_ok t \<and> tuple_range t = (segmentFileNum e, firstRowNum e) \<and> tuple_hidden t = entry_hidden e \<and>
    buffer_ok e1 \<and> visimap_ok e1 \<and> \<not> dirty e1 \<and> (segmentFileNum e1, firstRowNum e1) = (segmentFileNum e, firstRowNum e)"
proof -
  from Write_stored [OF assms(1,2)] obtain t d b where
    w: "AppendOnlyVisimapEntry_Write e = Inr (t, e\<lparr>visidata := Some d, dirty := False\<rparr>)" "length (vdata d) = visimap_buffer_bytes"
      "stored t (segmentFileNum e) (firstRowNum e) b" "bms_members b = bms_members (bitmap e)" by blast
  then show ?thesis
    using row_ok_stored [OF w(3) assms(3)] stored_range [OF w(3)] stored_hidden [OF w(3)] assms(2)
    by (intro exI [of _ t]) (simp add: AppendOnlyVisimapStore_Store_def Let_def buffer_ok_def visimap_ok_def entry_hidden_def hidden_rows_def image_image)
qed

section \<open>Ranges\<close>

text \<open>A row hides only rows of its range, and ranges do not overlap.\<close>

definition range_of :: "int \<times> int \<Rightarrow> range" where
  "range_of h = (fst h, snd h div 32768 * 32768)"

lemma range_of_in: "first mod 32768 = 0 \<Longrightarrow> m < 32768 \<Longrightarrow> range_of (seg, first + int m) = (seg, first)"
proof -
  assume first: "first mod 32768 = 0" and m: "m < 32768"
  from first obtain k where k: "first = 32768 * k" by (auto simp: mod_0_imp_dvd dvd_def)
  with m have "(first + int m) div 32768 = k" by simp
  with k show ?thesis by (simp add: range_of_def)
qed

lemma tuple_hidden_range: "row_ok t \<Longrightarrow> h \<in> tuple_hidden t \<Longrightarrow> range_of h = tuple_range t"
proof -
  assume "row_ok t" and h: "h \<in> tuple_hidden t"
  then obtain b where b: "stored t (fst (tuple_range t)) (snd (tuple_range t)) b" "range_ok (tuple_range t)" by (auto simp: row_ok_def)
  from h stored_hidden [OF b(1)] obtain m where
    m: "m \<in> bms_members b" "h = (fst (tuple_range t), snd (tuple_range t) + int m)" by auto
  have "m < 32768" using members_bound [OF m(1)] stored_word_count [OF b(1)] by linarith
  with m b(2) show ?thesis by (simp add: range_of_in range_ok_def)
qed

lemma tuple_hidden_card:
  assumes "row_ok t" and "buffer_ok e" and "AppendOnlyVisimapEntry_Copyout garbage e t = Inr e1"
  shows "AppendOnlyVisimapEntry_GetHiddenTupleCount e1 = card (tuple_hidden t) \<and> finite (tuple_hidden t)"
proof -
  from Copyout_row [OF assms(1,2), of garbage] assms(3) have "tuple_hidden t = entry_hidden e1" by auto
  moreover have "entry_hidden e1 = (\<lambda>m. (segmentFileNum e1, firstRowNum e1 + int m)) ` bms_members (bitmap e1)"
    by (auto simp: entry_hidden_def hidden_rows_def)
  moreover have "card ((\<lambda>m. (segmentFileNum e1, firstRowNum e1 + int m)) ` bms_members (bitmap e1)) = card (bms_members (bitmap e1))"
    by (rule card_image) (auto simp: inj_on_def)
  ultimately show ?thesis by (simp add: AppendOnlyVisimapEntry_GetHiddenTupleCount_def bms_num_members_card)
qed

lemma table_hidden_Cons:
  assumes "table_ok (t # ts)"
  shows "table_hidden (t # ts) = tuple_hidden t \<union> table_hidden ts" and "tuple_hidden t \<inter> table_hidden ts = {}"
proof -
  show "table_hidden (t # ts) = tuple_hidden t \<union> table_hidden ts" by (simp add: table_hidden_def)
  from assms have ok: "row_ok t" "\<And>u. u \<in> set ts \<Longrightarrow> row_ok u" "tuple_range t \<notin> tuple_range ` set ts"
    by (auto simp: table_ok_def list_all_iff)
  show "tuple_hidden t \<inter> table_hidden ts = {}"
    using tuple_hidden_range [OF ok(1)] tuple_hidden_range [OF ok(2)] ok(3) by (fastforce simp: table_hidden_def)
qed

lemma count_loop_ok:
  "table_ok (map snd scan) \<Longrightarrow> buffer_ok e \<Longrightarrow>
   \<exists>e1. count_loop garbage scan e n = Inr (n + card (table_hidden (map snd scan)), e1) \<and> finite (table_hidden (map snd scan))"
proof (induction scan arbitrary: e n)
  case Nil
  then show ?case
    by (subst count_loop.simps)
      (simp add: AppendOnlyVisimapStore_GetNext_def AppendOnlyVisimapStore_GetNextTuple_def table_hidden_def)
next
  case (Cons r scan)
  obtain tid t where r: "r = (tid, t)" by (cases r)
  from Cons.prems(1) r have ok: "row_ok t" "table_ok (map snd scan)" "table_ok (t # map snd scan)" by (auto simp: table_ok_def)
  from Copyout_row [OF ok(1) Cons.prems(2), of garbage] obtain e1 where
    e1: "AppendOnlyVisimapEntry_Copyout garbage e t = Inr e1" "buffer_ok e1" by blast
  note c = tuple_hidden_card [OF ok(1) Cons.prems(2) e1(1)]
  from Cons.IH [OF ok(2) e1(2), of "n + card (tuple_hidden t)"] obtain e2 where
    e2: "count_loop garbage scan e1 (n + card (tuple_hidden t)) = Inr (n + card (tuple_hidden t) + card (table_hidden (map snd scan)), e2)"
      "finite (table_hidden (map snd scan))" by blast
  have "card (table_hidden (t # map snd scan)) = card (tuple_hidden t) + card (table_hidden (map snd scan))"
    using table_hidden_Cons [OF ok(3)] c e2(2) by (simp add: card_Un_disjoint)
  moreover have "count_loop garbage (r # scan) e n = count_loop garbage scan e1 (n + card (tuple_hidden t))"
    using e1(1) c by (subst count_loop.simps)
      (simp add: AppendOnlyVisimapStore_GetNext_def AppendOnlyVisimapStore_GetNextTuple_def r)
  ultimately show ?case using e2 c r table_hidden_Cons [OF ok(3)] by auto
qed

lemma table_ok_filter: "table_ok (map snd rows) \<Longrightarrow> table_ok (map snd (filter P rows))"
  by (auto simp: table_ok_def list_all_iff distinct_map inj_on_def)

lemma segment_hidden:
  assumes "table_ok (map snd rows)"
  shows "table_hidden (map snd (filter (\<lambda>r. fst (tuple_range (snd r)) \<in> S) rows)) = {h \<in> table_hidden (map snd rows). fst h \<in> S}"
proof -
  have "fst h = fst (tuple_range (snd r))" if "r \<in> set rows" "h \<in> tuple_hidden (snd r)" for r h
  proof -
    have "range_of h = tuple_range (snd r)" using that assms by (intro tuple_hidden_range) (auto simp: table_ok_def list_all_iff)
    then show ?thesis by (metis fst_conv range_of_def)
  qed
  then show ?thesis by (auto simp: table_hidden_def)
qed

lemma delete_loop_ok:
  "delete_loop garbage s scan = Inr (s\<lparr>catalog_ops := catalog_ops s @ map (CatalogTupleDelete \<circ> fst) scan\<rparr>)"
proof (induction scan arbitrary: s)
  case Nil
  then show ?case by (subst delete_loop.simps) (simp add: AppendOnlyVisimapStore_GetNext_def AppendOnlyVisimapStore_GetNextTuple_def)
next
  case (Cons r scan)
  then show ?case
    by (cases r) (subst delete_loop.simps, simp add: AppendOnlyVisimapStore_GetNext_def AppendOnlyVisimapStore_GetNextTuple_def)
qed

lemma kills_deletes: "concat (map op_kills (map (CatalogTupleDelete \<circ> fst) scan)) = map fst scan"
  "concat (map op_writes (map (CatalogTupleDelete \<circ> fst) scan)) = []"
  by (induction scan) simp_all

text \<open>A relation with one row, which hides the row 32768 of segment file 1.\<close>

definition sample_tuple :: visimap_tuple where
  "sample_tuple = (case AppendOnlyVisimapEntry_Write (sample_entry\<lparr>bitmap := mk_bms [1]\<rparr>) of
     Inr (t, _) \<Rightarrow> t | Inl _ \<Rightarrow> \<lparr>t_segno = None, t_firstrownum = None, t_visimap = None\<rparr>)"

definition sample_store :: AppendOnlyVisimapStore where
  "sample_store = AppendOnlyVisimapStore_Init [(\<lparr>bytes_0_1 = 0, bytes_2_3 = 0, bytes_4_5 = 1\<rparr>, sample_tuple)]"

lemma sample_members: "word_members [1 :: uint64] = {0}"
proof -
  have "n \<in> word_members [1 :: uint64] \<longleftrightarrow> n = 0" for n
    using word_members_bound [of n "[1]"] by (cases "n < 64") (auto simp: mem_words bit_1_iff nth_default_def)
  then show ?thesis by blast
qed

lemma sample_tuple_ok: "row_ok sample_tuple" "tuple_range sample_tuple = (1, 32768)" "tuple_hidden sample_tuple = {(1, 32768)}"
proof -
  have "buffer_ok (sample_entry\<lparr>bitmap := mk_bms [1]\<rparr>)" "visimap_ok (sample_entry\<lparr>bitmap := mk_bms [1]\<rparr>)"
    by (simp_all add: buffer_ok_def visimap_ok_def word_count_def nwords_def)
  from Write_stored [OF this] obtain b where b: "stored sample_tuple 1 32768 b" "bms_members b = word_members [1]"
    by (auto simp: sample_tuple_def)
  show "row_ok sample_tuple" by (rule row_ok_stored [OF b(1)]) (simp add: range_ok_def)
  show "tuple_range sample_tuple = (1, 32768)" by (rule stored_range [OF b(1)])
  show "tuple_hidden sample_tuple = {(1, 32768)}" using stored_hidden [OF b(1)] b(2) sample_members by auto
qed

lemma sample_store_ready: "store_ready sample_store" "catalog_ops sample_store = []"
  "map snd (visimap_rows sample_store) = [sample_tuple]"
  using sample_tuple_ok(1)
  by (simp_all add: sample_store_def store_ready_def AppendOnlyVisimapStore_Init_def rows_ok_def table_ok_def ItemPointerIsValid_def)

lemma sample_hidden: "table_hidden (map snd (visimap_rows sample_store)) = {(1, 32768)}"
  by (simp add: sample_store_ready table_hidden_def sample_tuple_ok)

section \<open>Properties\<close>

text \<open>
  C23: the counts are exact: the number of hidden tuples that the relation counts for the whole table, and for a segment
  file, is the number of row numbers that the rows of the relation hide.
\<close>

theorem HiddenTupleCount_exact:
  assumes "store_ready s" and "buffer_ok e"
  shows "\<exists>e1 e2. AppendOnlyVisimapStore_GetRelationHiddenTupleCount garbage s e = Inr (card (table_hidden (map snd (visimap_rows s))), e1) \<and>
    AppendOnlyVisimapStore_GetSegmentFileHiddenTupleCount garbage s e seg =
      Inr (card {h \<in> table_hidden (map snd (visimap_rows s)). fst h = seg}, e2)"
proof -
  have ok: "rows_ok (visimap_rows s)" "table_ok (map snd (visimap_rows s))" using assms(1) by (auto simp: store_ready_def rows_ok_def)
  have all: "systable_beginscan_ordered (visimap_rows s) [] = visimap_rows s" by (simp add: systable_beginscan_ordered_def)
  show ?thesis
    using count_loop_ok [OF ok(2) assms(2), of garbage 0]
      count_loop_ok [OF table_ok_filter [OF ok(2), of "\<lambda>r. fst (tuple_range (snd r)) = seg"] assms(2), of garbage 0]
      segment_hidden [OF ok(2), of "{seg}"]
    by (auto simp: AppendOnlyVisimapStore_GetRelationHiddenTupleCount_def AppendOnlyVisimapStore_GetSegmentFileHiddenTupleCount_def
        AppendOnlyVisimapStore_BeginScan_def all scan_segment [OF ok(1)])
qed

theorem HiddenTupleCount_exact_witness:
  "\<exists>e1 e2. AppendOnlyVisimapStore_GetRelationHiddenTupleCount blank_state sample_store blank_entry = Inr (1, e1) \<and>
    AppendOnlyVisimapStore_GetSegmentFileHiddenTupleCount blank_state sample_store blank_entry 3 = Inr (0, e2)"
proof -
  have none: "{h \<in> {(1, 32768)}. fst h = 3} = ({} :: (int \<times> int) set)" by auto
  show ?thesis
    using HiddenTupleCount_exact [OF sample_store_ready(1) blank_buffer_ok, of blank_state 3] unfolding sample_hidden none by simp
qed



end
