(* ===== verification/Bytes.thy ===== *)
theory Bytes
  imports Prelude
begin

text \<open>
  Buffers as lists of bytes: writing at an offset, numbers in the byte order of the machine, checked accesses, and
  arrays of cells of a fixed width.  A byte written behind the end of a list extends it, as it does for a file; the
  checked accesses to memory refuse that.
\<close>

definition put_bytes :: "uint8 list \<Rightarrow> nat \<Rightarrow> uint8 list \<Rightarrow> uint8 list" where
  "put_bytes xs off ys = take off (xs @ replicate (off - length xs) 0) @ ys @ drop (off + length ys) xs"

lemma put_bytes_in: "off \<le> length xs \<Longrightarrow> put_bytes xs off ys = take off xs @ ys @ drop (off + length ys) xs"
  by (simp add: put_bytes_def)

lemma length_put_bytes: "off \<le> length xs \<Longrightarrow> length (put_bytes xs off ys) = max (length xs) (off + length ys)"
  by (simp add: put_bytes_in)

lemma put_bytes_Nil [simp]: "off \<le> length xs \<Longrightarrow> put_bytes xs off [] = xs"
  by (simp add: put_bytes_in)

lemma put_bytes_end [simp]: "put_bytes xs (length xs) ys = xs @ ys"
  by (simp add: put_bytes_in)

lemma put_bytes_prefix: "q \<le> length ys \<Longrightarrow> put_bytes (xs @ ys) (length xs + q) zs = xs @ put_bytes ys q zs"
  by (simp add: put_bytes_in add.assoc)

lemma put_bytes_suffix: "off + length zs \<le> length xs \<Longrightarrow> put_bytes (xs @ ys) off zs = put_bytes xs off zs @ ys"
  by (simp add: put_bytes_in)

lemma put_bytes_twice:
  "off \<le> length xs \<Longrightarrow> put_bytes (put_bytes xs off ys) (off + length ys) zs = put_bytes xs off (ys @ zs)"
  by (simp add: put_bytes_in) (simp add: drop_append ac_simps)

lemma put_bytes_take: "off \<le> length xs \<Longrightarrow> off + n \<le> length xs \<Longrightarrow> put_bytes xs off (take n (drop off xs)) = xs"
  by (simp add: put_bytes_in) (metis append_take_drop_id drop_drop add.commute)

lemma put_bytes_nested:
  "off \<le> length xs \<Longrightarrow> q \<le> length ys \<Longrightarrow> put_bytes xs off (put_bytes ys q zs) = put_bytes (put_bytes xs off ys) (off + q) zs"
  by (simp add: put_bytes_in) (auto simp: min_def drop_append ac_simps intro!: arg_cong [where f = "\<lambda>k. drop k xs"])

text \<open>Numbers as bytes, least significant byte first.\<close>

definition le_bytes :: "nat \<Rightarrow> nat \<Rightarrow> uint8 list" where
  "le_bytes n x = map (\<lambda>i. of_nat (x div 256 ^ i)) [0..<n]"

fun le_nat :: "uint8 list \<Rightarrow> nat" where
  "le_nat [] = 0"
| "le_nat (b # bs) = unat b + 256 * le_nat bs"

lemma le_bytes_Suc: "le_bytes (Suc n) x = of_nat x # le_bytes n (x div 256)"
  by (simp add: le_bytes_def upt_conv_Cons map_Suc_upt [symmetric] div_mult2_eq del: upt_Suc)

lemma le_nat_bytes: "le_nat (le_bytes n x) = x mod 256 ^ n"
proof (induction n arbitrary: x)
  case (Suc n)
  have "x mod (256 * 256 ^ n) = 256 * (x div 256 mod 256 ^ n) + x mod 256" by (rule mod_mult2_eq)
  with Suc show ?case by (simp add: le_bytes_Suc unsigned_of_nat take_bit_eq_mod)
qed (simp add: le_bytes_def)

lemma le_bytes_mod: "le_bytes n (x mod 256 ^ n) = le_bytes n x"
proof (induction n arbitrary: x)
  case (Suc n)
  have m: "x mod 256 ^ Suc n = 256 * (x div 256 mod 256 ^ n) + x mod 256" by (simp add: mod_mult2_eq)
  have "(of_nat (x mod 256 ^ Suc n) :: uint8) = of_nat x"
    unfolding m word_unat_eq_iff unat_of_nat by simp
  moreover have "x mod 256 ^ Suc n div 256 = x div 256 mod 256 ^ n" unfolding m by simp
  ultimately show ?case using Suc [of "x div 256"] by (simp add: le_bytes_Suc)
qed (simp add: le_bytes_def)

lemma length_le_bytes [simp]: "length (le_bytes n x) = n"
  by (simp add: le_bytes_def)

text \<open>Reading and writing a buffer at an offset.\<close>

definition mem_read :: "uint8 list \<Rightarrow> int \<Rightarrow> int \<Rightarrow> uint8 list result" where
  "mem_read buf off n =
     (if 0 \<le> off \<and> 0 \<le> n \<and> off + n \<le> int (length buf) then Inr (take (nat n) (drop (nat off) buf))
      else Inl (UB ''read outside of a buffer''))"

definition mem_write :: "uint8 list \<Rightarrow> int \<Rightarrow> uint8 list \<Rightarrow> uint8 list result" where
  "mem_write buf off bs =
     (if 0 \<le> off \<and> off + int (length bs) \<le> int (length buf) then Inr (put_bytes buf (nat off) bs)
      else Inl (UB ''write outside of a buffer''))"

lemma mem_read_nat: "off + n \<le> length buf \<Longrightarrow> mem_read buf (int off) (int n) = Inr (take n (drop off buf))"
  by (simp add: mem_read_def)

lemma mem_read_at: "off = int (length as) \<Longrightarrow> n = int (length bs) \<Longrightarrow> mem_read (as @ bs @ cs) off n = Inr bs"
  by (simp add: mem_read_def)

lemma mem_write_at:
  "off = int (length as) \<Longrightarrow> length bs \<le> length cs \<Longrightarrow> mem_write (as @ cs) off bs = Inr (as @ bs @ drop (length bs) cs)"
  by (simp add: mem_write_def put_bytes_in)

lemma le_nat_less: "le_nat bs < 256 ^ length bs"
proof (induction bs)
  case (Cons b bs)
  have "unat b < 256" using unsigned_less [of b, where ?'a = nat] by simp
  with Cons show ?case by simp
qed simp

lemma le_bytes_nat: "le_bytes (length bs) (le_nat bs) = bs"
proof (induction bs)
  case (Cons b bs)
  have "(unat b + 256 * le_nat bs) div 256 = le_nat bs" using unsigned_less [of b, where ?'a = nat] by simp
  moreover have "of_nat (unat b + 256 * le_nat bs) = b"
    unfolding word_unat_eq_iff unat_of_nat using unsigned_less [of b, where ?'a = nat] by simp
  ultimately show ?case using Cons by (simp add: le_bytes_Suc)
qed (simp add: le_bytes_def)

text \<open>The cells of an array of fixed width.\<close>

lemma cell_concat:
  "list_all (\<lambda>x. length (g x) = w) os \<Longrightarrow> k < length os \<Longrightarrow> take w (drop (k * w) (concat (map g os) @ rest)) = g (os ! k)"
proof (induction os arbitrary: k)
  case (Cons x os)
  then show ?case by (cases k) (auto simp: drop_append)
qed simp

lemma cells_concat:
  "n * w \<le> length s \<Longrightarrow> \<forall>k < n. take w (drop (k * w) s) = f k \<Longrightarrow> take (n * w) s = concat (map f [0..<n])"
proof (induction n)
  case (Suc n)
  have "take (Suc n * w) s = take (n * w) s @ take w (drop (n * w) s)" using take_add [of "n * w" w s] by (simp add: add.commute)
  with Suc show ?case by simp
qed simp

end
