(* ===== verification/BufFile.thy ===== *)
theory BufFile
  imports Bytes
begin

text \<open>
  Buffered temporary files, \<^verbatim>\<open>src/backend/storage/file/buffile.c\<close>, in a build without zstd.  A file is a
  sequence of physical segments of a gigabyte, with one buffer whose start has a position in some
  segment.  Segments are byte lists; what the operating system does with a read or a write request,
  which may be served in part or fail, is an argument.  The abstract view is a list of bytes and a
  position in it; the locale \<open>spill_file\<close> is the contract that the visibility map uses.
\<close>

section \<open>Model\<close>

definition BLCKSZ :: nat where "BLCKSZ = 32768"

definition MAX_PHYSICAL_FILESIZE :: nat where "MAX_PHYSICAL_FILESIZE = 0x40000000"

definition BUFFILE_SEG_SIZE :: nat where "BUFFILE_SEG_SIZE = MAX_PHYSICAL_FILESIZE div BLCKSZ"

datatype BufFileState =
  BFS_RANDOM_ACCESS | BFS_SEQUENTIAL_WRITING | BFS_SEQUENTIAL_READING | BFS_COMPRESSED_WRITING | BFS_COMPRESSED_READING

text \<open>
  The physical files are the elements of \<open>files\<close>, and \<^verbatim>\<open>numFiles\<close> is their number.  Bookkeeping of
  transactions, resource owners and workfile sets is left out.
\<close>

record BufFile =
  files :: "uint8 list list"
  bf_dirty :: bool
  curFile :: nat
  curOffset :: int
  bf_pos :: nat
  nbytes :: nat
  buffer :: "uint8 list"
  bf_state :: BufFileState

abbreviation numFiles :: "BufFile \<Rightarrow> nat" where
  "numFiles f \<equiv> length (files f)"

text \<open>
  The operating system: the result of \<^verbatim>\<open>FileWrite\<close> and \<^verbatim>\<open>FileRead\<close>, given the segment, the offset, and the
  number of bytes that are to be written or that are available for reading.
\<close>

record file_io =
  fwrite :: "nat \<Rightarrow> int \<Rightarrow> nat \<Rightarrow> int"
  fread :: "nat \<Rightarrow> int \<Rightarrow> nat \<Rightarrow> int"

text \<open>Bytes written beyond the end of a file leave a hole of zeros.\<close>

definition FileWrite :: "file_io \<Rightarrow> nat \<Rightarrow> uint8 list \<Rightarrow> int \<Rightarrow> uint8 list \<Rightarrow> int \<times> uint8 list" where
  "FileWrite io k xs off ys =
     (let r = fwrite io k off (length ys)
      in (r, if r \<le> 0 then xs else put_bytes xs (nat off) (take (nat r) ys)))"

definition FileRead :: "file_io \<Rightarrow> nat \<Rightarrow> uint8 list \<Rightarrow> int \<Rightarrow> nat \<Rightarrow> uint8 list option" where
  "FileRead io k xs off n =
     (let avail = take n (drop (nat off) xs); r = fread io k off (length avail)
      in if r < 0 then None else Some (take (nat r) avail))"

subsection \<open>Creating and extending\<close>

text \<open>\<open>junk\<close> is what the allocated buffer holds.\<close>

definition makeBufFileCommon :: "uint8 list list \<Rightarrow> uint8 list \<Rightarrow> BufFile" where
  "makeBufFileCommon fs junk =
     \<lparr>files = fs, bf_dirty = False, curFile = 0, curOffset = 0, bf_pos = 0, nbytes = 0,
      buffer = take BLCKSZ (junk @ replicate BLCKSZ 0), bf_state = BFS_RANDOM_ACCESS\<rparr>"

definition makeBufFile :: "uint8 list \<Rightarrow> uint8 list \<Rightarrow> BufFile" where
  "makeBufFile firstfile junk = makeBufFileCommon [firstfile] junk"

definition BufFileCreateTempInSet :: "uint8 list \<Rightarrow> BufFile" where
  "BufFileCreateTempInSet junk = makeBufFile [] junk"

definition BufFileCreateTemp :: "uint8 list \<Rightarrow> BufFile" where
  "BufFileCreateTemp junk = BufFileCreateTempInSet junk"

definition extendBufFile :: "BufFile \<Rightarrow> BufFile" where
  "extendBufFile f = f\<lparr>files := files f @ [[]]\<rparr>"

text \<open>The loop \<^verbatim>\<open>while (file->curFile + 1 >= file->numFiles) extendBufFile(file)\<close>.\<close>

function extend_loop :: "BufFile \<Rightarrow> BufFile" where
  "extend_loop f = (if curFile f + 1 \<ge> numFiles f then extend_loop (extendBufFile f) else f)"
  by auto
termination
  by (relation "measure (\<lambda>f. curFile f + 2 - numFiles f)") (auto simp: extendBufFile_def)

declare extend_loop.simps [simp del]

subsection \<open>Moving data between buffer and segments\<close>

definition BufFileLoadBuffer :: "file_io \<Rightarrow> BufFile \<Rightarrow> BufFile result" where
  "BufFileLoadBuffer io f =
     (let f1 = (if curOffset f \<ge> int MAX_PHYSICAL_FILESIZE \<and> curFile f + 1 < numFiles f
                then f\<lparr>curFile := curFile f + 1, curOffset := 0\<rparr> else f)
      in case FileRead io (curFile f1) (files f1 ! curFile f1) (curOffset f1) BLCKSZ of
           None \<Rightarrow> Inl (ERROR ''could not read file'')
         | Some bs \<Rightarrow> Inr (f1\<lparr>buffer := bs @ drop (length bs) (buffer f1), nbytes := length bs\<rparr>))"

text \<open>The first step of an iteration of the loop of \<^verbatim>\<open>BufFileDumpBuffer\<close>: the next segment, if this one is full.\<close>

definition dump_segment :: "BufFile \<Rightarrow> BufFile" where
  "dump_segment f =
     (if curOffset f \<ge> int MAX_PHYSICAL_FILESIZE
      then let g = extend_loop f in g\<lparr>curFile := curFile g + 1, curOffset := 0\<rparr> else f)"

lemma extend_loop_keeps [simp]:
  "nbytes (extend_loop f) = nbytes f" "buffer (extend_loop f) = buffer f" "bf_pos (extend_loop f) = bf_pos f"
  "bf_dirty (extend_loop f) = bf_dirty f" "bf_state (extend_loop f) = bf_state f"
  "curFile (extend_loop f) = curFile f" "curOffset (extend_loop f) = curOffset f"
  by (induction f rule: extend_loop.induct; subst extend_loop.simps; simp add: extendBufFile_def)+

lemma dump_segment_keeps [simp]:
  "nbytes (dump_segment f) = nbytes f" "buffer (dump_segment f) = buffer f" "bf_pos (dump_segment f) = bf_pos f"
  "bf_dirty (dump_segment f) = bf_dirty f" "bf_state (dump_segment f) = bf_state f"
  by (simp_all add: dump_segment_def Let_def)

function dump_loop :: "file_io \<Rightarrow> nat \<Rightarrow> BufFile \<Rightarrow> BufFile result" where
  "dump_loop io wpos f =
     (if wpos < nbytes f then
        let f1 = dump_segment f;
            availbytes = int MAX_PHYSICAL_FILESIZE - curOffset f1;
            bytestowrite = (if int (nbytes f1 - wpos) > availbytes then nat availbytes else nbytes f1 - wpos);
            (r, xs) = FileWrite io (curFile f1) (files f1 ! curFile f1) (curOffset f1) (take bytestowrite (drop wpos (buffer f1)))
        in if r \<le> 0 then Inl (ERROR ''could not write to file'')
           else dump_loop io (wpos + nat r) (f1\<lparr>files := (files f1)[curFile f1 := xs], curOffset := curOffset f1 + r\<rparr>)
      else Inr f)"
  by auto
termination
  by (relation "measure (\<lambda>(io, wpos, f). nbytes f - wpos)") auto

declare dump_loop.simps [simp del]

definition BufFileDumpBuffer :: "file_io \<Rightarrow> BufFile \<Rightarrow> BufFile result" where
  "BufFileDumpBuffer io f =
     bindE (dump_loop io 0 f) (\<lambda>f1.
       let off = curOffset f1 - (int (nbytes f1) - int (bf_pos f1));
           f2 = f1\<lparr>bf_dirty := False, curOffset := off\<rparr>;
           f3 = (if off < 0 then f2\<lparr>curFile := curFile f2 - 1, curOffset := off + int MAX_PHYSICAL_FILESIZE\<rparr> else f2)
       in Inr (f3\<lparr>bf_pos := 0, nbytes := 0\<rparr>))"

text \<open>What the compression functions do in a build without zstd.\<close>

definition no_zstd :: "'a result" where
  "no_zstd = Inl (ERROR ''zstandard compression not supported by this build'')"

definition BufFileFlush :: "file_io \<Rightarrow> BufFile \<Rightarrow> BufFile result" where
  "BufFileFlush io f =
     (let dump = (if bf_dirty f then BufFileDumpBuffer io f else Inr f)
      in case bf_state f of
           BFS_RANDOM_ACCESS \<Rightarrow> dump
         | BFS_SEQUENTIAL_WRITING \<Rightarrow> dump
         | BFS_COMPRESSED_WRITING \<Rightarrow> no_zstd
         | _ \<Rightarrow> Inr f)"

definition BufFileClose :: "file_io \<Rightarrow> BufFile \<Rightarrow> unit result" where
  "BufFileClose io f = bindE (BufFileFlush io f) (\<lambda>_. Inr ())"

subsection \<open>Reading\<close>

text \<open>The step of the reading loop that loads the next buffer.\<close>

definition refill :: "file_io \<Rightarrow> BufFile \<Rightarrow> BufFile result" where
  "refill io f =
     (if bf_pos f \<ge> nbytes f
      then BufFileLoadBuffer io (f\<lparr>curOffset := curOffset f + int (bf_pos f), bf_pos := 0, nbytes := 0\<rparr>)
      else Inr f)"

function read_loop :: "file_io \<Rightarrow> nat \<Rightarrow> uint8 list \<Rightarrow> BufFile \<Rightarrow> (uint8 list \<times> BufFile) result" where
  "read_loop io n acc f =
     (if n > 0 then
        (case refill io f of
           Inl e \<Rightarrow> Inl e
         | Inr f1 \<Rightarrow>
             if nbytes f1 \<le> bf_pos f1 then Inr (acc, f1)
             else
               let nthistime = min (nbytes f1 - bf_pos f1) n
               in read_loop io (n - nthistime) (acc @ take nthistime (drop (bf_pos f1) (buffer f1)))
                    (f1\<lparr>bf_pos := bf_pos f1 + nthistime\<rparr>))
      else Inr (acc, f))"
  by auto
termination
  by (relation "measure (\<lambda>(io, n, acc, f). n)") auto

declare read_loop.simps [simp del]

text \<open>The bytes that \<^verbatim>\<open>ptr\<close> points to afterwards; their number is the C result.\<close>

definition BufFileRead :: "file_io \<Rightarrow> BufFile \<Rightarrow> nat \<Rightarrow> (uint8 list \<times> BufFile) result" where
  "BufFileRead io f n =
     (let go = bindE (BufFileFlush io f) (read_loop io n [])
      in case bf_state f of
           BFS_RANDOM_ACCESS \<Rightarrow> go
         | BFS_SEQUENTIAL_READING \<Rightarrow> go
         | BFS_COMPRESSED_READING \<Rightarrow> no_zstd
         | _ \<Rightarrow> Inl (ERROR ''cannot read from sequential BufFile before rewinding to start''))"

definition BufFileReadFromBuffer :: "file_io \<Rightarrow> BufFile \<Rightarrow> nat \<Rightarrow> (uint8 list option \<times> BufFile) result" where
  "BufFileReadFromBuffer io f n =
     (let go = bindE (if bf_dirty f then BufFileFlush io f else Inr f) (\<lambda>f1.
            if bf_pos f1 + n < nbytes f1
            then Inr (Some (take n (drop (bf_pos f1) (buffer f1))), f1\<lparr>bf_pos := bf_pos f1 + n\<rparr>)
            else Inr (None, f1))
      in case bf_state f of
           BFS_RANDOM_ACCESS \<Rightarrow> go
         | BFS_SEQUENTIAL_READING \<Rightarrow> go
         | BFS_COMPRESSED_READING \<Rightarrow> Inr (None, f)
         | _ \<Rightarrow> Inl (ERROR ''cannot read from sequential BufFile before rewinding to start''))"

subsection \<open>Writing\<close>

text \<open>The step of the writing loop that makes room in a full buffer.\<close>

definition make_room :: "file_io \<Rightarrow> BufFile \<Rightarrow> BufFile result" where
  "make_room io f =
     (if bf_pos f \<ge> BLCKSZ then
        if bf_dirty f then BufFileDumpBuffer io f
        else Inr (f\<lparr>curOffset := curOffset f + int (bf_pos f), bf_pos := 0, nbytes := 0\<rparr>)
      else Inr f)"

lemma make_room_pos: "make_room io f = Inr g \<Longrightarrow> bf_pos g < BLCKSZ"
  by (auto simp: make_room_def BufFileDumpBuffer_def BLCKSZ_def Let_def bindE_eq_Inr split: if_splits)

function write_loop :: "file_io \<Rightarrow> uint8 list \<Rightarrow> nat \<Rightarrow> BufFile \<Rightarrow> (nat \<times> BufFile) result" where
  "write_loop io ptr nwritten f =
     (if ptr \<noteq> [] then
        (case make_room io f of
           Inl e \<Rightarrow> Inl e
         | Inr f1 \<Rightarrow>
             let nthistime = min (BLCKSZ - bf_pos f1) (length ptr);
                 pos1 = bf_pos f1 + nthistime
             in write_loop io (drop nthistime ptr) (nwritten + nthistime)
                  (f1\<lparr>buffer := take (bf_pos f1) (buffer f1) @ take nthistime ptr @ drop pos1 (buffer f1),
                      bf_dirty := True, bf_pos := pos1, nbytes := (if nbytes f1 < pos1 then pos1 else nbytes f1)\<rparr>))
      else Inr (nwritten, f))"
  by auto
termination
  by (relation "measure (\<lambda>(io, ptr, nwritten, f). length ptr)") (auto dest: make_room_pos)

declare write_loop.simps [simp del]

definition BufFileWrite :: "file_io \<Rightarrow> BufFile \<Rightarrow> uint8 list \<Rightarrow> (nat \<times> BufFile) result" where
  "BufFileWrite io f ptr =
     (case bf_state f of
        BFS_RANDOM_ACCESS \<Rightarrow> write_loop io ptr 0 f
      | BFS_SEQUENTIAL_WRITING \<Rightarrow> write_loop io ptr 0 f
      | BFS_COMPRESSED_WRITING \<Rightarrow> no_zstd
      | _ \<Rightarrow> Inl (ERROR ''cannot write to sequential BufFile after reading''))"

subsection \<open>Seeking\<close>

datatype whence = SEEK_SET | SEEK_CUR | SEEK_END

definition EOF :: int where "EOF = -1"

text \<open>The loop that carries a negative offset into earlier segments; \<open>None\<close> is \<^verbatim>\<open>return EOF\<close>.\<close>

function seek_back :: "int \<Rightarrow> int \<Rightarrow> (int \<times> int) option" where
  "seek_back newFile newOffset =
     (if newOffset < 0 then
        if newFile - 1 < 0 then None else seek_back (newFile - 1) (newOffset + int MAX_PHYSICAL_FILESIZE)
      else Some (newFile, newOffset))"
  by auto
termination
  by (relation "measure (\<lambda>(newFile, newOffset). nat (- newOffset))") (auto simp: MAX_PHYSICAL_FILESIZE_def)

text \<open>The loop that carries a large offset into later segments.\<close>

function seek_forward :: "nat \<Rightarrow> int \<Rightarrow> int \<Rightarrow> (int \<times> int) option" where
  "seek_forward nfiles newFile newOffset =
     (if newOffset > int MAX_PHYSICAL_FILESIZE then
        if newFile + 1 \<ge> int nfiles then None
        else seek_forward nfiles (newFile + 1) (newOffset - int MAX_PHYSICAL_FILESIZE)
      else Some (newFile, newOffset))"
  by auto
termination
  by (relation "measure (\<lambda>(nfiles, newFile, newOffset). nat newOffset)") (auto simp: MAX_PHYSICAL_FILESIZE_def)

declare seek_back.simps [simp del] seek_forward.simps [simp del]

text \<open>The first switch on \<^verbatim>\<open>whence\<close>: the target, and the file, which \<^verbatim>\<open>SEEK_END\<close> may flush.\<close>

definition seek_target :: "file_io \<Rightarrow> BufFile \<Rightarrow> int \<Rightarrow> int \<Rightarrow> whence \<Rightarrow> ((int \<times> int) option \<times> BufFile) result" where
  "seek_target io f fileno offset w =
     (case w of
        SEEK_SET \<Rightarrow> Inr (if fileno < 0 then None else Some (fileno, offset), f)
      | SEEK_CUR \<Rightarrow> Inr (Some (int (curFile f), curOffset f + int (bf_pos f) + offset), f)
      | SEEK_END \<Rightarrow>
          bindE (if curFile f = numFiles f - 1 \<and> bf_dirty f then BufFileFlush io f else Inr f) (\<lambda>f1.
          Inr (Some (int (numFiles f1) - 1, int (length (files f1 ! (numFiles f1 - 1)))), f1)))"

text \<open>The rest of \<^verbatim>\<open>BufFileSeek\<close>, once the target is known.\<close>

definition seek_to :: "file_io \<Rightarrow> BufFile \<Rightarrow> int \<Rightarrow> int \<Rightarrow> (int \<times> BufFile) result" where
  "seek_to io f newFile newOffset =
     (if newFile = int (curFile f) \<and> newOffset \<ge> curOffset f \<and> newOffset \<le> curOffset f + int (nbytes f)
      then Inr (0, f\<lparr>bf_pos := nat (newOffset - curOffset f)\<rparr>)
      else
        bindE (BufFileFlush io f) (\<lambda>f1.
          let (newFile1, newOffset1) =
                (if newFile = int (numFiles f1) \<and> newOffset = 0 then (newFile - 1, int MAX_PHYSICAL_FILESIZE)
                 else (newFile, newOffset))
          in case seek_forward (numFiles f1) newFile1 newOffset1 of
               None \<Rightarrow> Inr (EOF, f1)
             | Some (k, off) \<Rightarrow>
                 if k \<ge> int (numFiles f1) then Inr (EOF, f1)
                 else Inr (0, f1\<lparr>curFile := nat k, curOffset := off, bf_pos := 0, nbytes := 0\<rparr>)))"

definition BufFileSeek :: "file_io \<Rightarrow> BufFile \<Rightarrow> int \<Rightarrow> int \<Rightarrow> whence \<Rightarrow> (int \<times> BufFile) result" where
  "BufFileSeek io f fileno offset w =
     (let go = bindE (seek_target io f fileno offset w) (\<lambda>(target, f1).
            case target of
              None \<Rightarrow> Inr (EOF, f1)
            | Some (newFile, newOffset) \<Rightarrow>
                (case seek_back newFile newOffset of
                   None \<Rightarrow> Inr (EOF, f1)
                 | Some (k, off) \<Rightarrow> seek_to io f1 k off))
      in case bf_state f of
           BFS_RANDOM_ACCESS \<Rightarrow> go
         | BFS_SEQUENTIAL_WRITING \<Rightarrow>
             if fileno \<noteq> 0 \<or> offset \<noteq> 0 \<or> w \<noteq> SEEK_SET then Inl (ERROR ''invalid seek in sequential BufFile'') else go
         | BFS_COMPRESSED_WRITING \<Rightarrow>
             if fileno \<noteq> 0 \<or> offset \<noteq> 0 \<or> w \<noteq> SEEK_SET then Inl (ERROR ''invalid seek in sequential BufFile'') else no_zstd
         | _ \<Rightarrow> Inl (ERROR ''cannot seek in sequential BufFile''))"

definition BufFileTell :: "BufFile \<Rightarrow> int \<times> int" where
  "BufFileTell f = (int (curFile f), curOffset f + int (bf_pos f))"

text \<open>Block numbers are not negative here.\<close>

definition BufFileSeekBlock :: "file_io \<Rightarrow> BufFile \<Rightarrow> nat \<Rightarrow> (int \<times> BufFile) result" where
  "BufFileSeekBlock io f blknum =
     BufFileSeek io f (c_int (int (blknum div BUFFILE_SEG_SIZE))) (int (blknum mod BUFFILE_SEG_SIZE) * int BLCKSZ) SEEK_SET"

subsection \<open>Sizes, suspending and resuming\<close>

definition BufFileSize :: "BufFile \<Rightarrow> int" where
  "BufFileSize f = (int (numFiles f) - 1) * int MAX_PHYSICAL_FILESIZE + int (length (files f ! (numFiles f - 1)))"

text \<open>The compressed states, which assert false, are taken like the others.\<close>

definition BufFileGetSize :: "BufFile \<Rightarrow> int" where
  "BufFileGetSize f =
     (if BufFileSize f > curOffset f + int (bf_pos f) then BufFileSize f else curOffset f + int (bf_pos f))"

definition BufFileSuspend :: "file_io \<Rightarrow> BufFile \<Rightarrow> BufFile result" where
  "BufFileSuspend io f =
     (let go = bindE (BufFileFlush io f) (\<lambda>f1. Inr (f1\<lparr>buffer := [], nbytes := 0\<rparr>))
      in case bf_state f of
           BFS_RANDOM_ACCESS \<Rightarrow> go
         | BFS_SEQUENTIAL_WRITING \<Rightarrow> go
         | BFS_COMPRESSED_WRITING \<Rightarrow> no_zstd
         | _ \<Rightarrow> Inl (ERROR ''cannot suspend a sequential BufFile after reading''))"

definition BufFileResume :: "file_io \<Rightarrow> uint8 list \<Rightarrow> BufFile \<Rightarrow> BufFile result" where
  "BufFileResume io junk f =
     (let go = bindE (BufFileSeek io (f\<lparr>buffer := take BLCKSZ (junk @ replicate BLCKSZ 0)\<rparr>) 0 0 SEEK_SET) (\<lambda>(r, f1).
            if r \<noteq> 0 then Inl (ERROR ''could not seek to the first block of temporary file'') else Inr f1)
      in case bf_state f of
           BFS_RANDOM_ACCESS \<Rightarrow> go
         | BFS_SEQUENTIAL_READING \<Rightarrow> go
         | BFS_COMPRESSED_READING \<Rightarrow> Inr f
         | _ \<Rightarrow> Inl (ERROR ''cannot resume a sequential BufFile that is still writing''))"

text \<open>
  \<open>compression\<close> is \<^verbatim>\<open>gp_workfile_compression\<close> with room left in the overhead limit.  The state of the file is not
  changed otherwise.
\<close>

definition BufFilePledgeSequential :: "bool \<Rightarrow> BufFile \<Rightarrow> BufFile result" where
  "BufFilePledgeSequential compression f =
     (if BufFileSize f \<noteq> 0 then Inl (ERROR ''cannot pledge sequential access to a temporary file after writing it'')
      else if compression then no_zstd else Inr f)"

definition BufFileAppend :: "BufFile \<Rightarrow> BufFile \<Rightarrow> (nat \<times> BufFile) result" where
  "BufFileAppend target source =
     (if bf_state target \<in> {BFS_COMPRESSED_WRITING, BFS_COMPRESSED_READING} \<or>
         bf_state source \<in> {BFS_COMPRESSED_WRITING, BFS_COMPRESSED_READING}
      then Inl (ERROR ''cannot append a compressed BufFile'')
      else Inr (numFiles target * BUFFILE_SEG_SIZE, target\<lparr>files := files target @ files source\<rparr>))"

end
