(* ===== verification/BufFileBytes.thy ===== *)
theory BufFileBytes
  imports BufFile
begin

text \<open>
  What the buffered temporary files of \<^verbatim>\<open>buffile.c\<close> mean: a list of bytes and a position in it.  The invariant \<open>bf_ok\<close>
  says how segments and buffer fit together; as long as the file system makes progress, every operation keeps it and
  acts on the list of bytes the way a plain file would, however the system splits the transfers.
\<close>

section \<open>Segments as one list of bytes\<close>

lemma sizes [simp]: "0 < MAX_PHYSICAL_FILESIZE" "0 < BLCKSZ" "BLCKSZ \<le> MAX_PHYSICAL_FILESIZE"
  by (simp_all add: MAX_PHYSICAL_FILESIZE_def BLCKSZ_def)

text \<open>All segments but the last one are full.\<close>

fun segs :: "uint8 list list \<Rightarrow> bool" where
  "segs [] = False"
| "segs [x] = (length x \<le> MAX_PHYSICAL_FILESIZE)"
| "segs (x # y # zs) = (length x = MAX_PHYSICAL_FILESIZE \<and> segs (y # zs))"

lemma segs_nonempty: "segs fs \<Longrightarrow> fs \<noteq> []"
  by auto

lemma segs_length: "segs fs \<Longrightarrow> length (concat fs) = (length fs - 1) * MAX_PHYSICAL_FILESIZE + length (last fs)"
  by (induction fs rule: segs.induct) auto

lemma segs_last: "segs fs \<Longrightarrow> length (last fs) \<le> MAX_PHYSICAL_FILESIZE"
  by (induction fs rule: segs.induct) auto

lemma segs_full: "segs fs \<Longrightarrow> Suc k < length fs \<Longrightarrow> length (fs ! k) = MAX_PHYSICAL_FILESIZE"
  by (induction fs arbitrary: k rule: segs.induct) (auto simp: nth_Cons split: nat.splits)

lemma segs_nth:
  "segs fs \<Longrightarrow> k < length fs \<Longrightarrow> fs ! k = take MAX_PHYSICAL_FILESIZE (drop (k * MAX_PHYSICAL_FILESIZE) (concat fs))"
proof (induction fs arbitrary: k rule: segs.induct)
  case (3 x y zs)
  then show ?case by (cases k) auto
qed auto

lemma segs_extend: "segs fs \<Longrightarrow> length (last fs) = MAX_PHYSICAL_FILESIZE \<Longrightarrow> segs (fs @ [[]])"
  by (induction fs rule: segs.induct) auto

lemma segs_pos:
  "segs fs \<Longrightarrow> k < length fs \<Longrightarrow> off \<le> length (fs ! k) \<Longrightarrow> k * MAX_PHYSICAL_FILESIZE + off \<le> length (concat fs)"
proof (induction fs arbitrary: k rule: segs.induct)
  case (3 x y zs)
  then show ?case by (cases k) fastforce+
qed auto

lemma segs_off:
  "segs fs \<Longrightarrow> k < length fs \<Longrightarrow> off \<le> MAX_PHYSICAL_FILESIZE \<Longrightarrow>
   k * MAX_PHYSICAL_FILESIZE + off \<le> length (concat fs) \<Longrightarrow> off \<le> length (fs ! k)"
  using segs_nth [of fs k] by simp

lemma segs_put:
  "segs fs \<Longrightarrow> k < length fs \<Longrightarrow> off \<le> length (fs ! k) \<Longrightarrow> off + length ys \<le> MAX_PHYSICAL_FILESIZE \<Longrightarrow>
   segs (fs[k := put_bytes (fs ! k) off ys]) \<and>
   concat (fs[k := put_bytes (fs ! k) off ys]) = put_bytes (concat fs) (k * MAX_PHYSICAL_FILESIZE + off) ys"
proof (induction fs arbitrary: k rule: segs.induct)
  case (2 x)
  then show ?case by (simp add: length_put_bytes)
next
  case (3 x y zs)
  show ?case
  proof (cases k)
    case 0
    with 3 show ?thesis by (simp add: length_put_bytes put_bytes_suffix)
  next
    case (Suc j)
    have off: "j * MAX_PHYSICAL_FILESIZE + off \<le> length (concat (y # zs))"
      using 3 Suc by (intro segs_pos) simp_all
    have "put_bytes (x @ concat (y # zs)) (length x + (j * MAX_PHYSICAL_FILESIZE + off)) ys =
        x @ put_bytes (concat (y # zs)) (j * MAX_PHYSICAL_FILESIZE + off) ys"
      by (rule put_bytes_prefix [OF off])
    moreover define v where "v = put_bytes ((y # zs) ! j) off ys"
    moreover have "segs ((y # zs)[j := v])" "concat ((y # zs)[j := v]) = put_bytes (concat (y # zs)) (j * MAX_PHYSICAL_FILESIZE + off) ys"
      using 3 Suc by (simp_all add: v_def)
    moreover obtain y' zs' where "(y # zs)[j := v] = y' # zs'" by (cases j) auto
    ultimately show ?thesis using 3 Suc by (simp add: add.assoc)
  qed
qed auto

section \<open>The buffer\<close>

definition flat :: "BufFile \<Rightarrow> uint8 list" where
  "flat f = concat (files f)"

definition base :: "BufFile \<Rightarrow> nat" where
  "base f = curFile f * MAX_PHYSICAL_FILESIZE + nat (curOffset f)"

text \<open>The buffer starts at a place in the segments, and no segment but the first one is empty.\<close>

definition placed :: "BufFile \<Rightarrow> bool" where
  "placed f \<longleftrightarrow> segs (files f) \<and> (1 < numFiles f \<longrightarrow> last (files f) \<noteq> []) \<and> curFile f < numFiles f \<and>
     0 \<le> curOffset f \<and> curOffset f \<le> int MAX_PHYSICAL_FILESIZE \<and> base f \<le> length (flat f)"

definition io_ok :: "file_io \<Rightarrow> bool" where
  "io_ok io \<longleftrightarrow> (\<forall>k off n. 0 < n \<longrightarrow> 0 < fwrite io k off n \<and> fwrite io k off n \<le> int n) \<and>
     (\<forall>k off n. 0 \<le> fread io k off n \<and> fread io k off n \<le> int n \<and> (0 < n \<longrightarrow> 0 < fread io k off n))"

lemma placed_offset: "placed f \<Longrightarrow> nat (curOffset f) \<le> length (files f ! curFile f)"
  unfolding placed_def base_def flat_def by (intro segs_off) auto

lemma extend_loop_last:
  "curFile f < numFiles f \<Longrightarrow> files (extend_loop f) = (if curFile f + 1 < numFiles f then files f else files f @ [[]])"
  by (subst extend_loop.simps) (simp add: extendBufFile_def extend_loop.simps [of "f\<lparr>files := files f @ [[]]\<rparr>"])

lemma dump_segment_placed:
  assumes "placed f"
  shows "segs (files (dump_segment f)) \<and> flat (dump_segment f) = flat f \<and> base (dump_segment f) = base f \<and>
    curFile (dump_segment f) < numFiles (dump_segment f) \<and> 0 \<le> curOffset (dump_segment f) \<and>
    curOffset (dump_segment f) < int MAX_PHYSICAL_FILESIZE \<and>
    (curFile f = numFiles f - 1 \<longrightarrow> curFile (dump_segment f) = numFiles (dump_segment f) - 1) \<and>
    (1 < numFiles (dump_segment f) \<longrightarrow> curFile (dump_segment f) \<noteq> numFiles (dump_segment f) - 1 \<longrightarrow> last (files (dump_segment f)) \<noteq> [])"
proof (cases "curOffset f < int MAX_PHYSICAL_FILESIZE")
  case True
  with assms show ?thesis by (auto simp: dump_segment_def placed_def)
next
  case False
  with assms have off: "curOffset f = int MAX_PHYSICAL_FILESIZE" by (simp add: placed_def)
  have p: "segs (files f)" "curFile f < numFiles f" "1 < numFiles f \<longrightarrow> last (files f) \<noteq> []" using assms by (simp_all add: placed_def)
  show ?thesis
  proof (cases "curFile f + 1 < numFiles f")
    case True
    with off p show ?thesis by (auto simp: dump_segment_def extend_loop_last flat_def base_def Let_def)
  next
    case False
    with p(2) have last: "curFile f = numFiles f - 1" by simp
    with placed_offset [OF assms] off p(1) have "length (last (files f)) = MAX_PHYSICAL_FILESIZE"
      using segs_last [OF p(1)] by (simp add: last_conv_nth segs_nonempty)
    with segs_extend [OF p(1)] False off p last show ?thesis
      by (auto simp: dump_segment_def extend_loop_last flat_def base_def Let_def)
  qed
qed

definition same_buffer :: "BufFile \<Rightarrow> BufFile \<Rightarrow> bool" where
  "same_buffer f g \<longleftrightarrow> bf_dirty g = bf_dirty f \<and> bf_pos g = bf_pos f \<and> nbytes g = nbytes f \<and> buffer g = buffer f \<and> bf_state g = bf_state f"

text \<open>Writing bytes of the buffer at the place where it starts.\<close>

lemma write_placed:
  assumes "placed f" and "g = dump_segment f" and "ys \<noteq> []" and "length ys \<le> MAX_PHYSICAL_FILESIZE - nat (curOffset g)"
    and "g' = g\<lparr>files := (files g)[curFile g := put_bytes (files g ! curFile g) (nat (curOffset g)) ys],
               curOffset := curOffset g + int (length ys)\<rparr>"
  shows "placed g' \<and> flat g' = put_bytes (flat f) (base f) ys \<and> base g' = base f + length ys \<and>
    0 < curOffset g' \<and> (curFile f = numFiles f - 1 \<longrightarrow> curFile g' = numFiles g' - 1)"
proof -
  note d = dump_segment_placed [OF assms(1), folded assms(2)]
  let ?off = "nat (curOffset g)" and ?x = "files g ! curFile g"
  have base_le: "base g \<le> length (flat g)" using d assms(1) by (simp add: placed_def)
  have off: "?off \<le> length ?x" using d base_le by (intro segs_off) (auto simp: base_def flat_def)
  have fit: "?off + length ys \<le> MAX_PHYSICAL_FILESIZE" using assms(4) d by linarith
  have put: "segs (files g')" "flat g' = put_bytes (flat f) (base f) ys"
    using segs_put [of "files g" "curFile g" ?off ys] d off fit by (simp_all add: assms(5) flat_def base_def)
  have base: "base g' = base f + length ys" using d by (simp add: assms(5) base_def nat_add_distrib)
  have "last (files g') \<noteq> []" if "1 < numFiles g'"
  proof (cases "curFile g = numFiles g - 1")
    case True
    then have "last (files g') = put_bytes ?x ?off ys" using d by (simp add: assms(5) last_conv_nth segs_nonempty)
    with assms(3) off show ?thesis by (simp add: put_bytes_in)
  next
    case False
    with d that last_list_update [of "files g" "curFile g"] segs_nonempty [of "files g"] show ?thesis by (simp add: assms(5))
  qed
  moreover have "base g' \<le> length (flat g')"
    using put(2) base base_le d by (simp add: length_put_bytes)
  moreover have "curOffset g' \<le> int MAX_PHYSICAL_FILESIZE" using fit d by (simp add: assms(5))
  ultimately have "placed g'" using put(1) d by (simp add: placed_def assms(5))
  moreover have "0 < curOffset g'" using assms(3) d by (cases ys) (auto simp: assms(5))
  ultimately show ?thesis using put(2) base d by (simp add: assms(5))
qed

lemma dump_loop_placed:
  "io_ok io \<Longrightarrow> placed f \<Longrightarrow> wpos \<le> nbytes f \<Longrightarrow> nbytes f \<le> length (buffer f) \<Longrightarrow>
    \<exists>g. dump_loop io wpos f = Inr g \<and> placed g \<and>
      flat g = put_bytes (flat f) (base f) (drop wpos (take (nbytes f) (buffer f))) \<and>
      base g = base f + (nbytes f - wpos) \<and> (wpos < nbytes f \<longrightarrow> 0 < curOffset g) \<and>
      (curFile f = numFiles f - 1 \<longrightarrow> curFile g = numFiles g - 1) \<and>
      same_buffer f g"
proof (induction io wpos f rule: dump_loop.induct)
  case (1 io wpos f)
  show ?case
  proof (cases "wpos < nbytes f")
    case False
    with 1 show ?thesis by (subst dump_loop.simps) (simp add: placed_def same_buffer_def)
  next
    case True
    define g where "g = dump_segment f"
    note d = dump_segment_placed [OF 1(3), folded g_def]
    define want where "want = (if int (nbytes g - wpos) > int MAX_PHYSICAL_FILESIZE - curOffset g
        then nat (int MAX_PHYSICAL_FILESIZE - curOffset g) else nbytes g - wpos)"
    have keep: "nbytes g = nbytes f" "buffer g = buffer f" "bf_pos g = bf_pos f" "bf_dirty g = bf_dirty f" "bf_state g = bf_state f"
      by (simp_all add: g_def)
    have want: "0 < want" "want \<le> nbytes f - wpos" "want \<le> MAX_PHYSICAL_FILESIZE - nat (curOffset g)"
      using True d by (auto simp: want_def keep)
    define out where "out = take want (drop wpos (buffer g))"
    have out: "length out = want" using want 1(5) by (simp add: out_def keep)
    define r where "r = fwrite io (curFile g) (curOffset g) want"
    have r: "0 < r" "nat r \<le> want" using 1(2) want(1) by (auto simp: io_ok_def r_def nat_le_iff)
    define ys where "ys = take (nat r) out"
    have ys: "int (length ys) = r" "ys \<noteq> []" "length ys \<le> MAX_PHYSICAL_FILESIZE - nat (curOffset g)"
      using r want out by (auto simp: ys_def)
    define g' where "g' = g\<lparr>files := (files g)[curFile g := put_bytes (files g ! curFile g) (nat (curOffset g)) ys],
      curOffset := curOffset g + int (length ys)\<rparr>"
    note w = write_placed [OF 1(3) g_def ys(2,3) g'_def]
    have fw: "FileWrite io (curFile g) (files g ! curFile g) (curOffset g) out =
        (r, put_bytes (files g ! curFile g) (nat (curOffset g)) ys)"
      unfolding FileWrite_def out r_def [symmetric] ys_def [symmetric] Let_def using r(1) by simp
    have step: "dump_loop io wpos f = dump_loop io (wpos + nat r) g'"
      unfolding dump_loop.simps [of io wpos f] Let_def g_def [symmetric] want_def [symmetric] out_def [symmetric] fw g'_def
      using True r(1) ys(1) by simp
    have keep': "nbytes g' = nbytes f" "buffer g' = buffer f" "bf_pos g' = bf_pos f" "bf_dirty g' = bf_dirty f" "bf_state g' = bf_state f"
      by (simp_all add: g'_def keep)
    have g': "g\<lparr>files := (files g)[curFile g := put_bytes (files g ! curFile g) (nat (curOffset g)) ys], curOffset := curOffset g + r\<rparr> = g'"
      by (simp add: g'_def ys(1))
    have "\<not> r \<le> 0" using r by simp
    note ih = 1(1) [OF True g_def refl want_def refl fw [unfolded out_def, symmetric] this, unfolded g', OF 1(2)]
    have "wpos + nat r \<le> nbytes f" using r want True by simp
    with ih w 1(5) obtain h where
      h: "dump_loop io (wpos + nat r) g' = Inr h" "placed h"
        "flat h = put_bytes (flat g') (base g') (drop (wpos + nat r) (take (nbytes f) (buffer f)))"
        "base h = base g' + (nbytes f - (wpos + nat r))" "curFile g' = numFiles g' - 1 \<longrightarrow> curFile h = numFiles h - 1"
        "wpos + nat r < nbytes f \<longrightarrow> 0 < curOffset h"
        "same_buffer g' h"
      unfolding keep' by blast
    have len: "length ys = nat r" using ys(1) by simp
    have split: "drop wpos (take (nbytes f) (buffer f)) = ys @ drop (wpos + nat r) (take (nbytes f) (buffer f))"
    proof -
      have "ys = take (nat r) (drop wpos (take (nbytes f) (buffer f)))"
        using r want by (simp add: ys_def out_def keep drop_take min_def)
      then show ?thesis by (metis append_take_drop_id drop_drop add.commute)
    qed
    have "flat h = put_bytes (flat f) (base f) (drop wpos (take (nbytes f) (buffer f)))"
      using h(3) w put_bytes_twice [of "base f" "flat f" ys] 1(3) by (simp add: split placed_def)
    moreover have "base h = base f + (nbytes f - wpos)" using h(4) w len r want by simp
    moreover have "0 < curOffset h"
    proof (cases "wpos + nat r < nbytes f")
      case False
      then have "h = g'" using h(1) by (subst (asm) dump_loop.simps) (simp add: keep')
      with w show ?thesis by simp
    qed (use h(6) in simp)
    moreover have "same_buffer f h" using h(7) by (simp add: same_buffer_def keep')
    ultimately show ?thesis using step h(1,2,5) w by auto
  qed
qed

section \<open>The abstract view\<close>

text \<open>
  The contents of a file are those of its segments with the valid part of the buffer written over them.
  A clean buffer does not reach beyond its segment and agrees with it.
\<close>

definition content :: "BufFile \<Rightarrow> uint8 list" where
  "content f = put_bytes (flat f) (base f) (take (nbytes f) (buffer f))"

definition position :: "BufFile \<Rightarrow> nat" where
  "position f = base f + bf_pos f"

definition clean :: "BufFile \<Rightarrow> bool" where
  "clean f \<longleftrightarrow> curOffset f + int (nbytes f) \<le> int MAX_PHYSICAL_FILESIZE \<and> base f + nbytes f \<le> length (flat f) \<and>
     take (nbytes f) (buffer f) = take (nbytes f) (drop (base f) (flat f))"

definition bf_ok :: "BufFile \<Rightarrow> bool" where
  "bf_ok f \<longleftrightarrow> bf_state f = BFS_RANDOM_ACCESS \<and> placed f \<and> length (buffer f) = BLCKSZ \<and> nbytes f \<le> BLCKSZ \<and>
     bf_pos f \<le> nbytes f \<and> (bf_dirty f \<or> clean f)"

lemma content_clean: "clean f \<Longrightarrow> placed f \<Longrightarrow> content f = flat f"
  by (simp add: content_def clean_def placed_def put_bytes_take)

lemma clean_empty [simp]: "nbytes f = 0 \<Longrightarrow> placed f \<Longrightarrow> clean f"
  by (simp add: clean_def placed_def)

lemma position_le: "bf_ok f \<Longrightarrow> position f \<le> length (content f)"
  by (auto simp: bf_ok_def position_def content_def placed_def length_put_bytes)

lemma DumpBuffer_ok:
  assumes "io_ok io" and "bf_ok f"
  shows "\<exists>g. BufFileDumpBuffer io f = Inr g \<and> bf_ok g \<and> content g = content f \<and> position g = position f \<and>
    \<not> bf_dirty g \<and> nbytes g = 0 \<and> bf_pos g = 0 \<and>
    (bf_pos f = nbytes f \<longrightarrow> curFile f = numFiles f - 1 \<longrightarrow> curFile g = numFiles g - 1) \<and>
    (bf_pos f = nbytes f \<longrightarrow> 0 < nbytes f \<longrightarrow> 0 < curOffset g)"
proof -
  have f: "placed f" "nbytes f \<le> length (buffer f)" "nbytes f \<le> BLCKSZ" "bf_pos f \<le> nbytes f" "length (buffer f) = BLCKSZ"
    "bf_state f = BFS_RANDOM_ACCESS" using assms(2) by (auto simp: bf_ok_def)
  from dump_loop_placed [OF assms(1) f(1) _ f(2), of 0] obtain g where
    g: "dump_loop io 0 f = Inr g" "placed g" "flat g = content f" "base g = base f + nbytes f" "0 < nbytes f \<longrightarrow> 0 < curOffset g"
      "curFile f = numFiles f - 1 \<longrightarrow> curFile g = numFiles g - 1" "same_buffer f g" by (auto simp: content_def)
  define gap where "gap = nbytes f - bf_pos f"
  define h where "h = (let off = curOffset g - int gap; f2 = g\<lparr>bf_dirty := False, curOffset := off\<rparr>
    in (if off < 0 then f2\<lparr>curFile := curFile f2 - 1, curOffset := off + int MAX_PHYSICAL_FILESIZE\<rparr> else f2)\<lparr>bf_pos := 0, nbytes := 0\<rparr>)"
  have run: "BufFileDumpBuffer io f = Inr h"
    using g(1,7) f(4) by (simp add: BufFileDumpBuffer_def h_def gap_def same_buffer_def Let_def of_nat_diff)
  have gap: "gap \<le> MAX_PHYSICAL_FILESIZE" "gap \<le> base g" using le_trans [OF f(3) sizes(3)] g(4) by (simp_all add: gap_def)
  have base: "base h + gap = base g \<and> 0 \<le> curOffset h \<and> curOffset h \<le> int MAX_PHYSICAL_FILESIZE \<and> curFile h < numFiles h"
  proof (cases "curOffset g - int gap < 0")
    case True
    then obtain k where "curFile g = Suc k" using gap(2) g(2) by (cases "curFile g") (auto simp: base_def placed_def)
    with True gap(1) g(2) show ?thesis by (simp add: h_def Let_def base_def placed_def nat_eq_iff2) linarith
  next
    case False
    with g(2) show ?thesis by (auto simp: h_def Let_def base_def placed_def nat_diff_distrib)
  qed
  have same: "files h = files g" "buffer h = buffer f" "bf_state h = bf_state f" "\<not> bf_dirty h" "nbytes h = 0" "bf_pos h = 0"
    using g(7) by (auto simp: h_def Let_def same_buffer_def)
  have "placed h" using g(2) base by (simp add: placed_def flat_def same)
  moreover from this have "content h = content f" using g(3) by (simp add: content_clean same flat_def)
  moreover have "position h = position f" using base g(4) f(4) by (auto simp: position_def same gap_def)
  moreover have "curFile h = curFile g \<and> curOffset h = curOffset g" if "bf_pos f = nbytes f"
    using that g(2) by (simp add: h_def gap_def placed_def Let_def)
  ultimately show ?thesis using run g(5,6) f same by (auto simp: bf_ok_def)
qed

lemma Flush_ok:
  assumes "io_ok io" and "bf_ok f"
  shows "\<exists>g. BufFileFlush io f = Inr g \<and> bf_ok g \<and> content g = content f \<and> position g = position f \<and> \<not> bf_dirty g \<and>
    (\<not> bf_dirty f \<longrightarrow> g = f) \<and>
    (bf_dirty f \<longrightarrow> nbytes g = 0 \<and> bf_pos g = 0 \<and> (bf_pos f = nbytes f \<longrightarrow> 0 < nbytes f \<longrightarrow> 0 < curOffset g))"
  using DumpBuffer_ok [OF assms] assms(2) by (auto simp: BufFileFlush_def bf_ok_def)

section \<open>Reading\<close>

text \<open>Loading a buffer where the file stands: it holds the bytes that follow, and none only at the end of the file.\<close>

lemma LoadBuffer_ok:
  assumes "io_ok io" and "placed f" and "length (buffer f) = BLCKSZ" and "bf_state f = BFS_RANDOM_ACCESS"
    and "bf_pos f = 0" and "\<not> bf_dirty f"
  shows "\<exists>g. BufFileLoadBuffer io f = Inr g \<and> bf_ok g \<and> content g = flat f \<and> position g = base f \<and> \<not> bf_dirty g \<and>
    (bf_pos g < nbytes g \<longleftrightarrow> base f < length (flat f))"
proof -
  define f1 where "f1 = (if curOffset f \<ge> int MAX_PHYSICAL_FILESIZE \<and> curFile f + 1 < numFiles f
    then f\<lparr>curFile := curFile f + 1, curOffset := 0\<rparr> else f)"
  have f1: "placed f1" "base f1 = base f" "flat f1 = flat f" "buffer f1 = buffer f" "bf_state f1 = bf_state f"
    "bf_pos f1 = 0" "\<not> bf_dirty f1"
    using assms(2,5,6) by (auto simp: f1_def placed_def base_def flat_def)
  have full: "numFiles f1 - 1 \<le> curFile f1" if "curOffset f1 = int MAX_PHYSICAL_FILESIZE"
    using that sizes(1) by (auto simp: f1_def simp del: sizes split: if_splits)
  define avail where "avail = take BLCKSZ (drop (nat (curOffset f1)) (files f1 ! curFile f1))"
  define r where "r = fread io (curFile f1) (curOffset f1) (length avail)"
  define bs where "bs = take (nat r) avail"
  define g where "g = f1\<lparr>buffer := bs @ drop (length bs) (buffer f1), nbytes := length bs\<rparr>"
  have r: "0 \<le> r" "nat r \<le> length avail" "0 < length avail \<longrightarrow> 0 < r" using assms(1) by (auto simp: io_ok_def r_def nat_le_iff)
  have run: "BufFileLoadBuffer io f = Inr g"
    using r(1) unfolding BufFileLoadBuffer_def Let_def f1_def [symmetric] FileRead_def avail_def [symmetric] r_def [symmetric]
      bs_def [symmetric] by (simp add: g_def)
  have seg: "files f1 ! curFile f1 = take MAX_PHYSICAL_FILESIZE (drop (curFile f1 * MAX_PHYSICAL_FILESIZE) (flat f1))"
    unfolding flat_def using f1(1) by (intro segs_nth) (auto simp: placed_def)
  have off: "nat (curOffset f1) \<le> MAX_PHYSICAL_FILESIZE" using f1(1) by (simp add: placed_def nat_le_iff)
  have avail: "avail = take (min BLCKSZ (MAX_PHYSICAL_FILESIZE - nat (curOffset f1))) (drop (base f) (flat f))"
    unfolding avail_def seg f1(2,3) [symmetric] unfolding base_def by (simp add: drop_take min.commute add.commute)
  define n where "n = length bs"
  have bs: "bs = take n (drop (base f) (flat f))" "n \<le> BLCKSZ" "n \<le> MAX_PHYSICAL_FILESIZE - nat (curOffset f1)"
    "n \<le> length (flat f) - base f"
  proof -
    have take: "bs = take (min (nat r) (min BLCKSZ (MAX_PHYSICAL_FILESIZE - nat (curOffset f1)))) (drop (base f) (flat f))"
      by (simp add: bs_def avail)
    then show "bs = take n (drop (base f) (flat f))" by (metis n_def take_all_iff take_take linorder_linear min.commute length_take)
    show "n \<le> BLCKSZ" "n \<le> MAX_PHYSICAL_FILESIZE - nat (curOffset f1)" "n \<le> length (flat f) - base f"
      unfolding n_def take by (simp_all add: min_le_iff_disj)
  qed
  have "n = 0 \<longleftrightarrow> avail = []" using r by (auto simp: n_def bs_def)
  also have "\<dots> \<longleftrightarrow> \<not> base f < length (flat f)"
  proof (cases "nat (curOffset f1) = MAX_PHYSICAL_FILESIZE")
    case True
    with f1(1) have "curOffset f1 = int MAX_PHYSICAL_FILESIZE" by (auto simp: placed_def)
    with full f1(1) have "curFile f1 = numFiles f1 - 1" by (intro antisym) (auto simp: placed_def)
    with f1(1) segs_length [of "files f1"] segs_last [of "files f1"] True
    have "length (flat f1) \<le> base f1" by (auto simp: placed_def flat_def base_def le_antisym)
    with True f1 show ?thesis by (simp add: avail)
  next
    case False
    with off have "min BLCKSZ (MAX_PHYSICAL_FILESIZE - nat (curOffset f1)) \<noteq> 0" by (simp add: min_def BLCKSZ_def)
    then show ?thesis unfolding avail take_eq_Nil drop_eq_Nil by linarith
  qed
  finally have empty: "n = 0 \<longleftrightarrow> \<not> base f < length (flat f)" .
  have fg: "files g = files f1" "curFile g = curFile f1" "curOffset g = curOffset f1" "nbytes g = n" "bf_pos g = 0"
    "bf_state g = bf_state f" "\<not> bf_dirty g" "length (buffer g) = BLCKSZ" "take n (buffer g) = bs"
    using f1 bs(2) assms(3) by (auto simp: g_def n_def)
  have g: "placed g" "base g = base f" "flat g = flat f" using f1 by (auto simp: placed_def base_def flat_def fg)
  have "base f \<le> length (flat f)" "0 \<le> curOffset f1" using assms(2) f1(1) by (simp_all add: placed_def)
  then have "clean g" using bs off by (simp add: clean_def fg g) linarith
  moreover from this have "content g = flat f" using g by (simp add: content_clean)
  ultimately show ?thesis using run empty g bs(2) assms(4) by (auto simp: bf_ok_def fg position_def)
qed

lemma refill_ok:
  assumes "io_ok io" and "bf_ok f" and "\<not> bf_dirty f"
  shows "\<exists>g. refill io f = Inr g \<and> bf_ok g \<and> content g = content f \<and> position g = position f \<and> \<not> bf_dirty g \<and>
    (bf_pos g < nbytes g \<longleftrightarrow> position f < length (content f))"
proof (cases "bf_pos f < nbytes f")
  case True
  with assms show ?thesis
    by (auto simp: refill_def bf_ok_def position_def clean_def content_clean)
next
  case False
  have f: "placed f" "clean f" "bf_pos f = nbytes f" "bf_state f = BFS_RANDOM_ACCESS" "length (buffer f) = BLCKSZ"
    using assms(2,3) False by (auto simp: bf_ok_def)
  define f0 where "f0 = f\<lparr>curOffset := curOffset f + int (bf_pos f), bf_pos := 0, nbytes := 0\<rparr>"
  have "placed f0" "base f0 = position f" "flat f0 = content f"
    using f content_clean [OF f(2,1)] by (auto simp: f0_def placed_def base_def flat_def clean_def position_def nat_add_distrib)
  with LoadBuffer_ok [OF assms(1), of f0] f False assms(3) show ?thesis
    unfolding refill_def f0_def [symmetric] by (simp add: f0_def)
qed

lemma clean_bytes:
  assumes "clean f" and "placed f" and "bf_pos f + n \<le> nbytes f"
  shows "take n (drop (bf_pos f) (buffer f)) = take n (drop (position f) (content f))"
proof -
  have n: "min n (nbytes f - bf_pos f) = n" using assms(3) by simp
  have "take n (drop (bf_pos f) (take (nbytes f) (buffer f))) = take n (drop (bf_pos f) (take (nbytes f) (drop (base f) (content f))))"
    using assms(1,2) by (simp add: clean_def content_clean)
  then show ?thesis by (simp add: drop_take n position_def add.commute)
qed

lemma advance_ok:
  "bf_ok f \<Longrightarrow> \<not> bf_dirty f \<Longrightarrow> bf_pos f + n \<le> nbytes f \<Longrightarrow>
   bf_ok (f\<lparr>bf_pos := bf_pos f + n\<rparr>) \<and> content (f\<lparr>bf_pos := bf_pos f + n\<rparr>) = content f \<and>
   position (f\<lparr>bf_pos := bf_pos f + n\<rparr>) = position f + n"
  by (simp add: bf_ok_def placed_def clean_def content_def position_def flat_def base_def)

lemma read_loop_ok:
  "io_ok io \<Longrightarrow> bf_ok f \<Longrightarrow> \<not> bf_dirty f \<Longrightarrow>
   \<exists>g. read_loop io n acc f = Inr (acc @ take n (drop (position f) (content f)), g) \<and> bf_ok g \<and> content g = content f \<and>
     position g = min (position f + n) (length (content f)) \<and> \<not> bf_dirty g \<and>
     (0 < n \<and> position f + n \<le> length (content f) \<longrightarrow> 0 < bf_pos g)"
proof (induction io n acc f rule: read_loop.induct)
  case (1 io n acc f)
  note le = position_le [OF 1(3)]
  show ?case
  proof (cases "n = 0")
    case True
    with 1 le show ?thesis by (subst read_loop.simps) simp
  next
    case False
    from refill_ok [OF 1(2-4)] obtain g where
      g: "refill io f = Inr g" "bf_ok g" "content g = content f" "position g = position f" "\<not> bf_dirty g"
        "bf_pos g < nbytes g \<longleftrightarrow> position f < length (content f)" by blast
    have cl: "clean g" "placed g" using g(2,5) by (auto simp: bf_ok_def)
    show ?thesis
    proof (cases "bf_pos g < nbytes g")
      case False
      with \<open>n \<noteq> 0\<close> g le show ?thesis by (subst read_loop.simps) auto
    next
      case True
      define m where "m = min (nbytes g - bf_pos g) n"
      have m: "bf_pos g + m \<le> nbytes g" "m \<le> n" "0 < m" using True False by (auto simp: m_def)
      define h where "h = g\<lparr>bf_pos := bf_pos g + m\<rparr>"
      note h = advance_ok [OF g(2,5) m(1), folded h_def]
      have bytes: "take m (drop (bf_pos g) (buffer g)) = take m (drop (position f) (content f))"
        using clean_bytes [OF cl m(1)] g by simp
      have step: "read_loop io n acc f = read_loop io (n - m) (acc @ take m (drop (position f) (content f))) h"
        using False True g(1) bytes by (subst read_loop.simps) (simp add: Let_def m_def [symmetric] h_def)
      have reach: "position f + m \<le> length (content f)" using position_le [of h] h g by simp
      have "\<not> bf_dirty h" "0 < n" "\<not> nbytes g \<le> bf_pos g" using g False True by (auto simp: h_def)
      note ih = 1(1) [OF this(2) g(1) this(3) m_def, unfolded bytes, folded h_def, OF 1(2) conjunct1 [OF h] this(1)]
      then obtain k where
        k: "read_loop io (n - m) (acc @ take m (drop (position f) (content f))) h =
              Inr ((acc @ take m (drop (position f) (content f))) @ take (n - m) (drop (position h) (content h)), k)"
          "bf_ok k" "content k = content h" "position k = min (position h + (n - m)) (length (content h))" "\<not> bf_dirty k"
          "0 < n - m \<and> position h + (n - m) \<le> length (content h) \<longrightarrow> 0 < bf_pos k" by blast
      have "take m (drop (position f) (content f)) @ take (n - m) (drop (position f + m) (content f)) = take n (drop (position f) (content f))"
        using m(2) take_add [of m "n - m" "drop (position f) (content f)"] by (simp add: add.commute)
      moreover have "0 < bf_pos k" if "position f + n \<le> length (content f)"
      proof (cases "n = m")
        case True
        with k(1) m(3) show ?thesis by (subst (asm) read_loop.simps) (auto simp: h_def)
      next
        case False
        with m(2) that k(6) h g show ?thesis by simp
      qed
      ultimately show ?thesis using step k h g m reach by auto
    qed
  qed
qed

theorem BufFileRead_ok:
  assumes "io_ok io" and "bf_ok f"
  shows "\<exists>g. BufFileRead io f n = Inr (take n (drop (position f) (content f)), g) \<and> bf_ok g \<and> content g = content f \<and>
    position g = min (position f + n) (length (content f)) \<and> \<not> bf_dirty g \<and>
    (0 < n \<and> position f + n \<le> length (content f) \<longrightarrow> 0 < bf_pos g)"
proof -
  from Flush_ok [OF assms] obtain g where
    g: "BufFileFlush io f = Inr g" "bf_ok g" "content g = content f" "position g = position f" "\<not> bf_dirty g" by blast
  from assms(2) have "bf_state f = BFS_RANDOM_ACCESS" by (simp add: bf_ok_def)
  with read_loop_ok [OF assms(1) g(2,5), of n "[]"] g show ?thesis by (simp add: BufFileRead_def)
qed
section \<open>Writing\<close>

text \<open>Data that goes into the buffer; the file counts as standing at its end when the buffer belongs to the last segment.\<close>

definition at_end :: "BufFile \<Rightarrow> bool" where
  "at_end f \<longleftrightarrow> position f = length (content f) \<and> curFile f = numFiles f - 1"

lemma at_end_pos: "bf_ok f \<Longrightarrow> at_end f \<Longrightarrow> bf_pos f = nbytes f"
  by (auto simp: bf_ok_def at_end_def position_def content_def length_put_bytes placed_def clean_def)

lemma make_room_ok:
  assumes "io_ok io" and "bf_ok f"
  shows "\<exists>g. make_room io f = Inr g \<and> bf_ok g \<and> content g = content f \<and> position g = position f \<and> bf_pos g < BLCKSZ \<and>
    (at_end f \<longrightarrow> at_end g)"
proof (cases "bf_pos f < BLCKSZ")
  case True
  with assms show ?thesis by (simp add: make_room_def)
next
  case full: False
  show ?thesis
  proof (cases "bf_dirty f")
    case True
    with full DumpBuffer_ok [OF assms] at_end_pos [OF assms(2)] show ?thesis by (auto simp: make_room_def at_end_def)
  next
    case False
    define g where "g = f\<lparr>curOffset := curOffset f + int (bf_pos f), bf_pos := 0, nbytes := 0\<rparr>"
    have f: "placed f" "clean f" "bf_pos f = nbytes f" using assms(2) False full by (auto simp: bf_ok_def)
    then have g: "placed g" "flat g = content f" "base g = position f"
      using content_clean [OF f(2,1)] by (auto simp: g_def placed_def base_def flat_def clean_def position_def nat_add_distrib)
    then have "bf_ok g" "content g = content f" "position g = position f"
      using assms(2) content_clean [of g] False by (simp_all add: bf_ok_def g_def position_def)
    moreover have "make_room io f = Inr g" "bf_pos g < BLCKSZ" "curFile g = curFile f" "files g = files f"
      using full False by (simp_all add: make_room_def g_def)
    ultimately show ?thesis by (auto simp: at_end_def)
  qed
qed

lemma fill_ok:
  assumes "bf_ok f" and "bf_pos f + length d \<le> BLCKSZ"
    and "g = f\<lparr>buffer := take (bf_pos f) (buffer f) @ d @ drop (bf_pos f + length d) (buffer f), bf_dirty := True,
      bf_pos := bf_pos f + length d, nbytes := (if nbytes f < bf_pos f + length d then bf_pos f + length d else nbytes f)\<rparr>"
  shows "bf_ok g \<and> content g = put_bytes (content f) (position f) d \<and> position g = position f + length d \<and> (at_end f \<longrightarrow> at_end g)"
proof -
  have f: "placed f" "length (buffer f) = BLCKSZ" "nbytes f \<le> BLCKSZ" "bf_pos f \<le> nbytes f" using assms(1) by (auto simp: bf_ok_def)
  then have ok: "bf_ok g" "placed g" "position g = position f + length d" "files g = files f" "curFile g = curFile f"
    using assms by (auto simp: bf_ok_def placed_def base_def flat_def position_def)
  have "take (nbytes g) (buffer g) = put_bytes (take (nbytes f) (buffer f)) (bf_pos f) d"
    using f assms(2) by (auto simp: assms(3) put_bytes_in drop_take min_def take_Cons')
  moreover have "flat g = flat f" "base g = base f" by (simp_all add: assms(3) flat_def base_def)
  moreover have "base f \<le> length (flat f)" "bf_pos f \<le> length (take (nbytes f) (buffer f))" using f by (auto simp: placed_def)
  ultimately have content: "content g = put_bytes (content f) (position f) d"
    unfolding content_def position_def using put_bytes_nested by metis
  have "length (content g) = position g" if "position f = length (content f)"
    using that by (simp add: content ok)
  with ok content show ?thesis by (auto simp: at_end_def)
qed

lemma write_loop_ok:
  "io_ok io \<Longrightarrow> bf_ok f \<Longrightarrow>
   \<exists>g. write_loop io ptr w f = Inr (w + length ptr, g) \<and> bf_ok g \<and> content g = put_bytes (content f) (position f) ptr \<and>
     position g = position f + length ptr \<and> (at_end f \<longrightarrow> at_end g)"
proof (induction io ptr w f rule: write_loop.induct)
  case (1 io ptr w f)
  show ?case
  proof (cases "ptr = []")
    case True
    with 1 position_le [of f] show ?thesis by (subst write_loop.simps) simp
  next
    case False
    from make_room_ok [OF 1(2,3)] obtain g where
      g: "make_room io f = Inr g" "bf_ok g" "content g = content f" "position g = position f" "bf_pos g < BLCKSZ"
        "at_end f \<longrightarrow> at_end g" by blast
    define m where "m = min (BLCKSZ - bf_pos g) (length ptr)"
    define d where "d = take m ptr"
    have d: "length d = m" "bf_pos g + m \<le> BLCKSZ" "ptr = d @ drop m ptr" using g(5) by (auto simp: d_def m_def)
    define h where "h = g\<lparr>buffer := take (bf_pos g) (buffer g) @ d @ drop (bf_pos g + m) (buffer g), bf_dirty := True,
      bf_pos := bf_pos g + m, nbytes := (if nbytes g < bf_pos g + m then bf_pos g + m else nbytes g)\<rparr>"
    note h = fill_ok [OF g(2), of d h, unfolded d(1), OF d(2) h_def]
    have step: "write_loop io ptr w f = write_loop io (drop m ptr) (w + m) h"
      using False g(1) by (subst write_loop.simps) (simp add: Let_def m_def [symmetric] d_def [symmetric] h_def)
    note ih = 1(1) [OF False g(1) m_def refl, folded d_def, folded h_def, OF 1(2) conjunct1 [OF h]]
    then obtain k where
      k: "write_loop io (drop m ptr) (w + m) h = Inr (w + m + length (drop m ptr), k)" "bf_ok k"
        "content k = put_bytes (content h) (position h) (drop m ptr)" "position k = position h + length (drop m ptr)"
        "at_end h \<longrightarrow> at_end k" by blast
    have "content k = put_bytes (content f) (position f) ptr"
      using k(3) h g d(1) position_le [OF g(2)] put_bytes_twice [of "position f" "content f" d "drop m ptr"] d(3) by simp
    moreover have "m \<le> length ptr" by (simp add: m_def)
    ultimately show ?thesis using step k h g by auto
  qed
qed

theorem BufFileWrite_ok:
  "io_ok io \<Longrightarrow> bf_ok f \<Longrightarrow>
   \<exists>g. BufFileWrite io f ptr = Inr (length ptr, g) \<and> bf_ok g \<and> content g = put_bytes (content f) (position f) ptr \<and>
     position g = position f + length ptr \<and> (at_end f \<longrightarrow> at_end g)"
  using write_loop_ok [of io f ptr 0] by (simp add: BufFileWrite_def bf_ok_def)

section \<open>Seeking and telling\<close>

text \<open>The place of a position as the operations report it: in the segment of the byte before it.\<close>

definition loc :: "nat \<Rightarrow> int \<times> int" where
  "loc p = (if p = 0 then (0, 0) else (int ((p - 1) div MAX_PHYSICAL_FILESIZE), int ((p - 1) mod MAX_PHYSICAL_FILESIZE) + 1))"

lemma loc_inverse: "int p = fst (loc p) * int MAX_PHYSICAL_FILESIZE + snd (loc p)"
proof (cases p)
  case (Suc m)
  have "int m = int (m div MAX_PHYSICAL_FILESIZE) * int MAX_PHYSICAL_FILESIZE + int (m mod MAX_PHYSICAL_FILESIZE)"
    by (metis div_mult_mod_eq of_nat_add of_nat_mult)
  with Suc show ?thesis by (simp add: loc_def)
qed (simp add: loc_def)

lemma loc_inj: "loc p = loc q \<longleftrightarrow> p = q"
  using loc_inverse [of p] loc_inverse [of q] by (auto simp: of_nat_eq_iff [symmetric] simp del: of_nat_eq_iff)

lemma loc_nonneg [simp]: "0 \<le> fst (loc p)" "0 \<le> snd (loc p)"
  by (simp_all add: loc_def)

lemma loc_unique: "k * MAX_PHYSICAL_FILESIZE + off = p \<Longrightarrow> off \<le> MAX_PHYSICAL_FILESIZE \<Longrightarrow> 0 < off \<or> k = 0 \<Longrightarrow> loc p = (int k, int off)"
proof (cases off)
  case (Suc j)
  assume "k * MAX_PHYSICAL_FILESIZE + off = p" "off \<le> MAX_PHYSICAL_FILESIZE"
  with Suc have "p - 1 = j + k * MAX_PHYSICAL_FILESIZE" "j < MAX_PHYSICAL_FILESIZE" "p \<noteq> 0" by auto
  with Suc show ?thesis by (simp add: loc_def)
qed (simp add: loc_def)

lemma Tell_loc:
  "bf_ok f \<Longrightarrow> \<not> bf_dirty f \<Longrightarrow> 0 < curOffset f + int (bf_pos f) \<or> curFile f = 0 \<Longrightarrow> BufFileTell f = loc (position f)"
  by (subst loc_unique [of "curFile f" "nat (curOffset f) + bf_pos f"])
    (auto simp: bf_ok_def clean_def placed_def position_def base_def BufFileTell_def)

lemma seek_back_ok:
  "0 \<le> k * int MAX_PHYSICAL_FILESIZE + off \<Longrightarrow>
   \<exists>k' off'. seek_back k off = Some (k', off') \<and> 0 \<le> off' \<and> k' * int MAX_PHYSICAL_FILESIZE + off' = k * int MAX_PHYSICAL_FILESIZE + off \<and>
     (0 \<le> k \<longrightarrow> 0 \<le> k') \<and> (0 \<le> off \<longrightarrow> k' = k \<and> off' = off)"
proof (induction k off rule: seek_back.induct)
  case (1 k off)
  show ?case
  proof (cases "off < 0")
    case True
    have "0 < k"
    proof (rule ccontr)
      assume "\<not> 0 < k"
      then have "k * int MAX_PHYSICAL_FILESIZE \<le> 0" by (simp add: mult_le_0_iff)
      with 1(2) True show False by linarith
    qed
    moreover have "(k - 1) * int MAX_PHYSICAL_FILESIZE + (off + int MAX_PHYSICAL_FILESIZE) = k * int MAX_PHYSICAL_FILESIZE + off"
      by (simp add: algebra_simps)
    ultimately show ?thesis using 1 True by (subst seek_back.simps) auto
  qed (subst seek_back.simps, simp)
qed

lemma seek_back_EOF: "k * int MAX_PHYSICAL_FILESIZE + off < 0 \<Longrightarrow> 0 \<le> k \<Longrightarrow> seek_back k off = None"
proof (induction k off rule: seek_back.induct)
  case (1 k off)
  moreover from 1(2,3) have "off < 0" by (metis add_nonneg_nonneg mult_nonneg_nonneg not_less of_nat_0_le_iff)
  ultimately show ?case by (subst seek_back.simps) (auto simp: algebra_simps)
qed

lemma seek_forward_ok:
  "0 \<le> off \<Longrightarrow> k * int MAX_PHYSICAL_FILESIZE + off \<le> int n * int MAX_PHYSICAL_FILESIZE \<Longrightarrow> k < int n \<Longrightarrow>
   \<exists>k' off'. seek_forward n k off = Some (k', off') \<and> 0 \<le> off' \<and> off' \<le> int MAX_PHYSICAL_FILESIZE \<and> k \<le> k' \<and> k' < int n \<and>
     k' * int MAX_PHYSICAL_FILESIZE + off' = k * int MAX_PHYSICAL_FILESIZE + off \<and>
     (off \<le> int MAX_PHYSICAL_FILESIZE \<longrightarrow> k' = k \<and> off' = off)"
proof (induction n k off rule: seek_forward.induct)
  case (1 n k off)
  show ?case
  proof (cases "off > int MAX_PHYSICAL_FILESIZE")
    case True
    have e: "(k + 1) * int MAX_PHYSICAL_FILESIZE + (off - int MAX_PHYSICAL_FILESIZE) = k * int MAX_PHYSICAL_FILESIZE + off"
      by (simp add: algebra_simps)
    have "(k + 1) * int MAX_PHYSICAL_FILESIZE < int n * int MAX_PHYSICAL_FILESIZE" using True 1(3) e by linarith
    then have lt: "k + 1 < int n" by (simp add: mult_less_cancel_right)
    with 1 True e show ?thesis by (subst seek_forward.simps) auto
  next
    case False
    with 1(2-) show ?thesis by (subst seek_forward.simps) simp
  qed
qed

lemma flat_bound: "placed f \<Longrightarrow> length (flat f) \<le> numFiles f * MAX_PHYSICAL_FILESIZE"
  using segs_length [of "files f"] segs_last [of "files f"]
  by (cases "files f") (auto simp: placed_def flat_def)
text \<open>As long as unflushed data starts in the last segment, the end of the file is where the last segment ends.\<close>

definition tail :: "BufFile \<Rightarrow> bool" where
  "tail f \<longleftrightarrow> (bf_dirty f \<longrightarrow> curFile f = numFiles f - 1)"

lemma seek_to_ok:
  assumes "io_ok io" and "bf_ok f" and "0 \<le> k" and "0 \<le> off" and "k * int MAX_PHYSICAL_FILESIZE + off = int q" and "q \<le> length (content f)"
  shows "\<exists>g. seek_to io f k off = Inr (0, g) \<and> bf_ok g \<and> content g = content f \<and> position g = q \<and> (tail f \<longrightarrow> tail g)"
proof (cases "k = int (curFile f) \<and> off \<ge> curOffset f \<and> off \<le> curOffset f + int (nbytes f)")
  case True
  define g where "g = f\<lparr>bf_pos := nat (off - curOffset f)\<rparr>"
  have f: "0 \<le> curOffset f" using assms(2) by (simp add: bf_ok_def placed_def)
  have "int (position g) = int q" using True f assms(5) by (simp add: g_def position_def base_def)
  moreover have "bf_ok g" "content g = content f" "tail f \<longrightarrow> tail g"
    using assms(2) True by (auto simp: g_def bf_ok_def placed_def clean_def content_def flat_def base_def tail_def)
  ultimately show ?thesis using True by (simp add: seek_to_def g_def)
next
  case False
  from Flush_ok [OF assms(1,2)] obtain g where
    g: "BufFileFlush io f = Inr g" "bf_ok g" "content g = content f" "\<not> bf_dirty g" by blast
  then have pl: "placed g" "flat g = content f" "bf_state g = BFS_RANDOM_ACCESS" "length (buffer g) = BLCKSZ"
    using content_clean [of g] by (auto simp: bf_ok_def)
  have bound: "int q \<le> int (numFiles g) * int MAX_PHYSICAL_FILESIZE"
    using flat_bound [OF pl(1)] assms(6) pl(2) by (metis le_trans of_nat_le_iff of_nat_mult)
  define t where "t = (if k = int (numFiles g) \<and> off = 0 then (k - 1, int MAX_PHYSICAL_FILESIZE) else (k, off))"
  have t: "fst t * int MAX_PHYSICAL_FILESIZE + snd t = int q" "0 \<le> snd t" "fst t < int (numFiles g)"
  proof -
    show "fst t * int MAX_PHYSICAL_FILESIZE + snd t = int q" "0 \<le> snd t" using assms(4,5) by (auto simp: t_def algebra_simps)
    show "fst t < int (numFiles g)"
    proof (rule ccontr)
      assume n: "\<not> ?thesis"
      then have k: "k \<ge> int (numFiles g)" "fst t = k" "snd t = off" by (auto simp: t_def split: if_splits)
      then have "k * int MAX_PHYSICAL_FILESIZE \<ge> int (numFiles g) * int MAX_PHYSICAL_FILESIZE" by (simp add: mult_right_mono)
      with bound assms(4,5) have "off = 0" "k * int MAX_PHYSICAL_FILESIZE = int (numFiles g) * int MAX_PHYSICAL_FILESIZE" by linarith+
      with sizes(1) have "off = 0 \<and> k = int (numFiles g)" by (auto simp del: sizes)
      with n show False by (simp add: t_def)
    qed
  qed
  from seek_forward_ok [OF t(2) _ t(3)] t(1) bound obtain k' off' where
    s: "seek_forward (numFiles g) (fst t) (snd t) = Some (k', off')" "0 \<le> off'" "off' \<le> int MAX_PHYSICAL_FILESIZE" "fst t \<le> k'"
      "k' < int (numFiles g)" "k' * int MAX_PHYSICAL_FILESIZE + off' = int q" by auto
  have "0 \<le> fst t" using assms(3) bound t segs_nonempty [of "files g"] pl(1) by (auto simp: t_def placed_def)
  with s(4) have k': "0 \<le> k'" by simp
  define h where "h = g\<lparr>curFile := nat k', curOffset := off', bf_pos := 0, nbytes := 0\<rparr>"
  have run: "seek_to io f k off = Inr (0, h)"
    using g(1) s(1,5) unfolding seek_to_def if_not_P [OF False] by (simp add: t_def [symmetric] h_def case_prod_beta Let_def)
  have "int (base h) = int q" using s(2,6) k' by (simp add: h_def base_def)
  then have base: "base h = q" by simp
  with s k' pl assms(6) have "placed h" "bf_state h = BFS_RANDOM_ACCESS" "length (buffer h) = BLCKSZ" "flat h = content f"
    by (auto simp: h_def placed_def flat_def nat_less_iff)
  moreover have "nbytes h = 0" "bf_pos h = 0" "\<not> bf_dirty h" using g(4) by (simp_all add: h_def)
  ultimately show ?thesis using run base content_clean [of h] by (simp add: bf_ok_def position_def tail_def)
qed

theorem Seek_SET_ok:
  assumes "io_ok io" and "bf_ok f" and "0 \<le> fileno" and "fileno * int MAX_PHYSICAL_FILESIZE + offset = int q" and "q \<le> length (content f)"
  shows "\<exists>g. BufFileSeek io f fileno offset SEEK_SET = Inr (0, g) \<and> bf_ok g \<and> content g = content f \<and> position g = q \<and> (tail f \<longrightarrow> tail g)"
proof -
  from seek_back_ok [of fileno offset] assms(3,4) obtain k off where
    s: "seek_back fileno offset = Some (k, off)" "0 \<le> off" "0 \<le> k" "k * int MAX_PHYSICAL_FILESIZE + off = int q" by auto
  moreover have "bf_state f = BFS_RANDOM_ACCESS" using assms(2) by (simp add: bf_ok_def)
  ultimately show ?thesis using seek_to_ok [OF assms(1,2) s(3,2,4) assms(5)] assms(3) by (simp add: BufFileSeek_def seek_target_def)
qed

theorem Seek_CUR_ok:
  assumes "io_ok io" and "bf_ok f" and "int (position f) + offset = int q" and "q \<le> length (content f)"
  shows "\<exists>g. BufFileSeek io f fileno offset SEEK_CUR = Inr (0, g) \<and> bf_ok g \<and> content g = content f \<and> position g = q \<and> (tail f \<longrightarrow> tail g)"
proof -
  have f: "bf_state f = BFS_RANDOM_ACCESS" "0 \<le> curOffset f" using assms(2) by (simp_all add: bf_ok_def placed_def)
  have "int (curFile f) * int MAX_PHYSICAL_FILESIZE + (curOffset f + int (bf_pos f) + offset) = int q"
    using f assms(3) by (simp add: position_def base_def)
  with seek_back_ok [of "int (curFile f)" "curOffset f + int (bf_pos f) + offset"] obtain k off where
    s: "seek_back (int (curFile f)) (curOffset f + int (bf_pos f) + offset) = Some (k, off)" "0 \<le> off" "0 \<le> k"
      "k * int MAX_PHYSICAL_FILESIZE + off = int q" by auto
  with f seek_to_ok [OF assms(1,2) s(3,2,4) assms(4)] show ?thesis by (simp add: BufFileSeek_def seek_target_def)
qed

theorem Seek_negative:
  assumes "bf_ok f"
  shows "0 \<le> fileno \<Longrightarrow> fileno * int MAX_PHYSICAL_FILESIZE + offset < 0 \<Longrightarrow> BufFileSeek io f fileno offset SEEK_SET = Inr (EOF, f)"
    and "fileno < 0 \<Longrightarrow> BufFileSeek io f fileno offset SEEK_SET = Inr (EOF, f)"
    and "int (position f) + offset < 0 \<Longrightarrow> BufFileSeek io f fileno offset SEEK_CUR = Inr (EOF, f)"
  using assms seek_back_EOF [of fileno offset] seek_back_EOF [of "int (curFile f)" "curOffset f + int (bf_pos f) + offset"]
  by (auto simp: BufFileSeek_def seek_target_def bf_ok_def placed_def position_def base_def)

lemma seek_to_Tell:
  assumes "\<not> bf_dirty f" and "bf_state f = BFS_RANDOM_ACCESS" and "0 \<le> k" and "k < int (numFiles f)" and "off \<le> int MAX_PHYSICAL_FILESIZE"
  shows "\<exists>g. seek_to io f k off = Inr (0, g) \<and> BufFileTell g = (k, off) \<and> files g = files f \<and> \<not> bf_dirty g"
  using assms by (auto simp: seek_to_def BufFileFlush_def BufFileTell_def seek_forward.simps [of _ k off])

theorem Seek_END_ok:
  assumes "io_ok io" and "bf_ok f" and "tail f"
  shows "\<exists>g. BufFileSeek io f fileno offset SEEK_END = Inr (0, g) \<and> bf_ok g \<and> content g = content f \<and> at_end g \<and> tail g \<and>
    BufFileTell g = loc (length (content f))"
proof -
  from Flush_ok [OF assms(1,2)] obtain g where
    g: "BufFileFlush io f = Inr g" "bf_ok g" "content g = content f" "\<not> bf_dirty g" "\<not> bf_dirty f \<longrightarrow> g = f" by blast
  then have pl: "placed g" "flat g = content f" "bf_state g = BFS_RANDOM_ACCESS" using content_clean [of g] by (auto simp: bf_ok_def)
  define k where "k = numFiles g - 1"
  define len where "len = length (files g ! k)"
  have g0: "files g \<noteq> []" "last (files g) = files g ! k" "numFiles g = Suc k" and seg: "segs (files g)"
    using pl(1) segs_nonempty [of "files g"] by (auto simp: placed_def k_def last_conv_nth)
  have len: "k * MAX_PHYSICAL_FILESIZE + len = length (content f)" "len \<le> MAX_PHYSICAL_FILESIZE" "0 < len \<or> k = 0"
    using segs_length [OF seg] segs_last [OF seg] g0 pl by (auto simp: len_def flat_def placed_def)
  have "BufFileSeek io f fileno offset SEEK_END = seek_to io g (int k) (int len)"
    using g(1,5) assms(2,3) g0(3)
    by (auto simp: BufFileSeek_def seek_target_def seek_back.simps [of _ "int _"] bf_ok_def tail_def len_def)
  moreover have q: "int k * int MAX_PHYSICAL_FILESIZE + int len = int (length (content g))" using len(1) g(3) by (metis of_nat_add of_nat_mult)
  ultimately obtain h where
    h: "BufFileSeek io f fileno offset SEEK_END = Inr (0, h)" "bf_ok h" "content h = content f" "position h = length (content f)"
      "BufFileTell h = (int k, int len)" "files h = files g" "\<not> bf_dirty h"
    using seek_to_ok [OF assms(1) g(2) _ _ q] seek_to_Tell [OF g(4) pl(3), of "int k" "int len" io] g(3) g0(3) len(2) by auto
  moreover from h(5) have "curFile h = k" by (simp add: BufFileTell_def)
  ultimately show ?thesis using loc_unique [OF len] g0(3) by (simp add: at_end_def tail_def)
qed

text \<open>Every file that is created is empty.\<close>

theorem CreateTemp_ok:
  "bf_ok (BufFileCreateTemp junk) \<and> content (BufFileCreateTemp junk) = [] \<and> position (BufFileCreateTemp junk) = 0 \<and>
   tail (BufFileCreateTemp junk) \<and> at_end (BufFileCreateTemp junk) \<and> \<not> bf_dirty (BufFileCreateTemp junk)"
proof -
  have "placed (BufFileCreateTemp junk)" "flat (BufFileCreateTemp junk) = []"
    by (simp_all add: BufFileCreateTemp_def BufFileCreateTempInSet_def makeBufFile_def makeBufFileCommon_def placed_def flat_def base_def)
  moreover have "nbytes (BufFileCreateTemp junk) = 0" by (simp add: BufFileCreateTemp_def BufFileCreateTempInSet_def makeBufFile_def makeBufFileCommon_def)
  moreover from calculation have "content (BufFileCreateTemp junk) = []" by (simp add: content_clean)
  ultimately show ?thesis
    by (simp add: bf_ok_def at_end_def tail_def position_def base_def)
      (simp add: BufFileCreateTemp_def BufFileCreateTempInSet_def makeBufFile_def makeBufFileCommon_def)
qed

end
