(* ===== verification/SpillFile.thy ===== *)
theory SpillFile
  imports BufFileBytes
begin

text \<open>
  Buffered temporary files as their callers see them.  Sequences of operations are compared with a plain file, the two
  operations that can disagree with it are stated as such, and the locale \<open>spill_file\<close> is the contract that code which
  spills records to a file and reads them back relies on.
\<close>

section \<open>Sequences of operations\<close>

text \<open>What a caller can do with a file, and what it gets back.\<close>

datatype file_op = Read_op nat | Write_op "uint8 list" | Seek_op int int whence | Tell_op | Flush_op

datatype file_answer = Bytes "uint8 list" | Count nat | Status int | Place int int | Done

definition file_step :: "file_io \<Rightarrow> BufFile \<Rightarrow> file_op \<Rightarrow> (file_answer \<times> BufFile) result" where
  "file_step io f c =
     (case c of
        Read_op n \<Rightarrow> map_sum id (\<lambda>(bs, g). (Bytes bs, g)) (BufFileRead io f n)
      | Write_op bs \<Rightarrow> map_sum id (\<lambda>(n, g). (Count n, g)) (BufFileWrite io f bs)
      | Seek_op fileno offset w \<Rightarrow> map_sum id (\<lambda>(r, g). (Status r, g)) (BufFileSeek io f fileno offset w)
      | Tell_op \<Rightarrow> Inr (case BufFileTell f of (fileno, offset) \<Rightarrow> Place fileno offset, f)
      | Flush_op \<Rightarrow> map_sum id (\<lambda>g. (Done, g)) (BufFileFlush io f))"

fun file_run :: "file_io \<Rightarrow> BufFile \<Rightarrow> file_op list \<Rightarrow> (file_answer list \<times> BufFile) result" where
  "file_run io f [] = Inr ([], f)"
| "file_run io f (c # cs) = bindE (file_step io f c) (\<lambda>(a, g). map_sum id (\<lambda>(as, h). (a # as, h)) (file_run io g cs))"

text \<open>
  A plain file: its bytes and a position.  The target of a seek is a number of bytes from the start; a target outside of
  the file is not part of the contract, and \<^verbatim>\<open>SEEK_END\<close> is only for files of one segment (see below).
\<close>

type_synonym plain = "uint8 list \<times> nat"

fun seek_target_byte :: "plain \<Rightarrow> int \<Rightarrow> int \<Rightarrow> whence \<Rightarrow> int" where
  "seek_target_byte (bs, p) fileno offset SEEK_SET = fileno * int MAX_PHYSICAL_FILESIZE + offset"
| "seek_target_byte (bs, p) fileno offset SEEK_CUR = int p + offset"
| "seek_target_byte (bs, p) fileno offset SEEK_END = int (length bs)"

fun plain_step :: "plain \<Rightarrow> file_op \<Rightarrow> plain" where
  "plain_step (bs, p) (Read_op n) = (bs, min (p + n) (length bs))"
| "plain_step (bs, p) (Write_op ys) = (put_bytes bs p ys, p + length ys)"
| "plain_step (bs, p) (Seek_op fileno offset w) = (bs, nat (seek_target_byte (bs, p) fileno offset w))"
| "plain_step (bs, p) _ = (bs, p)"

fun plain_allows :: "plain \<Rightarrow> file_op \<Rightarrow> bool" where
  "plain_allows (bs, p) (Seek_op fileno offset w) \<longleftrightarrow>
     0 \<le> seek_target_byte (bs, p) fileno offset w \<and> seek_target_byte (bs, p) fileno offset w \<le> int (length bs) \<and>
     (w = SEEK_SET \<longrightarrow> 0 \<le> fileno) \<and> (w = SEEK_END \<longrightarrow> length bs \<le> MAX_PHYSICAL_FILESIZE)"
| "plain_allows _ _ = True"

text \<open>The answer of a position is its segment and offset; at a segment boundary there are two of them.\<close>

fun plain_answers :: "plain \<Rightarrow> file_op \<Rightarrow> file_answer \<Rightarrow> bool" where
  "plain_answers (bs, p) (Read_op n) a = (a = Bytes (take n (drop p bs)))"
| "plain_answers (bs, p) (Write_op ys) a = (a = Count (length ys))"
| "plain_answers (bs, p) (Seek_op _ _ _) a = (a = Status 0)"
| "plain_answers (bs, p) Tell_op a =
     (case a of Place fileno offset \<Rightarrow> 0 \<le> fileno \<and> 0 \<le> offset \<and> fileno * int MAX_PHYSICAL_FILESIZE + offset = int p | _ \<Rightarrow> False)"
| "plain_answers (bs, p) Flush_op a = (a = Done)"

fun plain_run :: "plain \<Rightarrow> file_op list \<Rightarrow> plain" where
  "plain_run s [] = s"
| "plain_run s (c # cs) = plain_run (plain_step s c) cs"

fun plain_allows_all :: "plain \<Rightarrow> file_op list \<Rightarrow> bool" where
  "plain_allows_all s [] = True"
| "plain_allows_all s (c # cs) \<longleftrightarrow> plain_allows s c \<and> plain_allows_all (plain_step s c) cs"

fun plain_answers_all :: "plain \<Rightarrow> file_op list \<Rightarrow> file_answer list \<Rightarrow> bool" where
  "plain_answers_all s [] as = (as = [])"
| "plain_answers_all s (c # cs) [] = False"
| "plain_answers_all s (c # cs) (a # as) \<longleftrightarrow> plain_answers s c a \<and> plain_answers_all (plain_step s c) cs as"

definition view :: "BufFile \<Rightarrow> plain" where
  "view f = (content f, position f)"

lemma short_tail: "bf_ok f \<Longrightarrow> length (content f) \<le> MAX_PHYSICAL_FILESIZE \<Longrightarrow> tail f"
proof -
  assume ok: "bf_ok f" and short: "length (content f) \<le> MAX_PHYSICAL_FILESIZE"
  then have p: "placed f" by (simp add: bf_ok_def)
  then have "length (flat f) \<le> length (content f)" by (simp add: content_def placed_def length_put_bytes)
  with short have "length (concat (files f)) \<le> MAX_PHYSICAL_FILESIZE" by (simp add: flat_def)
  with p segs_length [of "files f"]
  have le: "(numFiles f - 1) * MAX_PHYSICAL_FILESIZE + length (last (files f)) \<le> MAX_PHYSICAL_FILESIZE" by (simp add: placed_def)
  have "\<not> 1 < numFiles f"
  proof
    assume many: "1 < numFiles f"
    then obtain k where "numFiles f - 1 = Suc k" by (metis Suc_diff_Suc One_nat_def)
    with le have "length (last (files f)) = 0" by simp
    with p many show False by (simp add: placed_def)
  qed
  with p show ?thesis by (auto simp: tail_def placed_def)
qed

lemma file_step_ok:
  assumes "io_ok io" and "bf_ok f" and "plain_allows (view f) c"
  shows "\<exists>a g. file_step io f c = Inr (a, g) \<and> bf_ok g \<and> view g = plain_step (view f) c \<and> plain_answers (view f) c a"
proof (cases c)
  case (Read_op n)
  with BufFileRead_ok [OF assms(1,2), of n] show ?thesis by (auto simp: file_step_def view_def)
next
  case (Write_op ys)
  with BufFileWrite_ok [OF assms(1,2), of ys] show ?thesis by (auto simp: file_step_def view_def)
next
  case (Seek_op fileno offset w)
  show ?thesis
  proof (cases w)
    case SEEK_SET
    with Seek_op assms(3) Seek_SET_ok [OF assms(1,2), of fileno offset "nat (fileno * int MAX_PHYSICAL_FILESIZE + offset)"]
    show ?thesis by (auto simp: file_step_def view_def nat_le_iff)
  next
    case SEEK_CUR
    with Seek_op assms(3) Seek_CUR_ok [OF assms(1,2), of offset "nat (int (position f) + offset)" fileno]
    show ?thesis by (auto simp: file_step_def view_def nat_le_iff)
  next
    case SEEK_END
    with Seek_op assms(3) Seek_END_ok [OF assms(1,2), of fileno offset] short_tail [OF assms(2)]
    show ?thesis by (auto simp: file_step_def view_def at_end_def)
  qed
next
  case Tell_op
  with assms(2) show ?thesis
    by (auto simp: file_step_def view_def BufFileTell_def bf_ok_def placed_def position_def base_def)
next
  case Flush_op
  with Flush_ok [OF assms(1,2)] show ?thesis by (auto simp: file_step_def view_def)
qed

lemma file_run_ok:
  "io_ok io \<Longrightarrow> bf_ok f \<Longrightarrow> plain_allows_all (view f) cs \<Longrightarrow>
   \<exists>as g. file_run io f cs = Inr (as, g) \<and> bf_ok g \<and> view g = plain_run (view f) cs \<and> plain_answers_all (view f) cs as"
proof (induction cs arbitrary: f)
  case (Cons c cs)
  then have "plain_allows (view f) c" "plain_allows_all (plain_step (view f) c) cs" by simp_all
  with file_step_ok [OF Cons.prems(1,2)] obtain a g where
    g: "file_step io f c = Inr (a, g)" "bf_ok g" "view g = plain_step (view f) c" "plain_answers (view f) c a" by blast
  with Cons.IH [OF Cons.prems(1) g(2)] \<open>plain_allows_all _ cs\<close> obtain as h where
    "file_run io g cs = Inr (as, h)" "bf_ok h" "view h = plain_run (view g) cs" "plain_answers_all (view g) cs as" by auto
  with g show ?case by simp
qed (simp add: file_run.simps)

section \<open>A file of records\<close>

text \<open>
  What code that spills records relies on: data is appended after a seek to the end, which tells its place, and read back
  from that place, or from the start in the order of the places.
\<close>

locale spill_file =
  fixes seek :: "'io \<Rightarrow> 'f \<Rightarrow> int \<Rightarrow> int \<Rightarrow> whence \<Rightarrow> (int \<times> 'f) result"
    and tell :: "'f \<Rightarrow> int \<times> int"
    and wr :: "'io \<Rightarrow> 'f \<Rightarrow> uint8 list \<Rightarrow> (nat \<times> 'f) result"
    and rd :: "'io \<Rightarrow> 'f \<Rightarrow> nat \<Rightarrow> (uint8 list \<times> 'f) result"
    and good :: "'io \<Rightarrow> bool"
    and stands :: "'f \<Rightarrow> uint8 list \<Rightarrow> nat \<Rightarrow> bool"
    and ends :: "'f \<Rightarrow> uint8 list \<Rightarrow> bool"
    and place :: "nat \<Rightarrow> int \<times> int"
  assumes seek_end: "good io \<Longrightarrow> stands f c p \<Longrightarrow> \<exists>g. seek io f 0 0 SEEK_END = Inr (0, g) \<and> ends g c \<and> tell g = place (length c)"
    and write_end: "good io \<Longrightarrow> ends f c \<Longrightarrow> \<exists>g. wr io f d = Inr (length d, g) \<and> ends g (c @ d)"
    and ends_stands: "ends f c \<Longrightarrow> stands f c (length c)"
    and seek_place: "good io \<Longrightarrow> stands f c p \<Longrightarrow> q \<le> length c \<Longrightarrow>
      \<exists>g. seek io f (fst (place q)) (snd (place q)) SEEK_SET = Inr (0, g) \<and> stands g c q"
    and seek_start: "good io \<Longrightarrow> stands f c p \<Longrightarrow> \<exists>g. seek io f 0 0 SEEK_SET = Inr (0, g) \<and> stands g c 0 \<and> tell g = place 0"
    and read_here: "good io \<Longrightarrow> stands f c p \<Longrightarrow>
      \<exists>g. rd io f n = Inr (take n (drop p c), g) \<and> stands g c (min (p + n) (length c)) \<and>
        (0 < n \<longrightarrow> p + n \<le> length c \<longrightarrow> tell g = place (p + n))"
    and place_inj: "place p = place q \<longleftrightarrow> p = q"
begin

text \<open>Appending a record of two parts, as seen by the code: the place first, then the two writes.\<close>

lemma append_two:
  assumes "good io" and "stands f c p"
  shows "\<exists>g g1 g2. seek io f 0 0 SEEK_END = Inr (0, g) \<and> tell g = place (length c) \<and> wr io g k = Inr (length k, g1) \<and>
    wr io g1 d = Inr (length d, g2) \<and> stands g2 (c @ k @ d) (length (c @ k @ d))"
  using seek_end [OF assms] write_end [OF assms(1)] ends_stands by (metis append_assoc)

text \<open>Reading data that lies at the position.\<close>

lemma read_part:
  assumes "good io" and "stands f c p" and "c = xs @ d @ ys" and "p = length xs" and "0 < length d"
  shows "\<exists>g. rd io f (length d) = Inr (d, g) \<and> stands g c (p + length d) \<and> tell g = place (p + length d)"
  using read_here [OF assms(1,2), of "length d"] assms(3-5) by auto

lemma read_at_end:
  "good io \<Longrightarrow> stands f c (length c) \<Longrightarrow> \<exists>g. rd io f n = Inr ([], g) \<and> stands g c (length c)"
  using read_here [of io f c "length c" n] by auto

end

definition bf_stands :: "BufFile \<Rightarrow> uint8 list \<Rightarrow> nat \<Rightarrow> bool" where
  "bf_stands f c p \<longleftrightarrow> bf_ok f \<and> tail f \<and> content f = c \<and> position f = p"

definition bf_ends :: "BufFile \<Rightarrow> uint8 list \<Rightarrow> bool" where
  "bf_ends f c \<longleftrightarrow> bf_ok f \<and> at_end f \<and> content f = c"

lemma Tell_start: "bf_ok f \<Longrightarrow> position f = 0 \<Longrightarrow> BufFileTell f = loc 0"
  using sizes(1) by (auto simp: position_def base_def BufFileTell_def loc_def bf_ok_def placed_def simp del: sizes)

interpretation spill: spill_file BufFileSeek BufFileTell BufFileWrite BufFileRead io_ok bf_stands bf_ends loc
proof
  fix io f c p d n q
  assume io: "io_ok io"
  show "bf_stands f c p \<Longrightarrow> \<exists>g. BufFileSeek io f 0 0 SEEK_END = Inr (0, g) \<and> bf_ends g c \<and> BufFileTell g = loc (length c)"
    using Seek_END_ok [OF io, of f 0 0] by (auto simp: bf_stands_def bf_ends_def)
  show "bf_ends f c \<Longrightarrow> \<exists>g. BufFileWrite io f d = Inr (length d, g) \<and> bf_ends g (c @ d)"
    using BufFileWrite_ok [OF io, of f d] by (auto simp: bf_ends_def at_end_def)
  show "bf_stands f c p \<Longrightarrow> q \<le> length c \<Longrightarrow>
      \<exists>g. BufFileSeek io f (fst (loc q)) (snd (loc q)) SEEK_SET = Inr (0, g) \<and> bf_stands g c q"
    using Seek_SET_ok [OF io, of f "fst (loc q)" "snd (loc q)" q] loc_inverse [of q] by (auto simp: bf_stands_def)
  show "bf_stands f c p \<Longrightarrow> \<exists>g. BufFileSeek io f 0 0 SEEK_SET = Inr (0, g) \<and> bf_stands g c 0 \<and> BufFileTell g = loc 0"
    using Seek_SET_ok [OF io, of f 0 0 0] Tell_start by (fastforce simp: bf_stands_def)
  show "bf_stands f c p \<Longrightarrow> \<exists>g. BufFileRead io f n = Inr (take n (drop p c), g) \<and> bf_stands g c (min (p + n) (length c)) \<and>
        (0 < n \<longrightarrow> p + n \<le> length c \<longrightarrow> BufFileTell g = loc (p + n))"
    using BufFileRead_ok [OF io, of f n] Tell_loc by (fastforce simp: bf_stands_def bf_ok_def placed_def tail_def)
qed (auto simp: bf_ends_def bf_stands_def at_end_def tail_def loc_inj)

section \<open>Properties\<close>


text \<open>A system that moves one byte at a time.\<close>

definition slow_io :: file_io where
  "slow_io = \<lparr>fwrite = \<lambda>_ _ n. 1, fread = \<lambda>_ _ n. if n = 0 then 0 else 1\<rparr>"

lemma slow_io_ok: "io_ok slow_io"
  by (simp add: io_ok_def slow_io_def)

definition sample_ops :: "file_op list" where
  "sample_ops = [Write_op [1, 2, 3], Seek_op 0 1 SEEK_SET, Read_op 1, Write_op [4, 5], Seek_op 0 (-4) SEEK_CUR, Read_op 9, Tell_op]"


text \<open>
  C33: \<^verbatim>\<open>SEEK_END\<close> can miss the end.  When unflushed data starts before the last segment and reaches beyond its end,
  the target is computed before that data is flushed: the seek succeeds, but the file stands before its end, and the
  next write overwrites data.
\<close>

theorem Seek_END_misses:
  assumes "io_ok io" and "bf_ok f" and "bf_dirty f" and "curFile f + 1 < numFiles f" and "length (flat f) < base f + nbytes f"
  shows "\<exists>g. BufFileSeek io f 0 0 SEEK_END = Inr (0, g) \<and> content g = content f \<and> position g < length (content g)"
proof -
  have f: "placed f" "bf_state f = BFS_RANDOM_ACCESS" "nbytes f \<le> length (buffer f)" using assms(2) by (auto simp: bf_ok_def)
  then have seg: "segs (files f)" "files f \<noteq> []" using assms(4) by (auto simp: placed_def)
  have q: "(int (numFiles f) - 1) * int MAX_PHYSICAL_FILESIZE + int (length (files f ! (numFiles f - 1))) = int (length (flat f))"
    using segs_length [OF seg(1)] seg(2) by (simp add: flat_def last_conv_nth of_nat_diff Suc_le_eq)
  have len: "length (content f) = base f + nbytes f"
    using f assms(5) by (simp add: content_def placed_def length_put_bytes)
  have "seek_back (int (numFiles f) - 1) (int (length (files f ! (numFiles f - 1)))) = Some (int (numFiles f) - 1, int (length (files f ! (numFiles f - 1))))"
    by (simp add: seek_back.simps)
  moreover have "curFile f \<noteq> numFiles f - 1" using assms(4) by simp
  ultimately have "BufFileSeek io f 0 0 SEEK_END = seek_to io f (int (numFiles f) - 1) (int (length (files f ! (numFiles f - 1))))"
    using f(2) by (simp add: BufFileSeek_def seek_target_def)
  with seek_to_ok [OF assms(1,2) _ _ q] assms(4,5) seg(2) len show ?thesis by auto
qed

definition straddling :: BufFile where
  "straddling = \<lparr>files = [replicate MAX_PHYSICAL_FILESIZE 0, [0]], bf_dirty = True, curFile = 0,
     curOffset = int MAX_PHYSICAL_FILESIZE - 1, bf_pos = 3, nbytes = 3, buffer = replicate BLCKSZ 7, bf_state = BFS_RANDOM_ACCESS\<rparr>"

theorem Seek_END_misses_witness:
  "\<exists>g. BufFileSeek slow_io straddling 0 0 SEEK_END = Inr (0, g) \<and> content g = content straddling \<and> position g < length (content g)"
proof (rule Seek_END_misses [OF slow_io_ok])
  have m: "nat (int MAX_PHYSICAL_FILESIZE - 1) = MAX_PHYSICAL_FILESIZE - 1" "3 \<le> BLCKSZ" "1 \<le> MAX_PHYSICAL_FILESIZE" "1 \<le> int MAX_PHYSICAL_FILESIZE"
    by (simp_all add: MAX_PHYSICAL_FILESIZE_def BLCKSZ_def)
  then show "bf_ok straddling" "length (flat straddling) < base straddling + nbytes straddling"
    by (simp_all add: straddling_def bf_ok_def placed_def base_def flat_def)
qed (simp_all add: straddling_def)

text \<open>
  C34: \<^verbatim>\<open>BufFileGetSize\<close> never overestimates, and is exact if and only if the buffer does not extend the file, or
  belongs to the first segment and the position is at its end.  In a later segment, or after a seek back inside of the
  buffer, the size without part of the buffer is returned.
\<close>

theorem BufFileGetSize_exact:
  assumes "bf_ok f"
  shows "BufFileGetSize f \<le> int (length (content f)) \<and>
    (BufFileGetSize f = int (length (content f)) \<longleftrightarrow>
       length (content f) = length (flat f) \<or> curFile f = 0 \<and> bf_pos f = nbytes f)"
proof -
  have f: "placed f" "nbytes f \<le> length (buffer f)" "bf_pos f \<le> nbytes f" using assms by (auto simp: bf_ok_def)
  then have seg: "segs (files f)" "files f \<noteq> []" using segs_nonempty by (auto simp: placed_def)
  have size: "BufFileSize f = int (length (flat f))"
    using segs_length [OF seg(1)] seg(2) by (simp add: BufFileSize_def flat_def last_conv_nth of_nat_diff Suc_le_eq)
  have len: "length (content f) = max (length (flat f)) (base f + nbytes f)"
    using f by (simp add: content_def placed_def length_put_bytes)
  have base: "int (base f) = int (curFile f) * int MAX_PHYSICAL_FILESIZE + curOffset f" using f(1) by (simp add: base_def placed_def)
  have "int (base f) = curOffset f \<longleftrightarrow> curFile f = 0" "curOffset f \<le> int (base f)"
    unfolding base using sizes(1) by (auto simp del: sizes)
  with f(3) show ?thesis by (auto simp: BufFileGetSize_def size len max_def)
qed

theorem BufFileGetSize_exact_witness:
  "BufFileGetSize (straddling\<lparr>bf_pos := 0\<rparr>) \<le> int (length (content (straddling\<lparr>bf_pos := 0\<rparr>))) \<and>
   (BufFileGetSize (straddling\<lparr>bf_pos := 0\<rparr>) = int (length (content (straddling\<lparr>bf_pos := 0\<rparr>))) \<longleftrightarrow>
      length (content (straddling\<lparr>bf_pos := 0\<rparr>)) = length (flat (straddling\<lparr>bf_pos := 0\<rparr>)) \<or>
      curFile (straddling\<lparr>bf_pos := 0\<rparr>) = 0 \<and> bf_pos (straddling\<lparr>bf_pos := 0\<rparr>) = nbytes (straddling\<lparr>bf_pos := 0\<rparr>))"
proof (rule BufFileGetSize_exact)
  have "nat (int MAX_PHYSICAL_FILESIZE - 1) = MAX_PHYSICAL_FILESIZE - 1" "3 \<le> BLCKSZ" "1 \<le> int MAX_PHYSICAL_FILESIZE"
    by (simp_all add: MAX_PHYSICAL_FILESIZE_def BLCKSZ_def)
  then show "bf_ok (straddling\<lparr>bf_pos := 0\<rparr>)" by (simp add: straddling_def bf_ok_def placed_def base_def flat_def)
qed

end
