(* ===== verification/Visimap.thy ===== *)
theory Visimap
  imports VisimapStore SpillFile "HOL-Library.AList"
begin

text \<open>
  The visibility map of an append-only table, \<^verbatim>\<open>src/backend/access/appendonly/appendonly_visimap.c\<close>: visibility checks,
  the scan for hidden rows, and the delete machinery that keeps one entry in memory and stashes the other changed entries
  in a temporary file until the end of the command; and the delete functions of \<^verbatim>\<open>appendonlyam.c\<close> on top of it.  The
  temporary file is the one of \<open>BufFile\<close>, down to the bytes of the records.  Snapshots are the rows they see, so
  registering, locks and memory contexts are left out.
\<close>

section \<open>The map\<close>

record AppendOnlyVisimap =
  visimapEntry :: AppendOnlyVisimapEntry
  visimapStore :: AppendOnlyVisimapStore

text \<open>The zero-allocated entry that \<^verbatim>\<open>AppendOnlyVisimap_Init\<close> starts from.\<close>

definition zero_tid :: AOTupleId where
  "zero_tid = \<lparr>bytes_0_1 = 0, bytes_2_3 = 0, bytes_4_5 = 0\<rparr>"

definition zero_entry :: AppendOnlyVisimapEntry where
  "zero_entry = \<lparr>visidata = None, bitmap = None, segmentFileNum = 0, firstRowNum = 0, dirty = False, tupleTid = zero_tid\<rparr>"

definition AppendOnlyVisimap_Init :: "visimap_row list \<Rightarrow> AppendOnlyVisimap" where
  "AppendOnlyVisimap_Init rows =
     \<lparr>visimapEntry = AppendOnlyVisimapEntry_Init zero_entry, visimapStore = AppendOnlyVisimapStore_Init rows\<rparr>"

definition AppendOnlyVisimap_Store :: "AppendOnlyVisimap \<Rightarrow> AppendOnlyVisimap result" where
  "AppendOnlyVisimap_Store vm =
     bindE (AppendOnlyVisimapStore_Store (visimapStore vm) (visimapEntry vm)) (\<lambda>(s, e).
       Inr (vm\<lparr>visimapStore := s, visimapEntry := e\<rparr>))"

definition AppendOnlyVisimap_Finish :: "AppendOnlyVisimap \<Rightarrow> AppendOnlyVisimap result" where
  "AppendOnlyVisimap_Finish vm =
     bindE (if AppendOnlyVisimapEntry_HasChanged (visimapEntry vm) then AppendOnlyVisimap_Store vm else Inr vm) (\<lambda>vm1.
       Inr (vm1\<lparr>visimapStore := AppendOnlyVisimapStore_Finish (visimapStore vm1),
                visimapEntry := AppendOnlyVisimapEntry_Finish (visimapEntry vm1)\<rparr>))"

definition AppendOnlyVisimap_Find :: "BitmapDecompressState \<Rightarrow> AppendOnlyVisimap \<Rightarrow> AOTupleId \<Rightarrow> AppendOnlyVisimap result" where
  "AppendOnlyVisimap_Find garbage vm aoTupleId =
     bindE (AppendOnlyVisimapStore_Find garbage (visimapStore vm) (uint (AOTupleIdGet_segmentFileNum aoTupleId))
              (AppendOnlyVisimapEntry_GetFirstRowNum aoTupleId) (visimapEntry vm)) (\<lambda>(found, s, e).
       Inr (vm\<lparr>visimapStore := s, visimapEntry := (if \<not> found then AppendOnlyVisimapEntry_New e aoTupleId else e)\<rparr>))"

definition AppendOnlyVisimap_IsVisible ::
  "BitmapDecompressState \<Rightarrow> AppendOnlyVisimap \<Rightarrow> AOTupleId \<Rightarrow> (bool \<times> AppendOnlyVisimap) result" where
  "AppendOnlyVisimap_IsVisible garbage vm aoTupleId =
     bindE (if \<not> AppendOnlyVisimapEntry_CoversTuple (visimapEntry vm) aoTupleId
            then bindE (if AppendOnlyVisimapEntry_HasChanged (visimapEntry vm) then AppendOnlyVisimap_Store vm else Inr vm)
                   (\<lambda>vm1. AppendOnlyVisimap_Find garbage vm1 aoTupleId)
            else Inr vm) (\<lambda>vm2.
     bindE (AppendOnlyVisimapEntry_IsVisible (visimapEntry vm2) aoTupleId) (\<lambda>visible. Inr (visible, vm2)))"

definition AppendOnlyVisimap_DeleteSegmentFile ::
  "BitmapDecompressState \<Rightarrow> AppendOnlyVisimap \<Rightarrow> int \<Rightarrow> AppendOnlyVisimap result" where
  "AppendOnlyVisimap_DeleteSegmentFile garbage vm seg =
     bindE (AppendOnlyVisimapStore_DeleteSegmentFile garbage (visimapStore vm) seg) (\<lambda>s. Inr (vm\<lparr>visimapStore := s\<rparr>))"

definition AppendOnlyVisimap_GetRelationHiddenTupleCount ::
  "BitmapDecompressState \<Rightarrow> AppendOnlyVisimap \<Rightarrow> (nat \<times> AppendOnlyVisimap) result" where
  "AppendOnlyVisimap_GetRelationHiddenTupleCount garbage vm =
     bindE (AppendOnlyVisimapStore_GetRelationHiddenTupleCount garbage (visimapStore vm) (visimapEntry vm)) (\<lambda>(n, e).
       Inr (n, vm\<lparr>visimapEntry := e\<rparr>))"

definition AppendOnlyVisimap_GetSegmentFileHiddenTupleCount ::
  "BitmapDecompressState \<Rightarrow> AppendOnlyVisimap \<Rightarrow> int \<Rightarrow> (nat \<times> AppendOnlyVisimap) result" where
  "AppendOnlyVisimap_GetSegmentFileHiddenTupleCount garbage vm seg =
     bindE (AppendOnlyVisimapStore_GetSegmentFileHiddenTupleCount garbage (visimapStore vm) (visimapEntry vm) seg) (\<lambda>(n, e).
       Inr (n, vm\<lparr>visimapEntry := e\<rparr>))"

text \<open>The initialisations that look up the auxiliary relation; \<open>None\<close> is an invalid identifier.\<close>

definition AppendOnlyVisimap_Init_forUniqueCheck :: "visimap_row list option \<Rightarrow> AppendOnlyVisimap result" where
  "AppendOnlyVisimap_Init_forUniqueCheck visimaprel =
     (case visimaprel of
        None \<Rightarrow> Inl (ERROR ''Could not find visimap for relation'')
      | Some rows \<Rightarrow> Inr (AppendOnlyVisimap_Init rows))"

definition AppendOnlyVisimap_Finish_forUniquenessChecks :: "AppendOnlyVisimap \<Rightarrow> AppendOnlyVisimap" where
  "AppendOnlyVisimap_Finish_forUniquenessChecks vm =
     vm\<lparr>visimapStore := AppendOnlyVisimapStore_Finish (visimapStore vm), visimapEntry := AppendOnlyVisimapEntry_Finish (visimapEntry vm)\<rparr>"

definition AppendOnlyVisimap_Init_forIndexOnlyScan :: "visimap_row list option \<Rightarrow> AppendOnlyVisimap result" where
  "AppendOnlyVisimap_Init_forIndexOnlyScan visimaprel =
     (case visimaprel of
        None \<Rightarrow> Inl (ERROR ''Could not find visimap for relation'')
      | Some rows \<Rightarrow> Inr (AppendOnlyVisimap_Init rows))"

definition AppendOnlyVisimap_Finish_forIndexOnlyScan :: "AppendOnlyVisimap \<Rightarrow> AppendOnlyVisimap" where
  "AppendOnlyVisimap_Finish_forIndexOnlyScan vm =
     vm\<lparr>visimapStore := AppendOnlyVisimapStore_Finish (visimapStore vm), visimapEntry := AppendOnlyVisimapEntry_Finish (visimapEntry vm)\<rparr>"

section \<open>The scan for hidden rows\<close>

record AppendOnlyVisimapScan =
  scan_visimap :: AppendOnlyVisimap
  indexScan :: "visimap_row list"
  isFinished :: bool

definition AppendOnlyVisimapScan_Init :: "visimap_row list \<Rightarrow> AppendOnlyVisimapScan" where
  "AppendOnlyVisimapScan_Init rows =
     (let vm = AppendOnlyVisimap_Init rows
      in \<lparr>scan_visimap = vm, indexScan = AppendOnlyVisimapStore_BeginScan (visimapStore vm) [], isFinished = False\<rparr>)"

text \<open>The step of the loop that fetches the next entry when the current one is used up; \<open>None\<close> is the end of the scan.\<close>

definition scan_fetch ::
  "BitmapDecompressState \<Rightarrow> AppendOnlyVisimapEntry \<Rightarrow> visimap_row list \<Rightarrow> AOTupleId \<Rightarrow>
   (AppendOnlyVisimapEntry \<times> visimap_row list \<times> AOTupleId) option result" where
  "scan_fetch garbage e rows t =
     (if \<not> AppendOnlyVisimapEntry_IsValid e then
        (case AppendOnlyVisimapStore_GetNext garbage rows ForwardScanDirection (Some e) of
           Inl err \<Rightarrow> Inl err
         | Inr (Some _, rest, Some e1) \<Rightarrow> Inr (Some (e1, rest, AOTupleIdSetInvalid))
         | Inr _ \<Rightarrow> Inr None)
      else Inr (Some (e, rows, t)))"

lemma scan_fetch_decreases:
  assumes "scan_fetch garbage e rows t = Inr (Some (e1, rest, t1))"
  shows "2 * length rest < 2 * length rows + (if AppendOnlyVisimapEntry_IsValid e then 1 else 0)"
proof (cases "AppendOnlyVisimapEntry_IsValid e")
  case True
  with assms show ?thesis by (simp add: scan_fetch_def)
next
  case False
  with assms getnext_shorter show ?thesis by (fastforce simp: scan_fetch_def split: sum.splits option.splits)
qed

text \<open>The loop of \<^verbatim>\<open>AppendOnlyVisimapScan_GetNextInvisible\<close> on entry, index scan and the identifier that \<^verbatim>\<open>tupleId\<close> points to.\<close>

function scan_loop ::
  "BitmapDecompressState \<Rightarrow> AppendOnlyVisimapEntry \<Rightarrow> visimap_row list \<Rightarrow> AOTupleId \<Rightarrow>
   (bool \<times> AOTupleId \<times> AppendOnlyVisimapEntry \<times> visimap_row list) result" where
  "scan_loop garbage e rows t =
     (case scan_fetch garbage e rows t of
        Inl err \<Rightarrow> Inl err
      | Inr None \<Rightarrow> Inr (False, t, e, [])
      | Inr (Some (e1, rest, t1)) \<Rightarrow>
          (case AppendOnlyVisimapEntry_GetNextInvisible e1 t1 of
             (True, t2) \<Rightarrow> Inr (True, t2, e1, rest)
           | (False, t2) \<Rightarrow> scan_loop garbage (AppendOnlyVisimapEntry_Reset e1) rest t2))"
  by pat_completeness auto
termination
  by (relation "measure (\<lambda>(garbage, e, rows, t). 2 * length rows + (if AppendOnlyVisimapEntry_IsValid e then 1 else 0))")
    (auto dest!: scan_fetch_decreases simp: AppendOnlyVisimapEntry_Reset_def AppendOnlyVisimapEntry_IsValid_def)

declare scan_loop.simps [simp del]

definition AppendOnlyVisimapScan_GetNextInvisible ::
  "BitmapDecompressState \<Rightarrow> AppendOnlyVisimapScan \<Rightarrow> AOTupleId \<Rightarrow> (bool \<times> AOTupleId \<times> AppendOnlyVisimapScan) result" where
  "AppendOnlyVisimapScan_GetNextInvisible garbage sc t =
     (if isFinished sc then Inr (True, t, sc)
      else
        bindE (scan_loop garbage (visimapEntry (scan_visimap sc)) (indexScan sc) t) (\<lambda>(found, t1, e1, rest).
          Inr (found, t1, sc\<lparr>scan_visimap := (scan_visimap sc)\<lparr>visimapEntry := e1\<rparr>, indexScan := rest, isFinished := \<not> found\<rparr>)))"

definition AppendOnlyVisimapScan_Finish :: "AppendOnlyVisimapScan \<Rightarrow> AppendOnlyVisimap result" where
  "AppendOnlyVisimapScan_Finish sc = AppendOnlyVisimap_Finish (scan_visimap sc)"

section \<open>Deleting\<close>

text \<open>Subtraction of unsigned 64-bit sizes.\<close>

definition size_sub :: "nat \<Rightarrow> nat \<Rightarrow> nat" where
  "size_sub a b = (if a < b then 2 ^ 64 + a - b else a - b)"

record AppendOnlyVisiMapDeleteKey =
  key_segno :: uint64
  key_firstRowNum :: uint64

record AppendOnlyVisiMapDeleteData =
  workFileno :: int
  workFileOffset :: int
  dd_tupleTid :: AOTupleId

text \<open>The hash table is an association list; its order is never observed.\<close>

record AppendOnlyVisimapDelete =
  visiMap :: AppendOnlyVisimap
  dirtyEntryCache :: "(AppendOnlyVisiMapDeleteKey \<times> AppendOnlyVisiMapDeleteData) list"
  workfile :: BufFile

abbreviation delete_entry :: "AppendOnlyVisimapDelete \<Rightarrow> AppendOnlyVisimapEntry" where
  "delete_entry vd \<equiv> visimapEntry (visiMap vd)"

definition set_delete_entry :: "AppendOnlyVisimapEntry \<Rightarrow> AppendOnlyVisimapDelete \<Rightarrow> AppendOnlyVisimapDelete" where
  "set_delete_entry e vd = vd\<lparr>visiMap := (visiMap vd)\<lparr>visimapEntry := e\<rparr>\<rparr>"

text \<open>The bytes of a key and of the data buffer of an entry, whose length word is in network byte order with two flag bits.\<close>

definition key_bytes :: "AppendOnlyVisiMapDeleteKey \<Rightarrow> uint8 list" where
  "key_bytes k = le_bytes 8 (unat (key_segno k)) @ le_bytes 8 (unat (key_firstRowNum k))"

definition bytes_key :: "uint8 list \<Rightarrow> AppendOnlyVisiMapDeleteKey" where
  "bytes_key bs = \<lparr>key_segno = of_nat (le_nat (take 8 bs)), key_firstRowNum = of_nat (le_nat (drop 8 bs))\<rparr>"

definition data_image :: "AppendOnlyVisimapData \<Rightarrow> uint8 list" where
  "data_image d = rev (le_bytes 4 (vl_len d mod 2 ^ 30)) @ le_bytes 4 (nat (version d mod 2 ^ 32)) @ vdata d"

definition image_data :: "uint8 list \<Rightarrow> AppendOnlyVisimapData" where
  "image_data bs =
     \<lparr>vl_len = le_nat (rev (take 4 bs)) mod 2 ^ 30, version = c_int (int (le_nat (take 4 (drop 4 bs)))), vdata = drop 8 bs\<rparr>"

text \<open>Bytes that a read puts into the data buffer.\<close>

definition read_into :: "AppendOnlyVisimapData \<Rightarrow> nat \<Rightarrow> uint8 list \<Rightarrow> AppendOnlyVisimapData result" where
  "read_into d off bs =
     (if off + length bs \<le> 8 + length (vdata d) then Inr (image_data (put_bytes (data_image d) off bs))
      else Inl (UB ''data buffer overflow''))"

text \<open>Reading a datum: the length word first, then the rest.\<close>

definition read_datum ::
  "file_io \<Rightarrow> string \<Rightarrow> BufFile \<Rightarrow> AppendOnlyVisimapEntry \<Rightarrow> (AppendOnlyVisimapEntry \<times> BufFile) result" where
  "read_datum io msg f e =
     bindE (BufFileRead io f 4) (\<lambda>(bs, f1).
     case visidata e of
       None \<Rightarrow> Inl (UB ''null pointer'')
     | Some d \<Rightarrow>
         bindE (read_into d 0 bs) (\<lambda>d1.
         if length bs \<noteq> 4 then Inl (ERROR msg)
         else
           let n = size_sub (vl_len d1) 4 in
           bindE (BufFileRead io f1 n) (\<lambda>(bs2, f2).
           bindE (read_into d1 4 bs2) (\<lambda>d2.
           if length bs2 \<noteq> n then Inl (ERROR msg) else Inr (e\<lparr>visidata := Some d2\<rparr>, f2)))))"

definition AppendOnlyVisimapDelete_Init :: "uint8 list \<Rightarrow> AppendOnlyVisimap \<Rightarrow> AppendOnlyVisimapDelete" where
  "AppendOnlyVisimapDelete_Init junk vm = \<lparr>visiMap = vm, dirtyEntryCache = [], workfile = BufFileCreateTemp junk\<rparr>"

definition AppendOnlyVisimapDelete_RebuildEntry ::
  "BitmapDecompressState \<Rightarrow> AppendOnlyVisimapEntry \<Rightarrow> int \<Rightarrow> int \<Rightarrow> AOTupleId \<Rightarrow> AppendOnlyVisimapEntry result" where
  "AppendOnlyVisimapDelete_RebuildEntry garbage e seg first tid =
     (case visidata e of
        None \<Rightarrow> Inl (UB ''null pointer'')
      | Some d \<Rightarrow>
          bindE (AppendOnlyVisiMapEnty_ReadData garbage (e\<lparr>segmentFileNum := seg, firstRowNum := first\<rparr>) (size_sub (vl_len d) 8)) (\<lambda>e1.
            Inr (e1\<lparr>dirty := True, tupleTid := tid\<rparr>)))"

definition AppendOnlyVisimapDelete_Unstash ::
  "file_io \<Rightarrow> BitmapDecompressState \<Rightarrow> AppendOnlyVisimapDelete \<Rightarrow> int \<Rightarrow> int \<Rightarrow> AppendOnlyVisiMapDeleteData \<Rightarrow>
   AppendOnlyVisimapDelete result" where
  "AppendOnlyVisimapDelete_Unstash io garbage vd seg first deleteData =
     bindE (BufFileSeek io (workfile vd) (workFileno deleteData) (workFileOffset deleteData) SEEK_SET) (\<lambda>(r, f).
     if r \<noteq> 0 then Inl (ERROR ''failed to seek visimap delete buf file'')
     else
       bindE (BufFileRead io f 16) (\<lambda>(kb, f1).
       if length kb \<noteq> 16 then Inl (ERROR ''failed to read visimap delete buf file'')
       else
         bindE (read_datum io ''failed to read visimap delete buf file'' f1 (delete_entry vd)) (\<lambda>(e, f2).
         bindE (AppendOnlyVisimapDelete_RebuildEntry garbage e seg first (dd_tupleTid deleteData)) (\<lambda>e1.
           Inr ((set_delete_entry e1 vd)\<lparr>workfile := f2\<rparr>)))))"

definition AppendOnlyVisimapDelete_Find ::
  "file_io \<Rightarrow> BitmapDecompressState \<Rightarrow> AppendOnlyVisimapDelete \<Rightarrow> AOTupleId \<Rightarrow> AppendOnlyVisimapDelete result" where
  "AppendOnlyVisimapDelete_Find io garbage vd aoTupleId =
     (let k = \<lparr>key_segno = ucast (AOTupleIdGet_segmentFileNum aoTupleId),
               key_firstRowNum = word_of_int (AppendOnlyVisimapEntry_GetFirstRowNum aoTupleId)\<rparr>
      in case map_of (dirtyEntryCache vd) k of
           Some r \<Rightarrow> AppendOnlyVisimapDelete_Unstash io garbage vd (c_int (uint (key_segno k))) (sint (key_firstRowNum k)) r
         | None \<Rightarrow>
             bindE (AppendOnlyVisimapStore_Find garbage (visimapStore (visiMap vd)) (uint (AOTupleIdGet_segmentFileNum aoTupleId))
                      (AppendOnlyVisimapEntry_GetFirstRowNum aoTupleId) (delete_entry vd)) (\<lambda>(found, s, e).
               Inr (vd\<lparr>visiMap := \<lparr>visimapEntry = (if \<not> found then AppendOnlyVisimapEntry_New e aoTupleId else e), visimapStore = s\<rparr>\<rparr>)))"

text \<open>The key under which the entry in memory is stashed.\<close>

definition entry_key :: "AppendOnlyVisimapEntry \<Rightarrow> AppendOnlyVisiMapDeleteKey" where
  "entry_key e = \<lparr>key_segno = word_of_int (segmentFileNum e), key_firstRowNum = word_of_int (firstRowNum e)\<rparr>"

definition AppendOnlyVisimapDelete_Stash :: "file_io \<Rightarrow> AppendOnlyVisimapDelete \<Rightarrow> AppendOnlyVisimapDelete result" where
  "AppendOnlyVisimapDelete_Stash io vd =
     bindE (AppendOnlyVisimapEntry_WriteData (delete_entry vd)) (\<lambda>e.
     bindE (BufFileSeek io (workfile vd) 0 0 SEEK_END) (\<lambda>(r, f).
     if r \<noteq> 0 then Inl (ERROR ''failed to seek to end of visimap buf file'')
     else
       let (fileno, offset) = BufFileTell f in
       bindE (BufFileWrite io f (key_bytes (entry_key e))) (\<lambda>(n1, f1).
       if n1 \<noteq> 16 then Inl (ERROR ''Failed to write visimap delete spill key information'')
       else
         case visidata e of
           None \<Rightarrow> Inl (UB ''null pointer'')
         | Some d \<Rightarrow>
             if vl_len d > length (data_image d) then Inl (UB ''data buffer overread'')
             else
               bindE (BufFileWrite io f1 (take (vl_len d) (data_image d))) (\<lambda>(n2, f2).
               if n2 \<noteq> vl_len d then Inl (ERROR ''Failed to write visimap delete spill key information'')
               else Inr ((set_delete_entry (e\<lparr>dirty := False\<rparr>) vd)\<lparr>workfile := f2,
                      dirtyEntryCache := AList.update (entry_key e)
                        \<lparr>workFileno = fileno, workFileOffset = offset, dd_tupleTid = tupleTid e\<rparr> (dirtyEntryCache vd)\<rparr>)))))"

definition AppendOnlyVisimapDelete_LoadTuple ::
  "file_io \<Rightarrow> BitmapDecompressState \<Rightarrow> AppendOnlyVisimapDelete \<Rightarrow> AOTupleId \<Rightarrow> AppendOnlyVisimapDelete result" where
  "AppendOnlyVisimapDelete_LoadTuple io garbage vd aoTupleId =
     (if AppendOnlyVisimapEntry_CoversTuple (delete_entry vd) aoTupleId then Inr vd
      else
        bindE (if AppendOnlyVisimapEntry_HasChanged (delete_entry vd) then AppendOnlyVisimapDelete_Stash io vd else Inr vd) (\<lambda>vd1.
          AppendOnlyVisimapDelete_Find io garbage vd1 aoTupleId))"

definition AppendOnlyVisimapDelete_Hide ::
  "file_io \<Rightarrow> BitmapDecompressState \<Rightarrow> AppendOnlyVisimapDelete \<Rightarrow> AOTupleId \<Rightarrow> (TM_Result \<times> AppendOnlyVisimapDelete) result" where
  "AppendOnlyVisimapDelete_Hide io garbage vd aoTupleId =
     bindE (AppendOnlyVisimapDelete_LoadTuple io garbage vd aoTupleId) (\<lambda>vd1.
     bindE (AppendOnlyVisimapEntry_HideTuple (delete_entry vd1) aoTupleId) (\<lambda>(r, e). Inr (r, set_delete_entry e vd1)))"

definition AppendOnlyVisimapDelete_IsVisible ::
  "file_io \<Rightarrow> BitmapDecompressState \<Rightarrow> AppendOnlyVisimapDelete \<Rightarrow> AOTupleId \<Rightarrow> (bool \<times> AppendOnlyVisimapDelete) result" where
  "AppendOnlyVisimapDelete_IsVisible io garbage vd aoTupleId =
     bindE (AppendOnlyVisimapDelete_LoadTuple io garbage vd aoTupleId) (\<lambda>vd1.
     bindE (AppendOnlyVisimapEntry_IsVisible (delete_entry vd1) aoTupleId) (\<lambda>visible. Inr (visible, vd1)))"

text \<open>
  The body of the loop of \<^verbatim>\<open>WriteBackStashedEntries\<close>, after the key of the next record has been read: \<open>cur\<close> is the place of
  the record.
\<close>

definition writeback_entry ::
  "file_io \<Rightarrow> BitmapDecompressState \<Rightarrow> int \<times> int \<Rightarrow> AppendOnlyVisiMapDeleteKey \<Rightarrow> AppendOnlyVisimapDelete \<Rightarrow>
   AppendOnlyVisimapDelete result" where
  "writeback_entry io garbage cur k vd =
     bindE (read_datum io ''Failed to read visimap delete spill data'' (workfile vd) (delete_entry vd)) (\<lambda>(e, f).
     case map_of (dirtyEntryCache vd) k of
       None \<Rightarrow> Inl (ERROR ''Found a stashed visimap entry without corresponding meta data'')
     | Some deleteData \<Rightarrow>
         let vd1 = (set_delete_entry e vd)\<lparr>workfile := f\<rparr> in
         if cur \<noteq> (workFileno deleteData, workFileOffset deleteData) then Inr vd1
         else
           bindE (AppendOnlyVisimapDelete_RebuildEntry garbage e (c_int (uint (key_segno k))) (sint (key_firstRowNum k))
                    (dd_tupleTid deleteData)) (\<lambda>e1.
           bindE (AppendOnlyVisimap_Store (visiMap (set_delete_entry e1 vd1))) (\<lambda>vm. Inr (vd1\<lparr>visiMap := vm\<rparr>))))"

partial_function (option) writeback_loop ::
  "file_io \<Rightarrow> BitmapDecompressState \<Rightarrow> AppendOnlyVisimapDelete \<Rightarrow> AppendOnlyVisimapDelete result option" where
  "writeback_loop io garbage vd =
     (case BufFileRead io (workfile vd) 16 of
        Inl err \<Rightarrow> Some (Inl err)
      | Inr (kb, f) \<Rightarrow>
          if length kb = 16 then
            (case writeback_entry io garbage (BufFileTell (workfile vd)) (bytes_key kb) (vd\<lparr>workfile := f\<rparr>) of
               Inl err \<Rightarrow> Some (Inl err)
             | Inr vd1 \<Rightarrow> writeback_loop io garbage vd1)
          else Some (if kb \<noteq> [] then Inl (ERROR ''Failed to read visimap delete spill data'') else Inr (vd\<lparr>workfile := f\<rparr>)))"

definition AppendOnlyVisimapDelete_WriteBackStashedEntries ::
  "file_io \<Rightarrow> BitmapDecompressState \<Rightarrow> AppendOnlyVisimapDelete \<Rightarrow> AppendOnlyVisimapDelete result option" where
  "AppendOnlyVisimapDelete_WriteBackStashedEntries io garbage vd =
     (if dirtyEntryCache vd = [] then Some (Inr vd)
      else
        case BufFileSeek io (workfile vd) 0 0 SEEK_SET of
          Inl err \<Rightarrow> Some (Inl err)
        | Inr (r, f) \<Rightarrow>
            if r \<noteq> 0 then Some (Inl (ERROR ''Failed to seek to visimap delete spill beginning''))
            else writeback_loop io garbage (vd\<lparr>workfile := f\<rparr>))"

text \<open>The first part of \<^verbatim>\<open>Finish\<close>: the entry in memory is stored, and its stashed versions are marked as out of date.\<close>

definition finish_current :: "AppendOnlyVisimapDelete \<Rightarrow> AppendOnlyVisimapDelete result" where
  "finish_current vd =
     (if AppendOnlyVisimapEntry_HasChanged (delete_entry vd) then
        bindE (AppendOnlyVisimap_Store (visiMap vd)) (\<lambda>vm.
          let k = entry_key (visimapEntry vm);
              cache = dirtyEntryCache vd
          in Inr (vd\<lparr>visiMap := vm, dirtyEntryCache :=
               (if map_of cache k \<noteq> None
                then AList.update k \<lparr>workFileno = -1, workFileOffset = 2 ^ 63 - 1, dd_tupleTid = zero_tid\<rparr> cache else cache)\<rparr>))
      else Inr vd)"

definition AppendOnlyVisimapDelete_Finish ::
  "file_io \<Rightarrow> BitmapDecompressState \<Rightarrow> AppendOnlyVisimapDelete \<Rightarrow> AppendOnlyVisimap result option" where
  "AppendOnlyVisimapDelete_Finish io garbage vd =
     (case finish_current vd of
        Inl err \<Rightarrow> Some (Inl err)
      | Inr vd1 \<Rightarrow>
          map_option (\<lambda>r. bindE r (\<lambda>vd2. bindE (BufFileClose io (workfile vd2)) (\<lambda>_. Inr (visiMap vd2))))
            (AppendOnlyVisimapDelete_WriteBackStashedEntries io garbage vd1))"

text \<open>
  A uniqueness check replaces the snapshot for one tuple.  It is given the delete structure of an \<^verbatim>\<open>UPDATE\<close> or the map.
\<close>

definition AppendOnlyVisimap_UniqueCheck_delete ::
  "file_io \<Rightarrow> BitmapDecompressState \<Rightarrow> AppendOnlyVisimapDelete \<Rightarrow> AOTupleId \<Rightarrow> visimap_row list \<Rightarrow>
   (bool \<times> AppendOnlyVisimapDelete) result" where
  "AppendOnlyVisimap_UniqueCheck_delete io garbage vd aoTupleId rows =
     (let save = visimap_rows (visimapStore (visiMap vd));
          set_rows = \<lambda>r vd. vd\<lparr>visiMap := (visiMap vd)\<lparr>visimapStore := (visimapStore (visiMap vd))\<lparr>visimap_rows := r\<rparr>\<rparr>\<rparr>
      in bindE (AppendOnlyVisimapDelete_IsVisible io garbage (set_rows rows vd) aoTupleId) (\<lambda>(visible, vd1).
           Inr (visible, set_rows save vd1)))"

definition AppendOnlyVisimap_UniqueCheck ::
  "BitmapDecompressState \<Rightarrow> AppendOnlyVisimap \<Rightarrow> AOTupleId \<Rightarrow> visimap_row list \<Rightarrow> (bool \<times> AppendOnlyVisimap) result" where
  "AppendOnlyVisimap_UniqueCheck garbage vm aoTupleId rows =
     (let set_rows = \<lambda>r vm. vm\<lparr>visimapStore := (visimapStore vm)\<lparr>visimap_rows := r\<rparr>\<rparr>
      in bindE (AppendOnlyVisimap_IsVisible garbage (set_rows rows vm) aoTupleId) (\<lambda>(visible, vm1). Inr (visible, set_rows [] vm1)))"

section \<open>Deleting from an append-only table\<close>

definition appendonly_delete_init :: "uint8 list \<Rightarrow> visimap_row list \<Rightarrow> AppendOnlyVisimapDelete" where
  "appendonly_delete_init junk rows = AppendOnlyVisimapDelete_Init junk (AppendOnlyVisimap_Init rows)"

definition appendonly_delete ::
  "file_io \<Rightarrow> BitmapDecompressState \<Rightarrow> AppendOnlyVisimapDelete \<Rightarrow> AOTupleId \<Rightarrow> (TM_Result \<times> AppendOnlyVisimapDelete) result" where
  "appendonly_delete io garbage vd aoTupleId = AppendOnlyVisimapDelete_Hide io garbage vd aoTupleId"

definition appendonly_delete_finish ::
  "file_io \<Rightarrow> BitmapDecompressState \<Rightarrow> AppendOnlyVisimapDelete \<Rightarrow> AppendOnlyVisimap result option" where
  "appendonly_delete_finish io garbage vd =
     map_option (\<lambda>r. bindE r AppendOnlyVisimap_Finish) (AppendOnlyVisimapDelete_Finish io garbage vd)"

end
