(* ===== verification/VisimapSession.thy ===== *)
theory VisimapSession
  imports Visimap
begin

text \<open>
  What a delete command does to the visibility map.  While the command runs, the entry in memory, the records of the spill
  file and the hash table together represent a set of hidden rows; at the end each range that was touched is written to
  the relation once.  The proofs rest on the contract of the spill file and on the storage layer.
\<close>

section \<open>Bytes of keys and data\<close>

lemma length_key_bytes [simp]: "length (key_bytes k) = 16"
  by (simp add: key_bytes_def)

lemma bytes_key_inverse [simp]: "bytes_key (key_bytes k) = k"
proof -
  have "unat (w :: uint64) mod 256 ^ 8 = unat w" for w using unat_uint64_less [of w] by simp
  then show ?thesis by (simp add: bytes_key_def key_bytes_def le_nat_bytes)
qed

lemma length_data_image [simp]: "length (data_image d) = 8 + length (vdata d)"
  by (simp add: data_image_def)

lemma image_data_fields:
  assumes "bs = rev (le_bytes 4 x) @ rest" and "x < 2 ^ 30"
  shows "vl_len (image_data bs) = x" and "vdata (image_data bs) = drop 8 bs"
  using assms by (simp_all add: image_data_def le_nat_bytes)

text \<open>A datum as it is stashed: the first \<^verbatim>\<open>VARSIZE\<close> bytes of the data buffer.\<close>

definition spilled :: "uint8 list \<Rightarrow> bms \<Rightarrow> bool" where
  "spilled bs b \<longleftrightarrow> (\<exists>d ws. bs = take (vl_len d) (data_image d) \<and> 8 \<le> vl_len d \<and> vl_len d \<le> 8 + visimap_buffer_bytes \<and>
     length (vdata d) = visimap_buffer_bytes \<and> b = mk_bms ws \<and> image_of ws (datum_of d))"

lemma spilled_parts:
  assumes "spilled bs b"
  obtains n v where "8 \<le> n" "n \<le> 8 + visimap_buffer_bytes" "length bs = n" "length v = 4"
    "bs = (rev (le_bytes 4 n) @ v) @ drop 8 bs" "\<And>d. vdata d = drop 8 bs \<Longrightarrow> vl_len d = n \<Longrightarrow> \<exists>ws. b = mk_bms ws \<and> image_of ws d"
proof -
  from assms obtain d ws where
    d: "bs = take (vl_len d) (data_image d)" "8 \<le> vl_len d" "vl_len d \<le> 8 + visimap_buffer_bytes"
      "length (vdata d) = visimap_buffer_bytes" "b = mk_bms ws" "image_of ws (datum_of d)" unfolding spilled_def by blast
  define v where "v = le_bytes 4 (nat (version d mod 2 ^ 32))"
  have small: "vl_len d mod 2 ^ 30 = vl_len d"
    using d(3) by (simp add: visimap_buffer_bytes_def APPENDONLY_VISIMAP_MAX_BITMAP_SIZE_def)
  have bs: "bs = (rev (le_bytes 4 (vl_len d)) @ v) @ take (vl_len d - 8) (vdata d)"
    using d(1,2) unfolding data_image_def small v_def by simp
  show ?thesis
  proof (rule that [of "vl_len d" v])
    show "length bs = vl_len d" using d by simp
    show "bs = (rev (le_bytes 4 (vl_len d)) @ v) @ drop 8 bs" using bs by (simp add: v_def)
    show "\<exists>ws. b = mk_bms ws \<and> image_of ws d'" if "vdata d' = drop 8 bs" "vl_len d' = vl_len d" for d'
      using d(5,6) that bs by (auto simp: image_of_def datum_of_def v_def)
  qed (use d in \<open>simp_all add: v_def\<close>)
qed
text \<open>Reading it back, into any data buffer.\<close>

lemma read_into_front:
  assumes "length (vdata d) = visimap_buffer_bytes" and "length bs \<le> 8 + visimap_buffer_bytes"
  shows "read_into d 0 bs = Inr (image_data (bs @ drop (length bs) (data_image d)))"
  using assms by (simp add: read_into_def put_bytes_in)

lemma read_datum_ok:
  assumes "io_ok io" and "bf_stands f c p" and "c = xs @ bs @ ys" and "p = length xs" and "spilled bs b" and "buffer_ok e"
  shows "\<exists>d g. read_datum io msg f e = Inr (e\<lparr>visidata := Some d\<rparr>, g) \<and> bf_stands g c (p + length bs) \<and>
    BufFileTell g = loc (p + length bs) \<and> length (vdata d) = visimap_buffer_bytes \<and>
    (\<forall>garbage seg first tid. AppendOnlyVisimapDelete_RebuildEntry garbage (e\<lparr>visidata := Some d\<rparr>) seg first tid =
       Inr (e\<lparr>visidata := Some d, segmentFileNum := seg, firstRowNum := first, bitmap := b, dirty := True, tupleTid := tid\<rparr>))"
proof -
  from spilled_parts [OF assms(5)] obtain n v where
    n: "8 \<le> n" "n \<le> 8 + visimap_buffer_bytes" "length bs = n" "length v = 4" "bs = (rev (le_bytes 4 n) @ v) @ drop 8 bs"
      "\<And>d. vdata d = drop 8 bs \<Longrightarrow> vl_len d = n \<Longrightarrow> \<exists>ws. b = mk_bms ws \<and> image_of ws d" by blast
  have n30: "n < 2 ^ 30" using n(2) by (simp add: visimap_buffer_bytes_def APPENDONLY_VISIMAP_MAX_BITMAP_SIZE_def)
  from assms(6) obtain d0 where d0: "visidata e = Some d0" "length (vdata d0) = visimap_buffer_bytes" by (auto simp: buffer_ok_def)
  define hd where "hd = rev (le_bytes 4 n)"
  define tl where "tl = v @ drop 8 bs"
  have bs: "bs = hd @ tl" "length hd = 4" "length tl = n - 4" using n by (simp_all add: hd_def tl_def)
  from spill.read_part [OF assms(1,2), of xs hd "tl @ ys"] assms(3,4) bs obtain f1 where
    f1: "BufFileRead io f 4 = Inr (hd, f1)" "bf_stands f1 c (p + 4)" by auto
  from spill.read_part [OF assms(1) f1(2), of "xs @ hd" tl ys] assms(3,4) bs n(1) obtain g where
    g: "BufFileRead io f1 (n - 4) = Inr (tl, g)" "bf_stands g c (p + n)" "BufFileTell g = loc (p + n)" by (auto simp: add.assoc)
  define d1 where "d1 = image_data (hd @ drop 4 (data_image d0))"
  have d1: "read_into d0 0 hd = Inr d1" "vl_len d1 = n" "length (vdata d1) = visimap_buffer_bytes"
    using read_into_front [OF d0(2), of hd] bs(2) image_data_fields [of "hd @ drop 4 (data_image d0)" n "drop 4 (data_image d0)"] n30 d0(2)
    by (simp_all add: d1_def hd_def)
  define d2 where "d2 = image_data (put_bytes (data_image d1) 4 tl)"
  have small: "vl_len d1 mod 2 ^ 30 = n" using d1(2) n30 by simp
  have img: "put_bytes (data_image d1) 4 tl = bs @ drop n (data_image d1)"
    unfolding data_image_def small using bs n(1) by (simp add: put_bytes_in hd_def [symmetric])
  have d2: "read_into d1 4 tl = Inr d2" "vl_len d2 = n" "vdata d2 = drop 8 bs @ drop n (data_image d1)" "length (vdata d2) = visimap_buffer_bytes"
    using d1(3) bs n(1,2,3) n30 image_data_fields [of "bs @ drop n (data_image d1)" n "tl @ drop n (data_image d1)"]
    by (simp_all add: read_into_def d2_def img hd_def [symmetric])
  have "read_datum io msg f e = Inr (e\<lparr>visidata := Some d2\<rparr>, g)"
    using f1(1) d0(1) d1 g(1) d2(1) bs n(1) by (simp add: read_datum_def size_sub_def)
  moreover have "AppendOnlyVisimapDelete_RebuildEntry garbage (e\<lparr>visidata := Some d2\<rparr>) seg first tid =
       Inr (e\<lparr>visidata := Some d2, segmentFileNum := seg, firstRowNum := first, bitmap := b, dirty := True, tupleTid := tid\<rparr>)" for garbage seg first tid
  proof -
    obtain ws where ws: "b = mk_bms ws" "image_of ws (d2\<lparr>vdata := drop 8 bs\<rparr>)" using n(6) [of "d2\<lparr>vdata := drop 8 bs\<rparr>"] d2(2) by auto
    have "AppendOnlyVisiMapEnty_ReadData garbage (e\<lparr>visidata := Some d2, segmentFileNum := seg, firstRowNum := first\<rparr>) (vl_len (d2\<lparr>vdata := drop 8 bs\<rparr>) - 8) =
        Inr (e\<lparr>visidata := Some d2, segmentFileNum := seg, firstRowNum := first, bitmap := mk_bms ws\<rparr>)"
      by (rule ReadData_prefix [OF _ ws(2)]) (use d2(3) in simp_all)
    then show ?thesis using d2(2) n(1) ws(1) by (simp add: AppendOnlyVisimapDelete_RebuildEntry_def size_sub_def)
  qed
  ultimately show ?thesis using g d2(4) n(3) by blast
qed
section \<open>Ranges and keys\<close>

definition tid_range :: "AOTupleId \<Rightarrow> range" where
  "tid_range t = (uint (AOTupleIdGet_segmentFileNum t), AppendOnlyVisimapEntry_GetFirstRowNum t)"

definition tid_place :: "AOTupleId \<Rightarrow> int \<times> int" where
  "tid_place t = (uint (AOTupleIdGet_segmentFileNum t), tid_row t)"

definition range_key :: "range \<Rightarrow> AppendOnlyVisiMapDeleteKey" where
  "range_key k = \<lparr>key_segno = word_of_int (fst k), key_firstRowNum = word_of_int (snd k)\<rparr>"

abbreviation entry_range :: "AppendOnlyVisimapEntry \<Rightarrow> range" where
  "entry_range e \<equiv> (segmentFileNum e, firstRowNum e)"

lemma entry_key_range: "entry_key e = range_key (entry_range e)"
  by (simp add: entry_key_def range_key_def)

lemma range_key_fields:
  assumes "range_ok k"
  shows "c_int (uint (key_segno (range_key k))) = fst k" and "sint (key_firstRowNum (range_key k)) = snd k"
  using assms by (simp_all add: range_ok_def range_key_def c_int_small unsigned_of_int take_bit_int_eq_self signed_of_int
      signed_take_bit_int_eq_self)

lemma range_key_inj: "range_ok k \<Longrightarrow> range_ok k' \<Longrightarrow> range_key k = range_key k' \<longleftrightarrow> k = k'"
  using range_key_fields by (metis prod.expand)

text \<open>A valid identifier denotes a row below \<open>2 ^ 40\<close> of a segment file up to 127.\<close>

lemma valid_tid_row:
  assumes "ItemPointerIsValid t"
  shows "0 \<le> tid_row t" and "tid_row t < 2 ^ 40"
proof -
  have low: "take_bit 16 (ucast (bytes_4_5 t) - 1 :: uint64) = ucast (bytes_4_5 t) - 1"
  proof (rule take_bit_small)
    have "0 < unat (bytes_4_5 t)" using assms by (simp add: ItemPointerIsValid_def unat_gt_0)
    moreover have "unat (bytes_4_5 t) < 2 ^ 16" using unsigned_less [of "bytes_4_5 t", where 'a = nat] by simp
    moreover from this have "unat (ucast (bytes_4_5 t) :: uint64) = unat (bytes_4_5 t)"
      by (simp add: unsigned_ucast_eq take_bit_nat_eq_self)
    ultimately show "unat (ucast (bytes_4_5 t) - 1 :: uint64) < 2 ^ 16" by (subst unat_sub) (simp_all add: word_le_nat_alt)
  qed
  have "\<not> bit (ucast (bytes_4_5 t) - 1 :: uint64) n" if "40 \<le> n" for n
    using that by (subst low [symmetric]) (simp add: bit_take_bit_iff)
  then have bits: "\<not> bit (AOTupleIdGet_rowNum t) n" if "40 \<le> n" for n
    using that unfolding AOTupleIdGet_rowNum_def mask_consts by (auto simp: bit_parts dest: bit_word_length)
  then have "take_bit 40 (AOTupleIdGet_rowNum t) = AOTupleIdGet_rowNum t" by (intro bit_word_eqI) (auto simp: bit_take_bit_iff not_less [symmetric])
  then have "uint (AOTupleIdGet_rowNum t) < 2 ^ 40" by (metis take_bit_int_less_exp unsigned_take_bit_eq)
  moreover have "sint (AOTupleIdGet_rowNum t) = uint (AOTupleIdGet_rowNum t)"
  proof -
    have "- (2 ^ 63) \<le> uint (AOTupleIdGet_rowNum t)" by (rule order_trans [of _ 0]) simp_all
    with calculation show ?thesis by (simp add: sint_uint signed_take_bit_int_eq_self)
  qed
  ultimately show "0 \<le> tid_row t" "tid_row t < 2 ^ 40" by simp_all
qed

lemma segment_bound: "uint (AOTupleIdGet_segmentFileNum t) \<le> 127"
proof -
  have "take_bit 7 (AOTupleIdGet_segmentFileNum t) = AOTupleIdGet_segmentFileNum t"
    unfolding AOTupleIdGet_segmentFileNum_def mask_consts by (rule bit_word_eqI) (auto simp: bit_parts bit_take_bit_iff)
  then have "uint (AOTupleIdGet_segmentFileNum t) < 2 ^ 7" by (metis take_bit_int_less_exp unsigned_take_bit_eq)
  then show ?thesis by simp
qed

lemma tid_range_ok:
  assumes "ItemPointerIsValid t"
  shows "range_ok (tid_range t)" and "range_of (tid_place t) = tid_range t"
proof -
  note r = valid_tid_row [OF assms]
  have first: "snd (tid_range t) = tid_row t div 32768 * 32768"
    using r(1) by (simp add: tid_range_def AppendOnlyVisimapEntry_GetFirstRowNum_def c_div_def APPENDONLY_VISIMAP_MAX_RANGE_def)
  then show "range_of (tid_place t) = tid_range t" by (simp add: range_of_def tid_place_def tid_range_def)
  have "tid_row t div 32768 < 33554432" using r(2) by simp
  then show "range_ok (tid_range t)" using first r(1) segment_bound [of t]
    by (simp add: range_ok_def tid_range_def pos_imp_zdiv_nonneg_iff)
qed

text \<open>An entry covers a tuple if and only if it is the entry of its range.\<close>

lemma covers_range:
  assumes "ItemPointerIsValid t" and "AppendOnlyVisimapEntry_IsValid e \<Longrightarrow> firstRowNum e mod 32768 = 0"
  shows "AppendOnlyVisimapEntry_CoversTuple e t \<longleftrightarrow> AppendOnlyVisimapEntry_IsValid e \<and> entry_range e = tid_range t"
proof (cases "AppendOnlyVisimapEntry_IsValid e")
  case True
  with assms(2) obtain q where q: "firstRowNum e = 32768 * q" by (auto simp: mod_0_imp_dvd dvd_def)
  have first: "snd (tid_range t) = tid_row t div 32768 * 32768"
    using valid_tid_row [OF assms(1)] by (simp add: tid_range_def AppendOnlyVisimapEntry_GetFirstRowNum_def c_div_def APPENDONLY_VISIMAP_MAX_RANGE_def)
  have "firstRowNum e \<le> tid_row t \<and> firstRowNum e + 32768 > tid_row t \<longleftrightarrow> firstRowNum e = tid_row t div 32768 * 32768"
    unfolding q by auto
  then show ?thesis using True first
    by (auto simp: AppendOnlyVisimapEntry_CoversTuple_def APPENDONLY_VISIMAP_MAX_RANGE_def tid_range_def Let_def)
qed (simp add: AppendOnlyVisimapEntry_CoversTuple_def)
section \<open>The spill file\<close>

text \<open>The records of the file: for every stashed version of an entry its range, its bytes and its bitmap.\<close>

type_synonym spill_record = "range \<times> uint8 list \<times> bms"

definition record_bytes :: "spill_record \<Rightarrow> uint8 list" where
  "record_bytes r = key_bytes (range_key (fst r)) @ fst (snd r)"

definition record_ok :: "spill_record \<Rightarrow> bool" where
  "record_ok r \<longleftrightarrow> range_ok (fst r) \<and> spilled (fst (snd r)) (snd (snd r))"

definition file_bytes :: "spill_record list \<Rightarrow> uint8 list" where
  "file_bytes rs = concat (map record_bytes rs)"

text \<open>The records with their places, and the latest record of a range.\<close>

fun placed_records :: "nat \<Rightarrow> spill_record list \<Rightarrow> (range \<times> nat \<times> bms) list" where
  "placed_records p [] = []"
| "placed_records p (r # rs) = (fst r, p, snd (snd r)) # placed_records (p + length (record_bytes r)) rs"

definition latest :: "spill_record list \<Rightarrow> range \<Rightarrow> (nat \<times> bms) option" where
  "latest rs = map_of (rev (placed_records 0 rs))"

lemma placed_records_append:
  "placed_records p (rs @ [r]) = placed_records p rs @ [(fst r, p + length (file_bytes rs), snd (snd r))]"
  by (induction rs arbitrary: p) (simp_all add: file_bytes_def add.assoc)

lemma latest_append: "latest (rs @ [r]) = (latest rs)(fst r \<mapsto> (length (file_bytes rs), snd (snd r)))"
  by (simp add: latest_def placed_records_append)

lemma latest_Nil [simp]: "latest [] k = None"
  by (simp add: latest_def)

lemma placed_records_split:
  "(k, q, b) \<in> set (placed_records p rs) \<Longrightarrow> \<exists>us bs vs. rs = us @ (k, bs, b) # vs \<and> q = p + length (file_bytes us)"
proof (induction rs arbitrary: p)
  case (Cons r rs)
  show ?case
  proof (cases "(k, q, b) = (fst r, p, snd (snd r))")
    case True
    then show ?thesis by (intro exI [of _ "[]"] exI [of _ "fst (snd r)"] exI [of _ rs]) (simp add: file_bytes_def)
  next
    case False
    with Cons.prems have "(k, q, b) \<in> set (placed_records (p + length (record_bytes r)) rs)" by auto
    from Cons.IH [OF this] obtain us bs vs where "rs = us @ (k, bs, b) # vs" "q = p + length (record_bytes r) + length (file_bytes us)" by blast
    then show ?thesis by (intro exI [of _ "r # us"] exI [of _ bs] exI [of _ vs]) (simp add: file_bytes_def)
  qed
qed simp

lemma latest_split:
  assumes "latest rs k = Some (q, b)"
  obtains us bs vs where "rs = us @ (k, bs, b) # vs" and "q = length (file_bytes us)"
    and "file_bytes rs = file_bytes us @ (key_bytes (range_key k) @ bs) @ file_bytes vs"
proof -
  from assms have "(k, q, b) \<in> set (placed_records 0 rs)" unfolding latest_def by (auto dest: map_of_SomeD)
  from placed_records_split [OF this] obtain us bs vs where "rs = us @ (k, bs, b) # vs" "q = length (file_bytes us)" by auto
  moreover from this have "file_bytes rs = file_bytes us @ (key_bytes (range_key k) @ bs) @ file_bytes vs"
    by (simp add: file_bytes_def record_bytes_def)
  ultimately show ?thesis using that by blast
qed

lemma latest_in: "latest rs k = None \<longleftrightarrow> k \<notin> fst ` set rs"
proof -
  have "fst ` set (placed_records p rs) = fst ` set rs" for p by (induction rs arbitrary: p) auto
  then show ?thesis by (simp add: latest_def map_of_eq_None_iff)
qed

text \<open>The hash table has, for every range with records, the place of the latest one.\<close>

definition row_tid :: "visimap_row list \<Rightarrow> range \<Rightarrow> AOTupleId" where
  "row_tid rows k = (case find_row rows k of None \<Rightarrow> AOTupleIdSetInvalid | Some (tid, _) \<Rightarrow> tid)"

definition cache_ok :: "visimap_row list \<Rightarrow> (AppendOnlyVisiMapDeleteKey \<times> AppendOnlyVisiMapDeleteData) list \<Rightarrow> spill_record list \<Rightarrow> bool" where
  "cache_ok rows cache rs \<longleftrightarrow> (\<forall>k. range_ok k \<longrightarrow> map_of cache (range_key k) =
     map_option (\<lambda>(q, b). \<lparr>workFileno = fst (loc q), workFileOffset = snd (loc q), dd_tupleTid = row_tid rows k\<rparr>) (latest rs k))"

definition spill_ok :: "visimap_row list \<Rightarrow> AppendOnlyVisimapDelete \<Rightarrow> spill_record list \<Rightarrow> bool" where
  "spill_ok rows vd rs \<longleftrightarrow> list_all record_ok rs \<and> cache_ok rows (dirtyEntryCache vd) rs \<and>
     (\<exists>p. bf_stands (workfile vd) (file_bytes rs) p) \<and> (dirtyEntryCache vd = [] \<longleftrightarrow> rs = [])"

section \<open>Stashing and unstashing\<close>

lemma Stash_ok:
  assumes "io_ok io" and "spill_ok rows vd rs" and "buffer_ok (delete_entry vd)" and "visimap_ok (delete_entry vd)"
    and "hidden_rows (delete_entry vd) \<noteq> {}" and "range_ok (entry_range (delete_entry vd))"
    and "tupleTid (delete_entry vd) = row_tid rows (entry_range (delete_entry vd))"
  shows "\<exists>vd1 bs. AppendOnlyVisimapDelete_Stash io vd = Inr vd1 \<and>
    spill_ok rows vd1 (rs @ [(entry_range (delete_entry vd), bs, bitmap (delete_entry vd))]) \<and>
    buffer_ok (delete_entry vd1) \<and> \<not> dirty (delete_entry vd1) \<and> visimapStore (visiMap vd1) = visimapStore (visiMap vd)"
proof -
  let ?e = "delete_entry vd" and ?k = "entry_range (delete_entry vd)"
  have "\<not> bms_is_empty (bitmap ?e)" using assms(5) by (auto simp: bms_is_empty_iff hidden_rows_def)
  from WriteData_stored [OF assms(3,4) this] obtain d ws where
    d: "AppendOnlyVisimapEntry_WriteData ?e = Inr (?e\<lparr>visidata := Some d\<rparr>)" "length (vdata d) = visimap_buffer_bytes"
      "8 \<le> vl_len d" "vl_len d \<le> 8 + visimap_buffer_bytes" "bitmap ?e = mk_bms ws" "image_of ws (datum_of d)" by blast
  define bs where "bs = take (vl_len d) (data_image d)"
  have bs: "spilled bs (bitmap ?e)" "length bs = vl_len d" unfolding spilled_def bs_def using d by auto
  from assms(2) obtain p where p: "bf_stands (workfile vd) (file_bytes rs) p" by (auto simp: spill_ok_def)
  from spill.append_two [OF assms(1) p, of "key_bytes (range_key ?k)" bs] obtain g g1 g2 where
    g: "BufFileSeek io (workfile vd) 0 0 SEEK_END = Inr (0, g)" "BufFileTell g = loc (length (file_bytes rs))"
      "BufFileWrite io g (key_bytes (range_key ?k)) = Inr (16, g1)" "BufFileWrite io g1 bs = Inr (vl_len d, g2)"
      "bf_stands g2 (file_bytes rs @ key_bytes (range_key ?k) @ bs) (length (file_bytes rs @ key_bytes (range_key ?k) @ bs))"
    using bs(2) by auto
  define r where "r = (?k, bs, bitmap ?e)"
  define vd1 where "vd1 = (set_delete_entry (?e\<lparr>visidata := Some d, dirty := False\<rparr>) vd)\<lparr>workfile := g2,
    dirtyEntryCache := AList.update (range_key ?k) \<lparr>workFileno = fst (loc (length (file_bytes rs))),
      workFileOffset = snd (loc (length (file_bytes rs))), dd_tupleTid = tupleTid ?e\<rparr> (dirtyEntryCache vd)\<rparr>"
  have run: "AppendOnlyVisimapDelete_Stash io vd = Inr vd1"
    using d(1,2,4) g(1-4) by (simp add: AppendOnlyVisimapDelete_Stash_def entry_key_range bs_def [symmetric] vd1_def case_prod_beta)
  have "file_bytes (rs @ [r]) = file_bytes rs @ key_bytes (range_key ?k) @ bs" by (simp add: file_bytes_def record_bytes_def r_def)
  moreover have "cache_ok rows (dirtyEntryCache vd1) (rs @ [r])"
    using assms(2,6,7) by (auto simp: spill_ok_def cache_ok_def vd1_def update_conv' latest_append r_def range_key_inj)
  moreover have "record_ok r" using bs(1) assms(6) by (simp add: record_ok_def r_def)
  ultimately have "spill_ok rows vd1 (rs @ [r])"
    using assms(2) g(5) by (auto simp: spill_ok_def vd1_def update_nonempty)
  with run d(2) show ?thesis by (auto simp: vd1_def r_def set_delete_entry_def buffer_ok_def)
qed
lemma Unstash_ok:
  assumes "io_ok io" and "spill_ok rows vd rs" and "buffer_ok (delete_entry vd)" and "latest rs k = Some (q, b)"
  shows "\<exists>vd1 d f. AppendOnlyVisimapDelete_Unstash io garbage vd (fst k) (snd k)
      \<lparr>workFileno = fst (loc q), workFileOffset = snd (loc q), dd_tupleTid = tid\<rparr> = Inr vd1 \<and>
    vd1 = (set_delete_entry ((delete_entry vd)\<lparr>visidata := Some d, segmentFileNum := fst k, firstRowNum := snd k, bitmap := b,
      dirty := True, tupleTid := tid\<rparr>) vd)\<lparr>workfile := f\<rparr> \<and>
    length (vdata d) = visimap_buffer_bytes \<and> spill_ok rows vd1 rs"
proof -
  from latest_split [OF assms(4)] obtain us bs vs where
    s: "rs = us @ (k, bs, b) # vs" "q = length (file_bytes us)"
      "file_bytes rs = file_bytes us @ (key_bytes (range_key k) @ bs) @ file_bytes vs" by blast
  from assms(2) obtain p where p: "bf_stands (workfile vd) (file_bytes rs) p" and all: "list_all record_ok rs" by (auto simp: spill_ok_def)
  have sp: "spilled bs b" using all s(1) by (simp add: record_ok_def)
  from spill.seek_place [OF assms(1) p, of q] s(2,3) obtain f where
    f: "BufFileSeek io (workfile vd) (fst (loc q)) (snd (loc q)) SEEK_SET = Inr (0, f)" "bf_stands f (file_bytes rs) q" by auto
  from spill.read_part [OF assms(1) f(2), of "file_bytes us" "key_bytes (range_key k)" "bs @ file_bytes vs"] s(2,3) obtain f1 where
    f1: "BufFileRead io f 16 = Inr (key_bytes (range_key k), f1)" "bf_stands f1 (file_bytes rs) (q + 16)" by auto
  have split: "file_bytes rs = (file_bytes us @ key_bytes (range_key k)) @ bs @ file_bytes vs" "q + 16 = length (file_bytes us @ key_bytes (range_key k))"
    using s(2,3) by simp_all
  from read_datum_ok [OF assms(1) f1(2) split sp assms(3), of "''failed to read visimap delete buf file''"] obtain d g where
    g: "read_datum io ''failed to read visimap delete buf file'' f1 (delete_entry vd) = Inr ((delete_entry vd)\<lparr>visidata := Some d\<rparr>, g)"
      "bf_stands g (file_bytes rs) (q + 16 + length bs)" "length (vdata d) = visimap_buffer_bytes"
      "\<And>garbage seg first tid. AppendOnlyVisimapDelete_RebuildEntry garbage ((delete_entry vd)\<lparr>visidata := Some d\<rparr>) seg first tid =
         Inr ((delete_entry vd)\<lparr>visidata := Some d, segmentFileNum := seg, firstRowNum := first, bitmap := b, dirty := True, tupleTid := tid\<rparr>)"
    by blast
  define vd1 where "vd1 = (set_delete_entry ((delete_entry vd)\<lparr>visidata := Some d, segmentFileNum := fst k, firstRowNum := snd k, bitmap := b,
      dirty := True, tupleTid := tid\<rparr>) vd)\<lparr>workfile := g\<rparr>"
  have "AppendOnlyVisimapDelete_Unstash io garbage vd (fst k) (snd k)
      \<lparr>workFileno = fst (loc q), workFileOffset = snd (loc q), dd_tupleTid = tid\<rparr> = Inr vd1"
    using f(1) f1(1) g(1,4) by (simp add: AppendOnlyVisimapDelete_Unstash_def vd1_def)
  moreover have "spill_ok rows vd1 rs" using assms(2) g(2) by (auto simp: spill_ok_def vd1_def set_delete_entry_def)
  ultimately show ?thesis using g(3) vd1_def by blast
qed

section \<open>The session\<close>

declare split_paired_All [simp del] split_paired_Ex [simp del]

text \<open>
  The state of a delete command: \<open>rows\<close> is what the snapshot sees, \<open>H\<close> are the rows that are hidden so far, and \<open>T\<close> the
  ranges in which the command has hidden a row.
\<close>

definition part :: "(int \<times> int) set \<Rightarrow> range \<Rightarrow> (int \<times> int) set" where
  "part H k = {h \<in> H. range_of h = k}"

definition bms_rows :: "range \<Rightarrow> bms \<Rightarrow> (int \<times> int) set" where
  "bms_rows k b = (\<lambda>m. (fst k, snd k + int m)) ` bms_members b"

abbreviation hidden_before :: "visimap_row list \<Rightarrow> (int \<times> int) set" where
  "hidden_before rows \<equiv> table_hidden (map snd rows)"

definition entry_good :: "visimap_row list \<Rightarrow> (int \<times> int) set \<Rightarrow> range set \<Rightarrow> AppendOnlyVisimapEntry \<Rightarrow> bool" where
  "entry_good rows H T e \<longleftrightarrow> visimap_ok e \<and> range_ok (entry_range e) \<and> entry_hidden e = part H (entry_range e) \<and>
     tupleTid e = row_tid rows (entry_range e) \<and> (dirty e \<longleftrightarrow> entry_range e \<in> T)"

definition session :: "visimap_row list \<Rightarrow> (int \<times> int) set \<Rightarrow> range set \<Rightarrow> AppendOnlyVisimapDelete \<Rightarrow> spill_record list \<Rightarrow> bool" where
  "session rows H T vd rs \<longleftrightarrow> store_ready (visimapStore (visiMap vd)) \<and> visimap_rows (visimapStore (visiMap vd)) = rows \<and>
     catalog_ops (visimapStore (visiMap vd)) = [] \<and> spill_ok rows vd rs \<and> buffer_ok (delete_entry vd) \<and>
     (\<forall>k \<in> T. range_ok k \<and> part H k \<noteq> {}) \<and> (\<forall>k. k \<notin> T \<longrightarrow> part H k = part (hidden_before rows) k)"

text \<open>The range of the entry in memory.\<close>

definition in_memory :: "AppendOnlyVisimapDelete \<Rightarrow> range \<Rightarrow> bool" where
  "in_memory vd k \<longleftrightarrow> AppendOnlyVisimapEntry_IsValid (delete_entry vd) \<and> entry_range (delete_entry vd) = k"

text \<open>
  Between two operations the entry in memory is good, unless it is the invalid one of the start.  Every touched range is in
  memory, or its latest version is in the file.
\<close>

definition between :: "visimap_row list \<Rightarrow> (int \<times> int) set \<Rightarrow> range set \<Rightarrow> AppendOnlyVisimapDelete \<Rightarrow> spill_record list \<Rightarrow> bool" where
  "between rows H T vd rs \<longleftrightarrow> session rows H T vd rs \<and>
     (if AppendOnlyVisimapEntry_IsValid (delete_entry vd) then entry_good rows H T (delete_entry vd) else \<not> dirty (delete_entry vd)) \<and>
     (\<forall>k q b. latest rs k = Some (q, b) \<longrightarrow> k \<in> T \<and> (in_memory vd k \<or> bms_rows k b = part H k)) \<and>
     (\<forall>k \<in> T. latest rs k \<noteq> None \<or> in_memory vd k)"

text \<open>After a stash every touched range has its latest version in the file.\<close>

definition all_stashed :: "visimap_row list \<Rightarrow> (int \<times> int) set \<Rightarrow> range set \<Rightarrow> AppendOnlyVisimapDelete \<Rightarrow> spill_record list \<Rightarrow> bool" where
  "all_stashed rows H T vd rs \<longleftrightarrow> session rows H T vd rs \<and> \<not> dirty (delete_entry vd) \<and>
     (\<forall>k q b. latest rs k = Some (q, b) \<longrightarrow> k \<in> T \<and> bms_rows k b = part H k) \<and> (\<forall>k \<in> T. latest rs k \<noteq> None)"

lemma entry_hidden_bms: "entry_hidden e = bms_rows (entry_range e) (bitmap e)"
  by (auto simp: entry_hidden_def hidden_rows_def bms_rows_def)

lemma stash_step:
  assumes "io_ok io" and "between rows H T vd rs"
  shows "\<exists>vd1 rs1. (if AppendOnlyVisimapEntry_HasChanged (delete_entry vd) then AppendOnlyVisimapDelete_Stash io vd else Inr vd) = Inr vd1 \<and>
    all_stashed rows H T vd1 rs1"
proof (cases "dirty (delete_entry vd)")
  case False
  with assms(2) have "\<not> in_memory vd k" if "k \<in> T" for k
    using that by (auto simp: between_def in_memory_def entry_good_def split: if_splits)
  with assms(2) have "all_stashed rows H T vd rs" using False unfolding between_def all_stashed_def by blast
  with False show ?thesis by (auto simp: AppendOnlyVisimapEntry_HasChanged_def)
next
  case True
  let ?e = "delete_entry vd"
  have good: "AppendOnlyVisimapEntry_IsValid ?e" "entry_good rows H T ?e" "entry_range ?e \<in> T"
    using assms(2) True by (auto simp: between_def entry_good_def split: if_splits)
  have s: "session rows H T vd rs" "spill_ok rows vd rs" "buffer_ok ?e" using assms(2) by (auto simp: between_def session_def)
  have "hidden_rows ?e \<noteq> {}" using good(2,3) s(1) by (auto simp: entry_good_def session_def entry_hidden_def)
  with Stash_ok [OF assms(1) s(2,3)] good(2) obtain vd1 bs where
    vd1: "AppendOnlyVisimapDelete_Stash io vd = Inr vd1" "spill_ok rows vd1 (rs @ [(entry_range ?e, bs, bitmap ?e)])"
      "buffer_ok (delete_entry vd1)" "\<not> dirty (delete_entry vd1)" "visimapStore (visiMap vd1) = visimapStore (visiMap vd)"
    by (auto simp: entry_good_def)
  have "session rows H T vd1 (rs @ [(entry_range ?e, bs, bitmap ?e)])" using s(1) vd1 by (simp add: session_def)
  moreover have "k \<in> T \<and> bms_rows k b = part H k" if "latest (rs @ [(entry_range ?e, bs, bitmap ?e)]) k = Some (q, b)" for k q b
  proof (cases "k = entry_range ?e")
    case True
    with that good show ?thesis by (auto simp: latest_append entry_good_def entry_hidden_bms)
  next
    case False
    with that have "latest rs k = Some (q, b)" by (simp add: latest_append)
    with assms(2) False show ?thesis unfolding between_def in_memory_def by blast
  qed
  moreover have "latest (rs @ [(entry_range ?e, bs, bitmap ?e)]) k \<noteq> None" if "k \<in> T" for k
    using assms(2) that by (auto simp: latest_append between_def in_memory_def)
  ultimately have "all_stashed rows H T vd1 (rs @ [(entry_range ?e, bs, bitmap ?e)])"
    using vd1(4) unfolding all_stashed_def by blast
  with vd1(1) True show ?thesis by (auto simp: AppendOnlyVisimapEntry_HasChanged_def)
qed

lemma part_before:
  assumes "rows_ok rows"
  shows "part (hidden_before rows) k = (case find_row rows k of None \<Rightarrow> {} | Some (tid, t) \<Rightarrow> tuple_hidden t)"
proof -
  have range: "range_of h = tuple_range t" if "(tid, t) \<in> set rows" "h \<in> tuple_hidden t" for tid t h
    using rows_ok_row [OF assms that(1)] tuple_hidden_range [of t h] that(2) by simp
  have mem: "h \<in> hidden_before rows \<longleftrightarrow> (\<exists>tid t. (tid, t) \<in> set rows \<and> h \<in> tuple_hidden t)" for h
    by (force simp: table_hidden_def)
  have in_iff: "h \<in> part (hidden_before rows) k \<longleftrightarrow> (\<exists>tid t. (tid, t) \<in> set rows \<and> h \<in> tuple_hidden t \<and> tuple_range t = k)" for h
    unfolding part_def mem_Collect_eq mem using range by metis
  show ?thesis
  proof (cases "find_row rows k")
    case None
    then have "h \<notin> part (hidden_before rows) k" for h unfolding in_iff by (auto simp: find_row_None)
    with None show ?thesis by auto
  next
    case (Some r)
    obtain tid t where r: "r = (tid, t)" by (cases r)
    have t: "(tid, t) \<in> set rows" "tuple_range t = k" using find_row_Some [OF Some] r by auto
    have "u = t" if "(tid', u) \<in> set rows" "tuple_range u = k" for tid' u
      using that(2) find_row_in [OF assms that(1)] Some r by simp
    with t have "h \<in> part (hidden_before rows) k \<longleftrightarrow> h \<in> tuple_hidden t" for h unfolding in_iff by blast
    with Some r show ?thesis by auto
  qed
qed
lemma spilled_word_count: "spilled bs b \<Longrightarrow> word_count b \<le> 512"
  unfolding spilled_def image_of_def by (elim exE conjE) (simp add: word_count_def nwords_def)

lemma latest_word_count: "list_all record_ok rs \<Longrightarrow> latest rs k = Some (q, b) \<Longrightarrow> word_count b \<le> 512"
  by (elim latest_split) (auto simp: record_ok_def intro: spilled_word_count)

lemma find_key:
  "\<lparr>key_segno = ucast (AOTupleIdGet_segmentFileNum t), key_firstRowNum = word_of_int (AppendOnlyVisimapEntry_GetFirstRowNum t)\<rparr> =
   range_key (tid_range t)"
  by (simp add: range_key_def tid_range_def)

lemma New_entry:
  assumes "e1 = AppendOnlyVisimapEntry_New e t"
  shows "entry_range e1 = tid_range t" and "entry_hidden e1 = {}" and "visimap_ok e1" and "buffer_ok e1 = buffer_ok e"
    and "dirty e1 = dirty e" and "tupleTid e1 = AOTupleIdSetInvalid"
  by (simp_all add: assms AppendOnlyVisimapEntry_New_def tid_range_def entry_hidden_def hidden_rows_def visimap_ok_def word_count_def buffer_ok_def)

lemma valid_range: "range_ok (entry_range e) \<Longrightarrow> AppendOnlyVisimapEntry_IsValid e"
  by (simp add: range_ok_def AppendOnlyVisimapEntry_IsValid_def)

text \<open>Once the entry of a range is loaded, the command is between two operations again.\<close>

lemma loaded_between:
  assumes "all_stashed rows H T vd rs" and "session rows H T vd1 rs" and "entry_good rows H T (delete_entry vd1)"
  shows "between rows H T vd1 rs \<and> in_memory vd1 (entry_range (delete_entry vd1))"
  using assms valid_range [of "delete_entry vd1"] unfolding between_def all_stashed_def in_memory_def entry_good_def by auto

lemma Delete_Find_ok:
  assumes "io_ok io" and "all_stashed rows H T vd rs" and "ItemPointerIsValid t"
  shows "\<exists>vd1. AppendOnlyVisimapDelete_Find io garbage vd t = Inr vd1 \<and> between rows H T vd1 rs \<and> in_memory vd1 (tid_range t)"
proof -
  let ?k = "tid_range t"
  have k: "range_ok ?k" using tid_range_ok [OF assms(3)] by simp
  have s: "session rows H T vd rs" "spill_ok rows vd rs" "buffer_ok (delete_entry vd)" "store_ready (visimapStore (visiMap vd))"
    "visimap_rows (visimapStore (visiMap vd)) = rows" "\<not> dirty (delete_entry vd)" "rows_ok rows"
    using assms(2) by (auto simp: all_stashed_def session_def store_ready_def)
  have cache: "map_of (dirtyEntryCache vd) (range_key ?k) =
     map_option (\<lambda>(q, b). \<lparr>workFileno = fst (loc q), workFileOffset = snd (loc q), dd_tupleTid = row_tid rows ?k\<rparr>) (latest rs ?k)"
    using s(2) k by (simp add: spill_ok_def cache_ok_def)
  show ?thesis
  proof (cases "latest rs ?k")
    case (Some x)
    obtain q b where x: "x = (q, b)" by (cases x)
    from Unstash_ok [OF assms(1) s(2,3), of ?k q b] Some x obtain vd1 d f where
      u: "AppendOnlyVisimapDelete_Unstash io garbage vd (fst ?k) (snd ?k)
           \<lparr>workFileno = fst (loc q), workFileOffset = snd (loc q), dd_tupleTid = row_tid rows ?k\<rparr> = Inr vd1"
        "vd1 = (set_delete_entry ((delete_entry vd)\<lparr>visidata := Some d, segmentFileNum := fst ?k, firstRowNum := snd ?k, bitmap := b,
           dirty := True, tupleTid := row_tid rows ?k\<rparr>) vd)\<lparr>workfile := f\<rparr>"
        "length (vdata d) = visimap_buffer_bytes" "spill_ok rows vd1 rs" by blast
    have run: "AppendOnlyVisimapDelete_Find io garbage vd t = Inr vd1"
      using u(1) cache Some x range_key_fields [OF k] by (simp add: AppendOnlyVisimapDelete_Find_def find_key)
    have b: "?k \<in> T" "bms_rows ?k b = part H ?k" using assms(2) Some x by (auto simp: all_stashed_def)
    have "list_all record_ok rs" using s(2) by (simp add: spill_ok_def)
    with b k latest_word_count [OF _ Some [unfolded x]] have good: "entry_good rows H T (delete_entry vd1)"
      by (simp add: u(2) set_delete_entry_def entry_good_def visimap_ok_def entry_hidden_bms)
    have "session rows H T vd1 rs" using s(1) u(3,4) unfolding session_def by (simp add: u(2) set_delete_entry_def buffer_ok_def)
    from loaded_between [OF assms(2) this good] run show ?thesis by (simp add: u(2) set_delete_entry_def)
  next
    case None
    with assms(2) have T: "?k \<notin> T" "part H ?k = part (hidden_before rows) ?k" unfolding all_stashed_def session_def by blast+
    from Find_ok [OF s(4,3), of garbage "fst ?k" "snd ?k"] obtain s1 e1 where
      f: "AppendOnlyVisimapStore_Find garbage (visimapStore (visiMap vd)) (fst ?k) (snd ?k) (delete_entry vd) = Inr (find_row rows ?k \<noteq> None, s1, e1)"
        "store_ready s1" "visimap_rows s1 = rows" "catalog_ops s1 = catalog_ops (visimapStore (visiMap vd))"
        "case find_row rows ?k of None \<Rightarrow> e1 = delete_entry vd
         | Some (tid, u) \<Rightarrow> entry_range e1 = ?k \<and> buffer_ok e1 \<and> visimap_ok e1 \<and>
             entry_hidden e1 = tuple_hidden u \<and> dirty e1 = dirty (delete_entry vd) \<and> tupleTid e1 = tid"
      unfolding s(5) prod.collapse by blast
    define e2 where "e2 = (if find_row rows ?k = None then AppendOnlyVisimapEntry_New e1 t else e1)"
    define vd1 where "vd1 = vd\<lparr>visiMap := \<lparr>visimapEntry = e2, visimapStore = s1\<rparr>\<rparr>"
    have run: "AppendOnlyVisimapDelete_Find io garbage vd t = Inr vd1"
      using f(1) cache None by (simp add: AppendOnlyVisimapDelete_Find_def find_key vd1_def e2_def) (simp add: tid_range_def)
    have e2: "entry_range e2 = ?k" "visimap_ok e2" "buffer_ok e2" "\<not> dirty e2" "entry_hidden e2 = part H ?k" "tupleTid e2 = row_tid rows ?k"
      using f(5) New_entry [OF refl, of e1 t] s(3,6) part_before [OF s(7), of ?k] T(2)
      by (auto simp: e2_def row_tid_def split: option.splits)
    have good: "entry_good rows H T (delete_entry vd1)" using e2 k T(1) by (simp add: vd1_def entry_good_def)
    have "session rows H T vd1 rs" using s(1) f(2-4) e2(3) unfolding session_def by (simp add: vd1_def spill_ok_def)
    from loaded_between [OF assms(2) this good] run e2(1) show ?thesis by (simp add: vd1_def)
  qed
qed

lemma LoadTuple_ok:
  assumes "io_ok io" and "between rows H T vd rs" and "ItemPointerIsValid t"
  shows "\<exists>vd1 rs1. AppendOnlyVisimapDelete_LoadTuple io garbage vd t = Inr vd1 \<and> between rows H T vd1 rs1 \<and> in_memory vd1 (tid_range t)"
proof (cases "AppendOnlyVisimapEntry_CoversTuple (delete_entry vd) t")
  case True
  have "firstRowNum (delete_entry vd) mod 32768 = 0" if "AppendOnlyVisimapEntry_IsValid (delete_entry vd)"
    using that assms(2) by (simp add: between_def entry_good_def range_ok_def)
  with covers_range [OF assms(3)] True have "in_memory vd (tid_range t)" by (simp add: in_memory_def)
  with True assms(2) show ?thesis by (auto simp: AppendOnlyVisimapDelete_LoadTuple_def)
next
  case False
  from stash_step [OF assms(1,2)] obtain vd1 rs1 where
    s: "(if AppendOnlyVisimapEntry_HasChanged (delete_entry vd) then AppendOnlyVisimapDelete_Stash io vd else Inr vd) = Inr vd1"
      "all_stashed rows H T vd1 rs1" by blast
  from Delete_Find_ok [OF assms(1) s(2) assms(3), of garbage] obtain vd2 where
    "AppendOnlyVisimapDelete_Find io garbage vd1 t = Inr vd2" "between rows H T vd2 rs1" "in_memory vd2 (tid_range t)" by blast
  with False s(1) show ?thesis unfolding AppendOnlyVisimapDelete_LoadTuple_def by auto
qed

lemma loaded_covers:
  assumes "between rows H T vd rs" and "in_memory vd (tid_range t)" and "ItemPointerIsValid t"
  shows "AppendOnlyVisimapEntry_CoversTuple (delete_entry vd) t" and "entry_good rows H T (delete_entry vd)"
    and "tid_row t \<in> hidden_rows (delete_entry vd) \<longleftrightarrow> tid_place t \<in> H"
proof -
  show good: "entry_good rows H T (delete_entry vd)" using assms(1,2) by (simp add: between_def in_memory_def)
  then have "firstRowNum (delete_entry vd) mod 32768 = 0" by (simp add: entry_good_def range_ok_def)
  with covers_range [OF assms(3)] assms(2) show "AppendOnlyVisimapEntry_CoversTuple (delete_entry vd) t" by (simp add: in_memory_def)
  have r: "entry_range (delete_entry vd) = tid_range t" using assms(2) by (simp add: in_memory_def)
  have "tid_place t \<in> entry_hidden (delete_entry vd) \<longleftrightarrow> tid_row t \<in> hidden_rows (delete_entry vd)"
    using r by (auto simp: entry_hidden_def tid_place_def tid_range_def)
  moreover have "tid_place t \<in> entry_hidden (delete_entry vd) \<longleftrightarrow> tid_place t \<in> H"
    using good r tid_range_ok(2) [OF assms(3)] by (simp add: entry_good_def part_def)
  ultimately show "tid_row t \<in> hidden_rows (delete_entry vd) \<longleftrightarrow> tid_place t \<in> H" by blast
qed

lemma part_insert: "part (insert h H) k = (if k = range_of h then insert h (part H k) else part H k)"
  by (auto simp: part_def)

text \<open>The result of a hide, and the state after it.\<close>

definition hide_result :: "(int \<times> int) set \<Rightarrow> range set \<Rightarrow> AOTupleId \<Rightarrow> TM_Result" where
  "hide_result H T t = (if tid_place t \<notin> H then TM_Ok else if tid_range t \<in> T then TM_SelfModified else TM_Updated)"

lemma Hide_ok:
  assumes "io_ok io" and "between rows H T vd rs" and "ItemPointerIsValid t"
  shows "\<exists>vd1 rs1. AppendOnlyVisimapDelete_Hide io garbage vd t = Inr (hide_result H T t, vd1) \<and>
    between rows (insert (tid_place t) H) (insert (tid_range t) T) vd1 rs1"
proof -
  from LoadTuple_ok [OF assms] obtain vd1 rs1 where
    l: "AppendOnlyVisimapDelete_LoadTuple io garbage vd t = Inr vd1" "between rows H T vd1 rs1" "in_memory vd1 (tid_range t)" by blast
  note c = loaded_covers [OF l(2,3) assms(3)]
  let ?e = "delete_entry vd1" and ?k = "tid_range t"
  have k: "entry_range ?e = ?k" "range_of (tid_place t) = ?k" "range_ok ?k" using l(3) tid_range_ok [OF assms(3)] by (simp_all add: in_memory_def)
  have good: "visimap_ok ?e" "dirty ?e \<longleftrightarrow> ?k \<in> T" "tupleTid ?e = row_tid rows ?k" "entry_hidden ?e = part H ?k"
    using c(2) k(1) by (simp_all add: entry_good_def)
  from HideTuple_covered [OF c(1) good(1)] obtain e' where
    e': "AppendOnlyVisimapEntry_HideTuple ?e t = Inr (hide_result H T t, e')" "hidden_rows e' = insert (tid_row t) (hidden_rows ?e)"
      "dirty e'" "visimap_ok e'" "e' = ?e\<lparr>bitmap := bitmap e', dirty := True\<rparr>"
    using c(3) good(2) by (auto simp: hide_result_def)
  have same: "entry_range e' = ?k" "tupleTid e' = tupleTid ?e" "visidata e' = visidata ?e" using k(1) by (subst e'(5), simp)+
  let ?H = "insert (tid_place t) H" and ?T = "insert ?k T"
  define vd2 where "vd2 = set_delete_entry e' vd1"
  have vd2: "delete_entry vd2 = e'" "visimapStore (visiMap vd2) = visimapStore (visiMap vd1)" "in_memory vd2 = in_memory vd1"
    using same(1) k(1) by (auto simp: vd2_def set_delete_entry_def in_memory_def AppendOnlyVisimapEntry_IsValid_def)
  have "entry_hidden e' = insert (tid_place t) (entry_hidden ?e)"
    using same(1) k(1) e'(2) by (auto simp: entry_hidden_def tid_place_def tid_range_def)
  then have "entry_good rows ?H ?T e'"
    using e'(3,4) same k good(3,4) by (simp add: entry_good_def part_insert)
  moreover have "session rows ?H ?T vd2 rs1"
  proof -
    have "buffer_ok e'" "spill_ok rows vd2 rs1" using l(2) same(3) by (auto simp: between_def session_def buffer_ok_def vd2_def set_delete_entry_def spill_ok_def)
    then show ?thesis using l(2) k(2,3) vd2 unfolding session_def between_def by (auto simp: part_insert)
  qed
  ultimately have "between rows ?H ?T vd2 rs1"
    using l(2,3) vd2 k(2) valid_range [of e'] same(1) k(3) unfolding between_def by (auto simp: part_insert)
  with l(1) e'(1) show ?thesis by (auto simp: AppendOnlyVisimapDelete_Hide_def vd2_def)
qed

lemma Delete_IsVisible_ok:
  assumes "io_ok io" and "between rows H T vd rs" and "ItemPointerIsValid t"
  shows "\<exists>vd1 rs1. AppendOnlyVisimapDelete_IsVisible io garbage vd t = Inr (tid_place t \<notin> H, vd1) \<and> between rows H T vd1 rs1"
proof -
  from LoadTuple_ok [OF assms] obtain vd1 rs1 where
    l: "AppendOnlyVisimapDelete_LoadTuple io garbage vd t = Inr vd1" "between rows H T vd1 rs1" "in_memory vd1 (tid_range t)" by blast
  note c = loaded_covers [OF l(2,3) assms(3)]
  show ?thesis using l(1,2) c(3) IsVisible_covered [OF c(1)] by (auto simp: AppendOnlyVisimapDelete_IsVisible_def)
qed

end
