(* ===== verification/VisimapFinish.thy ===== *)
theory VisimapFinish
  imports VisimapSession
begin

text \<open>
  The end of a delete command: the entry in memory is stored, the spill file is read from its start, and the latest record of
  every other touched range is written to the relation.  The catalog operations replace or insert one row per touched range,
  and the relation hides exactly the rows of the session afterwards.
\<close>

section \<open>Writing back\<close>

text \<open>The catalog operation for a touched range: its row is replaced if it has one, else inserted.\<close>

definition op_for :: "visimap_row list \<Rightarrow> (int \<times> int) set \<Rightarrow> range \<Rightarrow> catalog_op \<Rightarrow> bool" where
  "op_for rows H k change \<longleftrightarrow> (\<exists>t. row_ok t \<and> tuple_range t = k \<and> tuple_hidden t = part H k \<and>
     change = (if ItemPointerIsValid (row_tid rows k) then CatalogTupleUpdate (row_tid rows k) t else CatalogTupleInsert t))"

text \<open>A record is up to date when the hash table names its place.\<close>

definition live :: "(AppendOnlyVisiMapDeleteKey \<times> AppendOnlyVisiMapDeleteData) list \<Rightarrow> range \<times> nat \<times> bms \<Rightarrow> bool" where
  "live cache r = (case map_of cache (range_key (fst r)) of
     None \<Rightarrow> False | Some dd \<Rightarrow> loc (fst (snd r)) = (workFileno dd, workFileOffset dd))"

definition known :: "visimap_row list \<Rightarrow> (int \<times> int) set \<Rightarrow> (AppendOnlyVisiMapDeleteKey \<times> AppendOnlyVisiMapDeleteData) list \<Rightarrow>
    range \<times> nat \<times> bms \<Rightarrow> bool" where
  "known rows H cache r \<longleftrightarrow> (\<exists>dd. map_of cache (range_key (fst r)) = Some dd \<and>
     (live cache r \<longrightarrow> dd_tupleTid dd = row_tid rows (fst r) \<and> bms_rows (fst r) (snd (snd r)) = part H (fst r)))"

definition set_ops :: "catalog_op list \<Rightarrow> AppendOnlyVisimapStore \<Rightarrow> AppendOnlyVisimapStore" where
  "set_ops ops s = s\<lparr>catalog_ops := catalog_ops s @ ops\<rparr>"

lemma set_ops_simps [simp]: "set_ops [] s = s" "set_ops ys (set_ops xs s) = set_ops (xs @ ys) s"
  by (simp_all add: set_ops_def)

lemma Store_op:
  assumes "buffer_ok e" and "visimap_ok e" and "range_ok k" and "entry_range e = k" and "bms_rows k (bitmap e) = part H k"
    and "tupleTid e = row_tid rows k" and "visimapEntry vm = e"
  shows "\<exists>change e1. AppendOnlyVisimap_Store vm = Inr (vm\<lparr>visimapStore := set_ops [change] (visimapStore vm), visimapEntry := e1\<rparr>) \<and>
    op_for rows H k change \<and> buffer_ok e1 \<and> \<not> dirty e1 \<and> entry_range e1 = k"
proof -
  from Store_ok [OF assms(1,2), of "visimapStore vm"] assms(3,4) obtain t e1 where
    t: "AppendOnlyVisimapStore_Store (visimapStore vm) e = Inr ((visimapStore vm)\<lparr>catalog_ops := catalog_ops (visimapStore vm) @
         [if ItemPointerIsValid (tupleTid e) then CatalogTupleUpdate (tupleTid e) t else CatalogTupleInsert t]\<rparr>, e1)"
      "row_ok t" "tuple_range t = k" "tuple_hidden t = entry_hidden e" "buffer_ok e1" "\<not> dirty e1" "entry_range e1 = k" by auto
  define change where "change = (if ItemPointerIsValid (tupleTid e) then CatalogTupleUpdate (tupleTid e) t else CatalogTupleInsert t)"
  have "op_for rows H k change" unfolding op_for_def
    using t(2-4) assms(4-6) by (intro exI [of _ t]) (simp add: change_def entry_hidden_bms)
  moreover have "AppendOnlyVisimap_Store vm = Inr (vm\<lparr>visimapStore := set_ops [change] (visimapStore vm), visimapEntry := e1\<rparr>)"
    using t(1) assms(7) by (simp add: AppendOnlyVisimap_Store_def set_ops_def change_def)
  ultimately show ?thesis using t(5-7) by blast
qed

lemma writeback_entry_ok:
  assumes "io_ok io" and "bf_stands (workfile vd) c p" and "c = xs @ bs @ ys" and "p = length xs" and "record_ok (k, bs, b)"
    and "buffer_ok (delete_entry vd)" and "known rows H (dirtyEntryCache vd) (k, q, b)" and "\<not> dirty (delete_entry vd)"
  shows "\<exists>vd1 ops. writeback_entry io garbage (loc q) (range_key k) vd = Inr vd1 \<and>
    list_all2 (op_for rows H) (if live (dirtyEntryCache vd) (k, q, b) then [k] else []) ops \<and>
    visimapStore (visiMap vd1) = set_ops ops (visimapStore (visiMap vd)) \<and> dirtyEntryCache vd1 = dirtyEntryCache vd \<and>
    buffer_ok (delete_entry vd1) \<and> \<not> dirty (delete_entry vd1) \<and>
    bf_stands (workfile vd1) c (p + length bs) \<and> BufFileTell (workfile vd1) = loc (p + length bs)"
proof -
  have k: "range_ok k" "spilled bs b" using assms(5) by (simp_all add: record_ok_def)
  from read_datum_ok [OF assms(1-4) k(2) assms(6), of "''Failed to read visimap delete spill data''"] obtain d g where
    g: "read_datum io ''Failed to read visimap delete spill data'' (workfile vd) (delete_entry vd) = Inr ((delete_entry vd)\<lparr>visidata := Some d\<rparr>, g)"
      "bf_stands g c (p + length bs)" "BufFileTell g = loc (p + length bs)" "length (vdata d) = visimap_buffer_bytes"
      "\<And>garbage seg first tid. AppendOnlyVisimapDelete_RebuildEntry garbage ((delete_entry vd)\<lparr>visidata := Some d\<rparr>) seg first tid =
         Inr ((delete_entry vd)\<lparr>visidata := Some d, segmentFileNum := seg, firstRowNum := first, bitmap := b, dirty := True, tupleTid := tid\<rparr>)"
    by blast
  from assms(7) obtain dd where
    dd: "map_of (dirtyEntryCache vd) (range_key k) = Some dd"
      "live (dirtyEntryCache vd) (k, q, b) \<longrightarrow> dd_tupleTid dd = row_tid rows k \<and> bms_rows k b = part H k" by (auto simp: known_def)
  have live: "live (dirtyEntryCache vd) (k, q, b) \<longleftrightarrow> loc q = (workFileno dd, workFileOffset dd)" using dd(1) by (simp add: live_def)
  define vd0 where "vd0 = (set_delete_entry ((delete_entry vd)\<lparr>visidata := Some d\<rparr>) vd)\<lparr>workfile := g\<rparr>"
  show ?thesis
  proof (cases "live (dirtyEntryCache vd) (k, q, b)")
    case False
    then have "writeback_entry io garbage (loc q) (range_key k) vd = Inr vd0"
      using g(1) dd(1) live by (simp add: writeback_entry_def vd0_def)
    with False g assms(8) show ?thesis by (auto simp: vd0_def set_delete_entry_def buffer_ok_def)
  next
    case True
    define e1 where "e1 = (delete_entry vd)\<lparr>visidata := Some d, segmentFileNum := fst k, firstRowNum := snd k, bitmap := b,
      dirty := True, tupleTid := dd_tupleTid dd\<rparr>"
    have e1: "buffer_ok e1" "visimap_ok e1" "entry_range e1 = k" "bms_rows k (bitmap e1) = part H k" "tupleTid e1 = row_tid rows k"
      using g(4) spilled_word_count [OF k(2)] dd(2) True by (simp_all add: e1_def buffer_ok_def visimap_ok_def)
    from Store_op [OF e1(1,2) k(1) e1(3-5), of "visiMap (set_delete_entry e1 vd0)"] obtain change e2 where
      c: "AppendOnlyVisimap_Store (visiMap (set_delete_entry e1 vd0)) =
          Inr ((visiMap (set_delete_entry e1 vd0))\<lparr>visimapStore := set_ops [change] (visimapStore (visiMap (set_delete_entry e1 vd0))), visimapEntry := e2\<rparr>)"
        "op_for rows H k change" "buffer_ok e2" "\<not> dirty e2" by (auto simp: set_delete_entry_def)
    have "writeback_entry io garbage (loc q) (range_key k) vd =
        Inr (vd0\<lparr>visiMap := (visiMap (set_delete_entry e1 vd0))\<lparr>visimapStore := set_ops [change] (visimapStore (visiMap (set_delete_entry e1 vd0))), visimapEntry := e2\<rparr>\<rparr>)"
      using g(1,5) dd(1) live True c(1) range_key_fields [OF k(1)]
      by (simp add: writeback_entry_def vd0_def [symmetric] e1_def [symmetric])
    with True c(2-4) g(2,3) show ?thesis by (auto simp: vd0_def set_delete_entry_def)
  qed
qed

lemma file_bytes_Nil [simp]: "file_bytes [] = []"
  by (simp add: file_bytes_def)

lemma file_bytes_split:
  "file_bytes (us @ r # vs) = file_bytes us @ key_bytes (range_key (fst r)) @ fst (snd r) @ file_bytes vs"
  "length (file_bytes (us @ [r])) = length (file_bytes us) + 16 + length (fst (snd r))"
  "length (record_bytes r) = 16 + length (fst (snd r))"
  by (simp_all add: file_bytes_def record_bytes_def)

lemma writeback_loop_ok:
  "io_ok io \<Longrightarrow> list_all record_ok vs \<Longrightarrow> bf_stands (workfile vd) (file_bytes (us @ vs)) (length (file_bytes us)) \<Longrightarrow>
   BufFileTell (workfile vd) = loc (length (file_bytes us)) \<Longrightarrow> buffer_ok (delete_entry vd) \<Longrightarrow> \<not> dirty (delete_entry vd) \<Longrightarrow>
   list_all (known rows H (dirtyEntryCache vd)) (placed_records (length (file_bytes us)) vs) \<Longrightarrow>
   \<exists>vd1 ops. writeback_loop io garbage vd = Some (Inr vd1) \<and>
     list_all2 (op_for rows H) (map fst (filter (live (dirtyEntryCache vd)) (placed_records (length (file_bytes us)) vs))) ops \<and>
     visimapStore (visiMap vd1) = set_ops ops (visimapStore (visiMap vd)) \<and> \<not> dirty (delete_entry vd1) \<and> bf_ok (workfile vd1)"
proof (induction vs arbitrary: us vd)
  case Nil
  from spill.read_at_end [OF Nil(1), of "workfile vd" "file_bytes us" 16] Nil(3) obtain g where
    "BufFileRead io (workfile vd) 16 = Inr ([], g)" "bf_stands g (file_bytes us) (length (file_bytes us))" by auto
  with Nil(6) show ?case by (subst writeback_loop.simps) (auto simp: bf_stands_def)
next
  case (Cons r vs)
  obtain k bs b where r: "r = (k, bs, b)" by (cases r)
  let ?p = "length (file_bytes us)" and ?kb = "key_bytes (range_key k)"
  have bytes: "file_bytes (us @ r # vs) = file_bytes us @ ?kb @ bs @ file_bytes vs" by (simp add: file_bytes_split r)
  from spill.read_part [OF Cons.prems(1,3) bytes refl] obtain f where
    f: "BufFileRead io (workfile vd) 16 = Inr (?kb, f)" "bf_stands f (file_bytes (us @ r # vs)) (?p + 16)" by auto
  have split: "file_bytes (us @ r # vs) = (file_bytes us @ ?kb) @ bs @ file_bytes vs" "?p + 16 = length (file_bytes us @ ?kb)"
    by (simp_all add: bytes)
  have rec: "record_ok (k, bs, b)" and rest: "list_all record_ok vs" using Cons.prems(2) by (simp_all add: r)
  have kn: "known rows H (dirtyEntryCache vd) (k, ?p, b)" using Cons.prems(7) by (simp add: r)
  let ?vd = "vd\<lparr>workfile := f\<rparr>"
  from writeback_entry_ok [OF Cons.prems(1), of ?vd, simplified, OF f(2) split rec Cons.prems(5) kn Cons.prems(6), of garbage] obtain vd1 ops1 where
    w: "writeback_entry io garbage (loc ?p) (range_key k) ?vd = Inr vd1"
      "list_all2 (op_for rows H) (if live (dirtyEntryCache vd) (k, ?p, b) then [k] else []) ops1"
      "visimapStore (visiMap vd1) = set_ops ops1 (visimapStore (visiMap vd))" "dirtyEntryCache vd1 = dirtyEntryCache vd"
      "buffer_ok (delete_entry vd1)" "\<not> dirty (delete_entry vd1)"
      "bf_stands (workfile vd1) (file_bytes (us @ r # vs)) (?p + 16 + length bs)" "BufFileTell (workfile vd1) = loc (?p + 16 + length bs)" by auto
  have next_p: "length (file_bytes (us @ [r])) = ?p + 16 + length bs" by (simp add: file_bytes_split r)
  have places: "placed_records ?p (r # vs) = (k, ?p, b) # placed_records (length (file_bytes (us @ [r]))) vs"
    unfolding next_p by (simp add: file_bytes_split(3) r add.assoc)
  have step: "writeback_loop io garbage vd = writeback_loop io garbage vd1"
    using f(1) w(1) Cons.prems(4) by (subst writeback_loop.simps) simp
  have "bf_stands (workfile vd1) (file_bytes ((us @ [r]) @ vs)) (length (file_bytes (us @ [r])))"
    "BufFileTell (workfile vd1) = loc (length (file_bytes (us @ [r])))"
    "list_all (known rows H (dirtyEntryCache vd1)) (placed_records (length (file_bytes (us @ [r]))) vs)"
    using w(4,7,8) next_p Cons.prems(7) unfolding places by simp_all
  from Cons.IH [OF Cons.prems(1) rest this(1,2) w(5,6) this(3)] obtain vd2 ops2 where
    v: "writeback_loop io garbage vd1 = Some (Inr vd2)"
      "list_all2 (op_for rows H) (map fst (filter (live (dirtyEntryCache vd1)) (placed_records (length (file_bytes (us @ [r]))) vs))) ops2"
      "visimapStore (visiMap vd2) = set_ops ops2 (visimapStore (visiMap vd1))" "\<not> dirty (delete_entry vd2)" "bf_ok (workfile vd2)" by blast
  have "list_all2 (op_for rows H) (map fst (filter (live (dirtyEntryCache vd)) (placed_records ?p (r # vs)))) (ops1 @ ops2)"
    using list_all2_appendI [OF w(2) v(2)] w(4) unfolding places by (simp split: if_splits)
  with step v w(3) show ?case by auto
qed

text \<open>The catalog operations for a set of touched ranges make the relation hide exactly the given rows.\<close>

lemma row_tid_valid:
  assumes "rows_ok rows"
  shows "ItemPointerIsValid (row_tid rows k) \<longleftrightarrow> find_row rows k \<noteq> None"
    and "find_row rows k = Some r \<Longrightarrow> row_tid rows k = fst r"
proof -
  show *: "find_row rows k = Some r \<Longrightarrow> row_tid rows k = fst r" for r by (cases r) (simp add: row_tid_def)
  show "ItemPointerIsValid (row_tid rows k) \<longleftrightarrow> find_row rows k \<noteq> None"
  proof (cases "find_row rows k")
    case None
    then show ?thesis by (simp add: row_tid_def ItemPointerIsValid_def AOTupleIdSetInvalid_def)
  next
    case (Some r)
    with rows_ok_row [OF assms find_row_Some(1) [OF Some]] * [OF Some] show ?thesis by simp
  qed
qed

lemma op_for_effect:
  assumes "rows_ok rows" and "op_for rows H k change"
  shows "\<exists>t. op_writes change = [t] \<and> row_ok t \<and> tuple_range t = k \<and> tuple_hidden t = part H k"
    and "set (op_kills change) = fst ` {r \<in> set rows. tuple_range (snd r) = k}" and "length (op_kills change) \<le> 1"
proof -
  from assms(2) obtain t where t: "row_ok t" "tuple_range t = k" "tuple_hidden t = part H k"
    "change = (if ItemPointerIsValid (row_tid rows k) then CatalogTupleUpdate (row_tid rows k) t else CatalogTupleInsert t)"
    by (auto simp: op_for_def)
  then show "\<exists>t. op_writes change = [t] \<and> row_ok t \<and> tuple_range t = k \<and> tuple_hidden t = part H k" by auto
  show "length (op_kills change) \<le> 1" by (simp add: t(4))
  show "set (op_kills change) = fst ` {r \<in> set rows. tuple_range (snd r) = k}"
  proof (cases "find_row rows k")
    case None
    then have none: "{r \<in> set rows. tuple_range (snd r) = k} = {}" by (auto simp: find_row_None)
    show ?thesis unfolding none using None row_tid_valid(1) [OF assms(1), of k] by (simp add: t(4))
  next
    case (Some r)
    have "r' = r" if "r' \<in> set rows" "tuple_range (snd r') = k" for r'
      using find_row_in [OF assms(1) that(1)] that(2) Some by simp
    with find_row_Some [OF Some] have "{r \<in> set rows. tuple_range (snd r) = k} = {r}" by blast
    with Some row_tid_valid [OF assms(1), of k] show ?thesis by (simp add: t(4))
  qed
qed

lemma table_hidden_append: "table_hidden (ts @ us) = table_hidden ts \<union> table_hidden us"
  by (auto simp: table_hidden_def)

lemma written_tuples:
  "rows_ok rows \<Longrightarrow> list_all2 (op_for rows H) ks ops \<Longrightarrow>
   map tuple_range (concat (map op_writes ops)) = ks \<and> list_all row_ok (concat (map op_writes ops)) \<and>
   table_hidden (concat (map op_writes ops)) = (\<Union>k \<in> set ks. part H k)"
proof (induction ops arbitrary: ks)
  case Nil
  then show ?case by (simp add: table_hidden_def)
next
  case (Cons change ops)
  then obtain k ks' where ks: "ks = k # ks'" "op_for rows H k change" "list_all2 (op_for rows H) ks' ops" by (auto simp: list_all2_Cons2)
  from op_for_effect(1) [OF Cons.prems(1) ks(2)] obtain t where "op_writes change = [t]" "row_ok t" "tuple_range t = k" "tuple_hidden t = part H k" by blast
  with Cons.IH [OF Cons.prems(1) ks(3)] ks(1) show ?case by (simp add: table_hidden_def)
qed

lemma killed_rows:
  "rows_ok rows \<Longrightarrow> list_all2 (op_for rows H) ks ops \<Longrightarrow> distinct ks \<Longrightarrow>
   set (concat (map op_kills ops)) = fst ` {r \<in> set rows. tuple_range (snd r) \<in> set ks} \<and> distinct (concat (map op_kills ops))"
proof (induction ops arbitrary: ks)
  case (Cons change ops)
  then obtain k ks' where ks: "ks = k # ks'" "op_for rows H k change" "list_all2 (op_for rows H) ks' ops" by (auto simp: list_all2_Cons2)
  note c = op_for_effect(2,3) [OF Cons.prems(1) ks(2)]
  have ih: "set (concat (map op_kills ops)) = fst ` {r \<in> set rows. tuple_range (snd r) \<in> set ks'}" "distinct (concat (map op_kills ops))"
    using Cons.IH [OF Cons.prems(1) ks(3)] Cons.prems(3) ks(1) by auto
  have inj: "inj_on fst (set rows)" using Cons.prems(1) by (simp add: rows_ok_def distinct_map)
  have "set (op_kills change) \<inter> set (concat (map op_kills ops)) = {}"
    unfolding c(1) ih(1) using inj Cons.prems(3) ks(1) by (auto dest: inj_onD)
  moreover have "distinct (op_kills change)" using c(2) by (cases "op_kills change") auto
  moreover have "set (concat (map op_kills (change # ops))) = fst ` {r \<in> set rows. tuple_range (snd r) \<in> set ks}"
    using c(1) ih(1) ks(1) by auto
  ultimately show ?case using ih(2) by simp
qed simp

lemma ops_effect:
  assumes "rows_ok rows" and "list_all2 (op_for rows H) ks ops" and "distinct ks"
    and "\<forall>k. k \<notin> set ks \<longrightarrow> part H k = part (hidden_before rows) k"
  shows "ops_ok rows ops \<and> table_ok (table_after rows ops) \<and> table_hidden (table_after rows ops) = H"
proof -
  note w = written_tuples [OF assms(1,2)] and kl = killed_rows [OF assms(1-3)]
  have inj: "inj_on fst (set rows)" and tbl: "table_ok (map snd rows)" using assms(1) by (simp_all add: rows_ok_def distinct_map)
  have "fst r \<in> set (concat (map op_kills ops)) \<longleftrightarrow> tuple_range (snd r) \<in> set ks" if "r \<in> set rows" for r
    using conjunct1 [OF kl] inj that by (auto dest: inj_onD)
  then have "filter (\<lambda>r. fst r \<notin> set (concat (map op_kills ops))) rows = filter (\<lambda>r. tuple_range (snd r) \<notin> set ks) rows"
    by (intro filter_cong) auto
  then have after: "table_after rows ops = map snd (filter (\<lambda>r. tuple_range (snd r) \<notin> set ks) rows) @ concat (map op_writes ops)"
    by (simp add: table_after_def)
  have "ops_ok rows ops" using kl by (auto simp: ops_ok_def)
  moreover have "table_ok (table_after rows ops)"
    using w assms(3) table_ok_filter [OF tbl, of "\<lambda>r. tuple_range (snd r) \<notin> set ks"]
    unfolding after table_ok_def map_append distinct_append by auto
  moreover have "table_hidden (table_after rows ops) = H"
  proof -
    have range: "range_of h = tuple_range (snd r)" if "r \<in> set rows" "h \<in> tuple_hidden (snd r)" for r h
      using tuple_hidden_range that rows_ok_row [OF assms(1)] by blast
    have a: "table_hidden (map snd (filter (\<lambda>r. tuple_range (snd r) \<notin> set ks) rows)) = {h \<in> hidden_before rows. range_of h \<notin> set ks}"
      using range by (auto simp: table_hidden_def)
    have b: "{h \<in> hidden_before rows. range_of h \<notin> set ks} = {h \<in> H. range_of h \<notin> set ks}"
      using assms(4) unfolding part_def by blast
    have c: "(\<Union>k \<in> set ks. part H k) = {h \<in> H. range_of h \<in> set ks}" by (auto simp: part_def)
    have "table_hidden (concat (map op_writes ops)) = {h \<in> H. range_of h \<in> set ks}" using w c by simp
    then show ?thesis unfolding after table_hidden_append a b by auto
  qed
  ultimately show ?thesis by blast
qed

lemma placed_records_positions:
  "distinct (map (\<lambda>r. fst (snd r)) (placed_records p rs)) \<and> (\<forall>r \<in> set (placed_records p rs). p \<le> fst (snd r))"
proof (induction rs arbitrary: p)
  case (Cons r rs)
  have "0 < length (record_bytes r)" by (simp add: file_bytes_split(3))
  with Cons [of "p + length (record_bytes r)"] show ?case by fastforce
qed simp

lemma placed_record_unique:
  assumes "(k, q, b) \<in> set (placed_records p rs)" and "(k', q, b') \<in> set (placed_records p rs)"
  shows "k = k'" and "b = b'"
proof -
  have "inj_on (\<lambda>r. fst (snd r)) (set (placed_records p rs))" using placed_records_positions by (simp add: distinct_map)
  then have "(k, q, b) = (k', q, b')" by (rule inj_onD) (use assms in simp_all)
  then show "k = k'" "b = b'" by simp_all
qed

lemma latest_placed: "latest rs k = Some (q, b) \<Longrightarrow> (k, q, b) \<in> set (placed_records 0 rs)"
  unfolding latest_def by (auto dest: map_of_SomeD)

lemma placed_latest: "(k, q, b) \<in> set (placed_records 0 rs) \<Longrightarrow> latest rs k \<noteq> None"
  unfolding latest_def map_of_eq_None_iff by force

text \<open>Which records are written back: the latest ones, except for the range \<open>x\<close> that was stored from memory.\<close>

definition final_cache :: "visimap_row list \<Rightarrow> range option \<Rightarrow> spill_record list \<Rightarrow> range \<Rightarrow> AppendOnlyVisiMapDeleteData option" where
  "final_cache rows x rs k =
     (case latest rs k of
        None \<Rightarrow> None
      | Some (q, b) \<Rightarrow>
          Some (if x = Some k then \<lparr>workFileno = -1, workFileOffset = 2 ^ 63 - 1, dd_tupleTid = zero_tid\<rparr>
                else \<lparr>workFileno = fst (loc q), workFileOffset = snd (loc q), dd_tupleTid = row_tid rows k\<rparr>))"

lemma live_iff:
  assumes "list_all record_ok rs" and "\<forall>k. range_ok k \<longrightarrow> map_of cache (range_key k) = final_cache rows x rs k"
    and "(k, q, b) \<in> set (placed_records 0 rs)"
  shows "live cache (k, q, b) \<longleftrightarrow> latest rs k = Some (q, b) \<and> x \<noteq> Some k" and "range_ok k"
proof -
  from placed_records_split [OF assms(3)] assms(1) show k: "range_ok k" by (auto simp: record_ok_def)
  from placed_latest [OF assms(3)] obtain q' b' where l: "latest rs k = Some (q', b')" by auto
  have neg: "loc q \<noteq> (-1, y)" for y by (simp add: loc_def)
  have "loc q = (fst (loc q'), snd (loc q')) \<longleftrightarrow> q = q'" by (simp add: loc_inj)
  moreover have "q = q' \<longleftrightarrow> latest rs k = Some (q, b)" using l latest_placed [OF l] placed_record_unique(2) [OF assms(3), of k b'] by auto
  ultimately show "live cache (k, q, b) \<longleftrightarrow> latest rs k = Some (q, b) \<and> x \<noteq> Some k"
    using assms(2) k l neg by (simp add: live_def final_cache_def)
qed

lemma live_records:
  assumes "list_all record_ok rs" and "\<forall>k. range_ok k \<longrightarrow> map_of cache (range_key k) = final_cache rows x rs k"
    and "\<forall>k q b. latest rs k = Some (q, b) \<longrightarrow> x \<noteq> Some k \<longrightarrow> bms_rows k b = part H k"
  shows "list_all (known rows H cache) (placed_records 0 rs)"
    and "distinct (map fst (filter (live cache) (placed_records 0 rs)))"
    and "set (map fst (filter (live cache) (placed_records 0 rs))) = {k. latest rs k \<noteq> None \<and> x \<noteq> Some k}"
proof -
  note lv = live_iff [OF assms(1,2)]
  have "known rows H cache (k, q, b)" if r: "(k, q, b) \<in> set (placed_records 0 rs)" for k q b
    using lv [OF r] assms(2,3) placed_latest [OF r] by (auto simp: known_def final_cache_def)
  then show "list_all (known rows H cache) (placed_records 0 rs)" unfolding list_all_iff by force
  have "distinct (filter (live cache) (placed_records 0 rs))" using placed_records_positions [of 0 rs] by (simp add: distinct_map)
  moreover have "inj_on fst (set (filter (live cache) (placed_records 0 rs)))" using lv(1) by (fastforce simp: inj_on_def)
  ultimately show "distinct (map fst (filter (live cache) (placed_records 0 rs)))" by (simp add: distinct_map)
  show "set (map fst (filter (live cache) (placed_records 0 rs))) = {k. latest rs k \<noteq> None \<and> x \<noteq> Some k}"
  proof (rule set_eqI)
    fix k
    have "k \<in> set (map fst (filter (live cache) (placed_records 0 rs))) \<longleftrightarrow> (\<exists>q b. (k, q, b) \<in> set (placed_records 0 rs) \<and> live cache (k, q, b))"
      by force
    also have "\<dots> \<longleftrightarrow> latest rs k \<noteq> None \<and> x \<noteq> Some k" using lv(1) latest_placed [of rs k] by fastforce
    finally show "k \<in> set (map fst (filter (live cache) (placed_records 0 rs))) \<longleftrightarrow> k \<in> {k. latest rs k \<noteq> None \<and> x \<noteq> Some k}" by simp
  qed
qed

section \<open>The end of the command\<close>

definition stored_range :: "AppendOnlyVisimapDelete \<Rightarrow> range option" where
  "stored_range vd = (if dirty (delete_entry vd) then Some (entry_range (delete_entry vd)) else None)"

lemma finish_current_ok:
  assumes "between rows H T vd rs"
  shows "\<exists>vd1 ops. finish_current vd = Inr vd1 \<and> list_all2 (op_for rows H) (case stored_range vd of None \<Rightarrow> [] | Some k \<Rightarrow> [k]) ops \<and>
    visimapStore (visiMap vd1) = set_ops ops (visimapStore (visiMap vd)) \<and> workfile vd1 = workfile vd \<and>
    buffer_ok (delete_entry vd1) \<and> \<not> dirty (delete_entry vd1) \<and>
    (\<forall>k. range_ok k \<longrightarrow> map_of (dirtyEntryCache vd1) (range_key k) = final_cache rows (stored_range vd) rs k) \<and>
    (dirtyEntryCache vd1 = [] \<longleftrightarrow> rs = [])"
proof (cases "dirty (delete_entry vd)")
  case False
  have "cache_ok rows (dirtyEntryCache vd) rs" "dirtyEntryCache vd = [] \<longleftrightarrow> rs = []" "buffer_ok (delete_entry vd)"
    using assms by (simp_all add: between_def session_def spill_ok_def)
  with False show ?thesis
    by (auto simp: finish_current_def AppendOnlyVisimapEntry_HasChanged_def stored_range_def cache_ok_def final_cache_def split: option.splits)
next
  case True
  let ?e = "delete_entry vd" and ?k = "entry_range (delete_entry vd)"
  have good: "entry_good rows H T ?e" using assms True by (auto simp: between_def split: if_splits)
  have s: "cache_ok rows (dirtyEntryCache vd) rs" "dirtyEntryCache vd = [] \<longleftrightarrow> rs = []" "buffer_ok ?e"
    using assms by (simp_all add: between_def session_def spill_ok_def)
  have k: "range_ok ?k" "visimap_ok ?e" "bms_rows ?k (bitmap ?e) = part H ?k" "tupleTid ?e = row_tid rows ?k"
    using good by (simp_all add: entry_good_def entry_hidden_bms)
  from Store_op [OF s(3) k(2,1) refl k(3,4) refl] obtain change e1 where
    c: "AppendOnlyVisimap_Store (visiMap vd) = Inr ((visiMap vd)\<lparr>visimapStore := set_ops [change] (visimapStore (visiMap vd)), visimapEntry := e1\<rparr>)"
      "op_for rows H ?k change" "buffer_ok e1" "\<not> dirty e1" "entry_range e1 = ?k" by blast
  define inv where "inv = \<lparr>workFileno = -1, workFileOffset = 2 ^ 63 - 1, dd_tupleTid = zero_tid\<rparr>"
  define cache where "cache = (if map_of (dirtyEntryCache vd) (range_key ?k) \<noteq> None then AList.update (range_key ?k) inv (dirtyEntryCache vd) else dirtyEntryCache vd)"
  have "map_of cache (range_key k') = final_cache rows (Some ?k) rs k'" if "range_ok k'" for k'
    using s(1) that k(1) by (auto simp: cache_def cache_ok_def final_cache_def update_conv' range_key_inj inv_def split: option.splits)
  moreover have "cache = [] \<longleftrightarrow> rs = []" using s(2) by (auto simp: cache_def update_nonempty)
  moreover have "finish_current vd = Inr (vd\<lparr>visiMap := (visiMap vd)\<lparr>visimapStore := set_ops [change] (visimapStore (visiMap vd)), visimapEntry := e1\<rparr>, dirtyEntryCache := cache\<rparr>)"
    using True c(1,5) by (simp add: finish_current_def AppendOnlyVisimapEntry_HasChanged_def entry_key_range Let_def cache_def inv_def)
  ultimately show ?thesis using True c(2-4) by (auto simp: stored_range_def)
qed

lemma WriteBack_ok:
  assumes "io_ok io" and "list_all record_ok rs" and "bf_stands (workfile vd) (file_bytes rs) p" and "buffer_ok (delete_entry vd)"
    and "\<not> dirty (delete_entry vd)" and "list_all (known rows H (dirtyEntryCache vd)) (placed_records 0 rs)" and "dirtyEntryCache vd = [] \<longleftrightarrow> rs = []"
  shows "\<exists>vd1 ops. AppendOnlyVisimapDelete_WriteBackStashedEntries io garbage vd = Some (Inr vd1) \<and>
    list_all2 (op_for rows H) (map fst (filter (live (dirtyEntryCache vd)) (placed_records 0 rs))) ops \<and>
    visimapStore (visiMap vd1) = set_ops ops (visimapStore (visiMap vd)) \<and> \<not> dirty (delete_entry vd1) \<and> bf_ok (workfile vd1)"
proof (cases "dirtyEntryCache vd = []")
  case True
  with assms(3,5,7) show ?thesis by (auto simp: AppendOnlyVisimapDelete_WriteBackStashedEntries_def bf_stands_def)
next
  case False
  from spill.seek_start [OF assms(1,3)] obtain f where
    f: "BufFileSeek io (workfile vd) 0 0 SEEK_SET = Inr (0, f)" "bf_stands f (file_bytes rs) 0" "BufFileTell f = loc 0" by blast
  have "bf_stands (workfile (vd\<lparr>workfile := f\<rparr>)) (file_bytes ([] @ rs)) (length (file_bytes []))"
    "BufFileTell (workfile (vd\<lparr>workfile := f\<rparr>)) = loc (length (file_bytes []))" using f by simp_all
  from writeback_loop_ok [OF assms(1,2) this, of rows H garbage] assms(4-6) f(1) False show ?thesis
    by (simp add: AppendOnlyVisimapDelete_WriteBackStashedEntries_def)
qed

lemma Finish_ok:
  assumes "io_ok io" and "between rows H T vd rs"
  shows "\<exists>vm. AppendOnlyVisimapDelete_Finish io garbage vd = Some (Inr vm) \<and> \<not> dirty (visimapEntry vm) \<and>
    ops_ok rows (catalog_ops (visimapStore vm)) \<and> table_ok (table_after rows (catalog_ops (visimapStore vm))) \<and>
    table_hidden (table_after rows (catalog_ops (visimapStore vm))) = H"
proof -
  let ?x = "stored_range vd"
  have s: "rows_ok rows" "catalog_ops (visimapStore (visiMap vd)) = []" "list_all record_ok rs"
    "\<And>k. k \<notin> T \<Longrightarrow> part H k = part (hidden_before rows) k"
    using assms(2) by (auto simp: between_def session_def store_ready_def spill_ok_def)
  from assms(2) obtain p where p: "bf_stands (workfile vd) (file_bytes rs) p" by (auto simp: between_def session_def spill_ok_def)
  have x: "?x = Some k \<longleftrightarrow> in_memory vd k \<and> k \<in> T" for k
    using assms(2) by (auto simp: stored_range_def between_def in_memory_def entry_good_def split: if_splits)
  from finish_current_ok [OF assms(2)] obtain vd1 ops1 where
    f: "finish_current vd = Inr vd1" "list_all2 (op_for rows H) (case ?x of None \<Rightarrow> [] | Some k \<Rightarrow> [k]) ops1"
      "visimapStore (visiMap vd1) = set_ops ops1 (visimapStore (visiMap vd))" "workfile vd1 = workfile vd"
      "buffer_ok (delete_entry vd1)" "\<not> dirty (delete_entry vd1)"
      "\<forall>k. range_ok k \<longrightarrow> map_of (dirtyEntryCache vd1) (range_key k) = final_cache rows ?x rs k"
      "dirtyEntryCache vd1 = [] \<longleftrightarrow> rs = []" by auto
  have up: "\<forall>k q b. latest rs k = Some (q, b) \<longrightarrow> ?x \<noteq> Some k \<longrightarrow> bms_rows k b = part H k"
    using assms(2) x unfolding between_def by blast
  note lv = live_records [OF s(3) f(7) up]
  have "bf_stands (workfile vd1) (file_bytes rs) p" using p f(4) by simp
  from WriteBack_ok [OF assms(1) s(3) this f(5,6) lv(1) f(8), of garbage] obtain vd2 ops2 where
    w: "AppendOnlyVisimapDelete_WriteBackStashedEntries io garbage vd1 = Some (Inr vd2)"
      "list_all2 (op_for rows H) (map fst (filter (live (dirtyEntryCache vd1)) (placed_records 0 rs))) ops2"
      "visimapStore (visiMap vd2) = set_ops ops2 (visimapStore (visiMap vd1))" "\<not> dirty (delete_entry vd2)" "bf_ok (workfile vd2)" by blast
  define ks where "ks = (case ?x of None \<Rightarrow> [] | Some k \<Rightarrow> [k]) @ map fst (filter (live (dirtyEntryCache vd1)) (placed_records 0 rs))"
  have "k \<in> set ks \<longleftrightarrow> k \<in> T" for k
  proof -
    have "k \<in> set ks \<longleftrightarrow> ?x = Some k \<or> latest rs k \<noteq> None \<and> ?x \<noteq> Some k"
      using lv(3) unfolding ks_def set_append by (auto split: option.splits)
    also have "\<dots> \<longleftrightarrow> k \<in> T" using assms(2) x [of k] unfolding between_def by fastforce
    finally show ?thesis .
  qed
  then have T: "\<forall>k. k \<notin> set ks \<longrightarrow> part H k = part (hidden_before rows) k" using s(4) by blast
  have "distinct ks" using lv(2,3) unfolding ks_def by (auto split: option.splits)
  from ops_effect [OF s(1) list_all2_appendI [OF f(2) w(2), folded ks_def] this T] have
    "ops_ok rows (ops1 @ ops2) \<and> table_ok (table_after rows (ops1 @ ops2)) \<and> table_hidden (table_after rows (ops1 @ ops2)) = H" by blast
  moreover have "catalog_ops (visimapStore (visiMap vd2)) = ops1 @ ops2" using w(3) f(3) s(2) by (simp add: set_ops_def)
  moreover obtain g where "BufFileFlush io (workfile vd2) = Inr g" using Flush_ok [OF assms(1) w(5)] by blast
  then have "AppendOnlyVisimapDelete_Finish io garbage vd = Some (Inr (visiMap vd2))"
    using f(1) w(1) by (simp add: AppendOnlyVisimapDelete_Finish_def BufFileClose_def)
  ultimately show ?thesis using w(4) by auto
qed

end
