(* ===== verification/VisimapCommand.thy ===== *)
theory VisimapCommand
  imports VisimapFinish
begin

text \<open>
  Whole commands on the visibility map: a delete command from the opening of its descriptor to the end, the visibility checks of a
  reader, and the listing of the hidden rows by the function \<^verbatim>\<open>gp_aovisimap\<close>, each against the set of rows that the relation
  hides.
\<close>

section \<open>The command\<close>

text \<open>A delete command: the descriptor is opened, tuples are deleted in any order, and the descriptor is closed.\<close>

fun delete_all ::
  "file_io \<Rightarrow> BitmapDecompressState \<Rightarrow> AppendOnlyVisimapDelete \<Rightarrow> AOTupleId list \<Rightarrow> (TM_Result list \<times> AppendOnlyVisimapDelete) result" where
  "delete_all io garbage vd [] = Inr ([], vd)"
| "delete_all io garbage vd (t # ts) =
     bindE (appendonly_delete io garbage vd t) (\<lambda>(r, vd1). map_sum id (\<lambda>(rs, vd2). (r # rs, vd2)) (delete_all io garbage vd1 ts))"

definition delete_command ::
  "file_io \<Rightarrow> BitmapDecompressState \<Rightarrow> uint8 list \<Rightarrow> visimap_row list \<Rightarrow> AOTupleId list \<Rightarrow> (TM_Result list \<times> catalog_op list) result option" where
  "delete_command io garbage junk rows ts =
     (case delete_all io garbage (appendonly_delete_init junk rows) ts of
        Inl err \<Rightarrow> Some (Inl err)
      | Inr (rs, vd) \<Rightarrow>
          map_option (map_sum id (\<lambda>vm. (rs, catalog_ops (visimapStore vm)))) (appendonly_delete_finish io garbage vd))"

text \<open>What the results should be, from the rows hidden so far and the ranges touched so far.\<close>

fun hide_results :: "(int \<times> int) set \<Rightarrow> range set \<Rightarrow> AOTupleId list \<Rightarrow> TM_Result list" where
  "hide_results H T [] = []"
| "hide_results H T (t # ts) = hide_result H T t # hide_results (insert (tid_place t) H) (insert (tid_range t) T) ts"

lemma init_between:
  assumes "rows_ok rows"
  shows "between rows (hidden_before rows) {} (appendonly_delete_init junk rows) []"
proof -
  let ?vd = "appendonly_delete_init junk rows"
  have e: "\<not> AppendOnlyVisimapEntry_IsValid (delete_entry ?vd)" "\<not> dirty (delete_entry ?vd)" "buffer_ok (delete_entry ?vd)"
    by (simp_all add: appendonly_delete_init_def AppendOnlyVisimapDelete_Init_def AppendOnlyVisimap_Init_def AppendOnlyVisimapEntry_Init_def
        AppendOnlyVisimapEntry_IsValid_def buffer_ok_def)
  have "bf_stands (workfile ?vd) [] 0"
    using CreateTemp_ok [of junk] by (simp add: appendonly_delete_init_def AppendOnlyVisimapDelete_Init_def bf_stands_def)
  then have "spill_ok rows ?vd []"
    by (auto simp: spill_ok_def cache_ok_def appendonly_delete_init_def AppendOnlyVisimapDelete_Init_def)
  moreover have "store_ready (visimapStore (visiMap ?vd))" "visimap_rows (visimapStore (visiMap ?vd)) = rows" "catalog_ops (visimapStore (visiMap ?vd)) = []"
    using assms by (simp_all add: appendonly_delete_init_def AppendOnlyVisimapDelete_Init_def AppendOnlyVisimap_Init_def
        AppendOnlyVisimapStore_Init_def store_ready_def)
  ultimately show ?thesis using e by (simp add: between_def session_def)
qed

lemma delete_all_ok:
  "io_ok io \<Longrightarrow> between rows H T vd rs \<Longrightarrow> list_all ItemPointerIsValid ts \<Longrightarrow>
   \<exists>vd1 rs1. delete_all io garbage vd ts = Inr (hide_results H T ts, vd1) \<and>
     between rows (H \<union> tid_place ` set ts) (T \<union> tid_range ` set ts) vd1 rs1"
proof (induction ts arbitrary: H T vd rs)
  case (Cons t ts)
  from Hide_ok [OF Cons.prems(1,2), of t garbage] Cons.prems(3) obtain vd1 rs1 where
    h: "AppendOnlyVisimapDelete_Hide io garbage vd t = Inr (hide_result H T t, vd1)"
      "between rows (insert (tid_place t) H) (insert (tid_range t) T) vd1 rs1" by auto
  from Cons.IH [OF Cons.prems(1) h(2)] Cons.prems(3) obtain vd2 rs2 where
    "delete_all io garbage vd1 ts = Inr (hide_results (insert (tid_place t) H) (insert (tid_range t) T) ts, vd2)"
    "between rows (insert (tid_place t) H \<union> tid_place ` set ts) (insert (tid_range t) T \<union> tid_range ` set ts) vd2 rs2" by auto
  with h(1) show ?case by (auto simp: appendonly_delete_def)
qed auto

lemma delete_command_ok:
  assumes "io_ok io" and "rows_ok rows" and "list_all ItemPointerIsValid ts"
  shows "\<exists>ops. delete_command io garbage junk rows ts = Some (Inr (hide_results (hidden_before rows) {} ts, ops)) \<and>
    ops_ok rows ops \<and> table_ok (table_after rows ops) \<and> table_hidden (table_after rows ops) = hidden_before rows \<union> tid_place ` set ts"
proof -
  from delete_all_ok [OF assms(1) init_between [OF assms(2), of junk] assms(3), of garbage] obtain vd rs where
    d: "delete_all io garbage (appendonly_delete_init junk rows) ts = Inr (hide_results (hidden_before rows) {} ts, vd)"
      "between rows (hidden_before rows \<union> tid_place ` set ts) (tid_range ` set ts) vd rs" by auto
  from Finish_ok [OF assms(1) d(2), of garbage] obtain vm where
    "AppendOnlyVisimapDelete_Finish io garbage vd = Some (Inr vm)" "\<not> dirty (visimapEntry vm)"
    "ops_ok rows (catalog_ops (visimapStore vm))" "table_ok (table_after rows (catalog_ops (visimapStore vm)))"
    "table_hidden (table_after rows (catalog_ops (visimapStore vm))) = hidden_before rows \<union> tid_place ` set ts" by blast
  with d(1) show ?thesis
    by (simp add: delete_command_def appendonly_delete_finish_def AppendOnlyVisimap_Finish_def AppendOnlyVisimapEntry_HasChanged_def
        AppendOnlyVisimapStore_Finish_def)
qed

section \<open>Visibility checks\<close>

text \<open>A map that only answers visibility checks: its entry, if valid, is the one of its range.\<close>

definition vm_ok :: "visimap_row list \<Rightarrow> AppendOnlyVisimap \<Rightarrow> bool" where
  "vm_ok rows vm \<longleftrightarrow> store_ready (visimapStore vm) \<and> visimap_rows (visimapStore vm) = rows \<and> catalog_ops (visimapStore vm) = [] \<and>
     buffer_ok (visimapEntry vm) \<and> \<not> dirty (visimapEntry vm) \<and>
     (AppendOnlyVisimapEntry_IsValid (visimapEntry vm) \<longrightarrow> range_ok (entry_range (visimapEntry vm)) \<and>
        entry_hidden (visimapEntry vm) = part (hidden_before rows) (entry_range (visimapEntry vm)))"

lemma Init_vm_ok: "rows_ok rows \<Longrightarrow> vm_ok rows (AppendOnlyVisimap_Init rows)"
  by (simp add: vm_ok_def AppendOnlyVisimap_Init_def AppendOnlyVisimapStore_Init_def store_ready_def AppendOnlyVisimapEntry_Init_def
      AppendOnlyVisimapEntry_IsValid_def buffer_ok_def)

lemma Find_vm_ok:
  assumes "vm_ok rows vm" and "ItemPointerIsValid t"
  shows "\<exists>vm1. AppendOnlyVisimap_Find garbage vm t = Inr vm1 \<and> vm_ok rows vm1 \<and> entry_range (visimapEntry vm1) = tid_range t"
proof -
  let ?k = "tid_range t"
  have v: "store_ready (visimapStore vm)" "visimap_rows (visimapStore vm) = rows" "catalog_ops (visimapStore vm) = []"
    "buffer_ok (visimapEntry vm)" "\<not> dirty (visimapEntry vm)" "rows_ok rows"
    using assms(1) by (auto simp: vm_ok_def store_ready_def)
  from Find_ok [OF v(1,4), of garbage "fst ?k" "snd ?k"] obtain s1 e1 where
    f: "AppendOnlyVisimapStore_Find garbage (visimapStore vm) (fst ?k) (snd ?k) (visimapEntry vm) = Inr (find_row rows ?k \<noteq> None, s1, e1)"
      "store_ready s1" "visimap_rows s1 = rows" "catalog_ops s1 = catalog_ops (visimapStore vm)"
      "case find_row rows ?k of None \<Rightarrow> e1 = visimapEntry vm
       | Some (tid, u) \<Rightarrow> entry_range e1 = ?k \<and> buffer_ok e1 \<and> visimap_ok e1 \<and>
           entry_hidden e1 = tuple_hidden u \<and> dirty e1 = dirty (visimapEntry vm) \<and> tupleTid e1 = tid"
    unfolding v(2) prod.collapse by blast
  define e2 where "e2 = (if find_row rows ?k = None then AppendOnlyVisimapEntry_New e1 t else e1)"
  have e2: "entry_range e2 = ?k" "buffer_ok e2" "\<not> dirty e2" "entry_hidden e2 = part (hidden_before rows) ?k"
    using f(5) New_entry [OF refl, of e1 t] v(4,5) part_before [OF v(6), of ?k] by (auto simp: e2_def split: option.splits)
  have "AppendOnlyVisimap_Find garbage vm t = Inr (vm\<lparr>visimapStore := s1, visimapEntry := e2\<rparr>)"
    using f(1) by (simp add: AppendOnlyVisimap_Find_def tid_range_def e2_def)
  moreover have "vm_ok rows (vm\<lparr>visimapStore := s1, visimapEntry := e2\<rparr>)"
    using e2 f(2-4) v(3) tid_range_ok(1) [OF assms(2)] by (simp add: vm_ok_def)
  ultimately show ?thesis using e2(1) by auto
qed

lemma IsVisible_ok:
  assumes "vm_ok rows vm" and "ItemPointerIsValid t"
  shows "\<exists>vm1. AppendOnlyVisimap_IsVisible garbage vm t = Inr (tid_place t \<notin> hidden_before rows, vm1) \<and> vm_ok rows vm1"
proof -
  have loaded: "AppendOnlyVisimapEntry_IsVisible (visimapEntry vm1) t = Inr (tid_place t \<notin> hidden_before rows)"
    if "vm_ok rows vm1" "entry_range (visimapEntry vm1) = tid_range t" for vm1
  proof -
    have k: "range_ok (tid_range t)" "range_of (tid_place t) = tid_range t" using tid_range_ok [OF assms(2)] by simp_all
    then have valid: "AppendOnlyVisimapEntry_IsValid (visimapEntry vm1)" using valid_range [of "visimapEntry vm1"] that(2) by simp
    have "firstRowNum (visimapEntry vm1) mod 32768 = 0" using k(1) unfolding that(2) [symmetric] by (simp add: range_ok_def)
    with covers_range [OF assms(2)] valid that(2) have cov: "AppendOnlyVisimapEntry_CoversTuple (visimapEntry vm1) t" by simp
    have "entry_hidden (visimapEntry vm1) = part (hidden_before rows) (tid_range t)" using that valid by (simp add: vm_ok_def)
    moreover have "tid_place t \<in> entry_hidden (visimapEntry vm1) \<longleftrightarrow> tid_row t \<in> hidden_rows (visimapEntry vm1)"
      using that(2) by (auto simp: entry_hidden_def tid_place_def tid_range_def)
    ultimately have "tid_row t \<in> hidden_rows (visimapEntry vm1) \<longleftrightarrow> tid_place t \<in> hidden_before rows" using k(2) by (simp add: part_def)
    with IsVisible_covered [OF cov] show ?thesis by simp
  qed
  have "firstRowNum (visimapEntry vm) mod 32768 = 0" if "AppendOnlyVisimapEntry_IsValid (visimapEntry vm)"
    using that assms(1) by (simp add: vm_ok_def range_ok_def)
  note cov = covers_range [OF assms(2) this]
  show ?thesis
  proof (cases "AppendOnlyVisimapEntry_CoversTuple (visimapEntry vm) t")
    case True
    with loaded [OF assms(1)] cov assms(1) show ?thesis by (simp add: AppendOnlyVisimap_IsVisible_def)
  next
    case False
    from Find_vm_ok [OF assms, of garbage] obtain vm1 where
      "AppendOnlyVisimap_Find garbage vm t = Inr vm1" "vm_ok rows vm1" "entry_range (visimapEntry vm1) = tid_range t" by blast
    with False loaded assms(1) show ?thesis
      by (simp add: AppendOnlyVisimap_IsVisible_def AppendOnlyVisimapEntry_HasChanged_def vm_ok_def)
  qed
qed

section \<open>The scan\<close>

text \<open>
  The function \<^verbatim>\<open>gp_aovisimap\<close> of \<^verbatim>\<open>appendonly_visimap_udf.c\<close>, all its calls for one relation: every call of the scan gets
  the identifier of the previous one, and returns the identifier, the segment file and the row number.
\<close>

partial_function (option) gp_aovisimap_loop ::
  "BitmapDecompressState \<Rightarrow> AppendOnlyVisimapScan \<Rightarrow> AOTupleId \<Rightarrow> (AOTupleId \<times> int \<times> int) list \<Rightarrow>
   ((AOTupleId \<times> int \<times> int) list \<times> AppendOnlyVisimapScan) result option" where
  "gp_aovisimap_loop garbage sc t out =
     (case AppendOnlyVisimapScan_GetNextInvisible garbage sc t of
        Inl err \<Rightarrow> Some (Inl err)
      | Inr (found, t1, sc1) \<Rightarrow>
          if \<not> found then Some (Inr (out, sc1))
          else gp_aovisimap_loop garbage sc1 t1 (out @ [(t1, uint (AOTupleIdGet_segmentFileNum t1), sint (AOTupleIdGet_rowNum t1))]))"

definition gp_aovisimap :: "BitmapDecompressState \<Rightarrow> visimap_row list \<Rightarrow> (AOTupleId \<times> int \<times> int) list result option" where
  "gp_aovisimap garbage rows =
     map_option (\<lambda>r. bindE r (\<lambda>(out, sc). bindE (AppendOnlyVisimapScan_Finish sc) (\<lambda>_. Inr out)))
       (gp_aovisimap_loop garbage (AppendOnlyVisimapScan_Init rows) AOTupleIdSetInvalid [])"

text \<open>The hidden rows of a tuple in ascending order.\<close>

definition hidden_list :: "visimap_tuple \<Rightarrow> (int \<times> int) list" where
  "hidden_list t = map (Pair (fst (tuple_range t))) (sorted_list_of_set (snd ` tuple_hidden t))"

text \<open>The rows of an entry that are still to come.\<close>

definition to_come :: "AppendOnlyVisimapEntry \<Rightarrow> AOTupleId \<Rightarrow> int set" where
  "to_come e t = {r \<in> hidden_rows e. AppendOnlyVisimapEntry_CoversTuple e t \<longrightarrow> tid_row t < r}"

lemma invalid_row: "tid_row AOTupleIdSetInvalid = -1"
proof -
  have "AOTupleIdGet_rowNum AOTupleIdSetInvalid = -1"
    unfolding AOTupleIdGet_rowNum_def AOTupleIdSetInvalid_def by (rule bit_word_eqI) (simp add: bit_or_iff)
  then show ?thesis by simp
qed

lemma to_come_first: "to_come e AOTupleIdSetInvalid = hidden_rows e"
  by (auto simp: to_come_def AppendOnlyVisimapEntry_CoversTuple_def AppendOnlyVisimapEntry_IsValid_def invalid_row)

definition scan_entry_ok :: "AppendOnlyVisimapEntry \<Rightarrow> bool" where
  "scan_entry_ok e \<longleftrightarrow> buffer_ok e \<and> visimap_ok e \<and> range_ok (entry_range e)"

lemma finite_hidden_rows: "finite (hidden_rows e)"
  by (simp add: hidden_rows_def)

lemma next_to_come:
  assumes "scan_entry_ok e"
  shows "case AppendOnlyVisimapEntry_GetNextInvisible e t of (found, t1) \<Rightarrow>
    (if to_come e t = {} then \<not> found
     else found \<and> tid_place t1 = (segmentFileNum e, Min (to_come e t)) \<and> to_come e t1 = to_come e t - {Min (to_come e t)})"
proof -
  have e: "0 \<le> segmentFileNum e" "segmentFileNum e \<le> 127" "0 \<le> firstRowNum e" "firstRowNum e + 32768 \<le> 2 ^ 40" "visimap_ok e"
    "firstRowNum e mod 32768 = 0"
    using assms by (auto simp: scan_entry_ok_def range_ok_def)
  obtain found t1 where g: "AppendOnlyVisimapEntry_GetNextInvisible e t = (found, t1)" by fastforce
  from GetNextInvisible_next [OF e(1-5) to_come_def, of t] g
  have n: "if to_come e t = {} then \<not> found else found \<and> tid_row t1 = Min (to_come e t) \<and> uint (AOTupleIdGet_segmentFileNum t1) = segmentFileNum e"
    by (auto split: if_splits)
  have "to_come e t1 = to_come e t - {Min (to_come e t)}" if "to_come e t \<noteq> {}"
  proof -
    have t1: "tid_row t1 = Min (to_come e t)" "uint (AOTupleIdGet_segmentFileNum t1) = segmentFileNum e" using n that by auto
    have fin: "finite (to_come e t)" by (simp add: to_come_def finite_hidden_rows)
    have m: "Min (to_come e t) \<in> to_come e t" using fin that by (rule Min_in)
    then obtain j where j: "j \<in> bms_members (bitmap e)" "Min (to_come e t) = firstRowNum e + int j" by (auto simp: to_come_def hidden_rows_def)
    have "j < 32768" using members_bound [OF j(1)] e(5) by (simp add: visimap_ok_def)
    then have cov: "AppendOnlyVisimapEntry_CoversTuple e t1"
      using e t1 j(2) by (simp add: AppendOnlyVisimapEntry_CoversTuple_def AppendOnlyVisimapEntry_IsValid_def APPENDONLY_VISIMAP_MAX_RANGE_def)
    have "r \<in> to_come e t \<and> r \<noteq> Min (to_come e t) \<longleftrightarrow> r \<in> hidden_rows e \<and> Min (to_come e t) < r" for r
      using Min_le [OF fin, of r] m unfolding to_come_def by fastforce
    then show ?thesis using cov t1(1) by (auto simp: to_come_def)
  qed
  with n g show ?thesis by (simp add: tid_place_def)
qed

text \<open>The places that are still to come in a scan.\<close>

definition pending :: "AppendOnlyVisimapEntry \<Rightarrow> visimap_row list \<Rightarrow> AOTupleId \<Rightarrow> (int \<times> int) list" where
  "pending e rows t =
     (if AppendOnlyVisimapEntry_IsValid e then map (Pair (segmentFileNum e)) (sorted_list_of_set (to_come e t)) else []) @
     concat (map (hidden_list \<circ> snd) rows)"

definition scan_good :: "AppendOnlyVisimapEntry \<Rightarrow> visimap_row list \<Rightarrow> bool" where
  "scan_good e rows \<longleftrightarrow> buffer_ok e \<and> \<not> dirty e \<and> (AppendOnlyVisimapEntry_IsValid e \<longrightarrow> scan_entry_ok e) \<and> list_all (row_ok \<circ> snd) rows"

lemma pending_some:
  assumes "scan_good e rows" and "AppendOnlyVisimapEntry_IsValid e" and "to_come e t \<noteq> {}"
  shows "\<exists>t1. scan_loop garbage e rows t = Inr (True, t1, e, rows) \<and> pending e rows t = tid_place t1 # pending e rows t1"
proof -
  have ok: "scan_entry_ok e" using assms(1,2) by (simp add: scan_good_def)
  have fin: "finite (to_come e t)" by (simp add: to_come_def finite_hidden_rows)
  obtain found t1 where g: "AppendOnlyVisimapEntry_GetNextInvisible e t = (found, t1)" by fastforce
  with next_to_come [OF ok, of t] assms(3) have
    n: "found" "tid_place t1 = (segmentFileNum e, Min (to_come e t))" "to_come e t1 = to_come e t - {Min (to_come e t)}" by auto
  have "scan_loop garbage e rows t = Inr (True, t1, e, rows)"
    using assms(2) g n(1) by (subst scan_loop.simps) (simp add: scan_fetch_def)
  moreover have "sorted_list_of_set (to_come e t) = Min (to_come e t) # sorted_list_of_set (to_come e t1)"
    unfolding n(3) using fin assms(3) by (rule sorted_list_of_set_nonempty)
  ultimately show ?thesis using assms(2) n(2) by (simp add: pending_def)
qed

lemma Reset_invalid: "\<not> AppendOnlyVisimapEntry_IsValid (AppendOnlyVisimapEntry_Reset e)" "buffer_ok (AppendOnlyVisimapEntry_Reset e) = buffer_ok e"
  "\<not> dirty (AppendOnlyVisimapEntry_Reset e)"
  by (simp_all add: AppendOnlyVisimapEntry_Reset_def AppendOnlyVisimapEntry_IsValid_def buffer_ok_def)

text \<open>A used-up entry is dropped, and the next row is fetched.\<close>

lemma scan_drop:
  assumes "scan_good e rows" and "AppendOnlyVisimapEntry_IsValid e \<Longrightarrow> to_come e t = {}"
  shows "\<exists>e1 t1. scan_loop garbage e rows t = scan_loop garbage e1 rows t1 \<and> scan_good e1 rows \<and> \<not> AppendOnlyVisimapEntry_IsValid e1 \<and>
    pending e1 rows t1 = pending e rows t"
proof (cases "AppendOnlyVisimapEntry_IsValid e")
  case True
  obtain found t1 where g: "AppendOnlyVisimapEntry_GetNextInvisible e t = (found, t1)" by fastforce
  with next_to_come [of e t] assms True have "\<not> found" by (auto simp: scan_good_def)
  then have "scan_loop garbage e rows t = scan_loop garbage (AppendOnlyVisimapEntry_Reset e) rows t1"
    using True g by (subst scan_loop.simps) (simp add: scan_fetch_def)
  moreover have "scan_good (AppendOnlyVisimapEntry_Reset e) rows" using assms(1) by (simp add: scan_good_def Reset_invalid)
  ultimately show ?thesis using True assms(2)
    by (intro exI [of _ "AppendOnlyVisimapEntry_Reset e"] exI [of _ t1]) (simp add: Reset_invalid pending_def)
next
  case False
  with assms(1) show ?thesis by blast
qed

lemma scan_fetch_row:
  assumes "scan_good e ((tid, u) # rows)" and "\<not> AppendOnlyVisimapEntry_IsValid e"
  shows "\<exists>e1. scan_loop garbage e ((tid, u) # rows) t = scan_loop garbage e1 rows AOTupleIdSetInvalid \<and> scan_good e1 rows \<and>
    pending e1 rows AOTupleIdSetInvalid = pending e ((tid, u) # rows) t"
proof -
  have u: "row_ok u" "buffer_ok e" "list_all (row_ok \<circ> snd) rows" using assms(1) by (simp_all add: scan_good_def)
  from Copyout_row [OF u(1,2), of garbage] obtain e1 where
    e1: "AppendOnlyVisimapEntry_Copyout garbage e u = Inr e1" "entry_range e1 = tuple_range u" "buffer_ok e1" "visimap_ok e1"
      "entry_hidden e1 = tuple_hidden u" "dirty e1 = dirty e" by blast
  have r: "range_ok (entry_range e1)" using u(1) e1(2) by (simp add: row_ok_def)
  note valid = valid_range [OF r]
  have "scan_fetch garbage e ((tid, u) # rows) t = Inr (Some (e1, rows, AOTupleIdSetInvalid))"
    "scan_fetch garbage e1 rows AOTupleIdSetInvalid = Inr (Some (e1, rows, AOTupleIdSetInvalid))"
    using assms(2) valid e1(1) by (simp_all add: scan_fetch_def AppendOnlyVisimapStore_GetNext_def AppendOnlyVisimapStore_GetNextTuple_def)
  then have "scan_loop garbage e ((tid, u) # rows) t = scan_loop garbage e1 rows AOTupleIdSetInvalid"
    unfolding scan_loop.simps [of garbage e "(tid, u) # rows" t] scan_loop.simps [of garbage e1 rows AOTupleIdSetInvalid] by simp
  moreover have "scan_good e1 rows" using assms(1) e1(3,4,6) r u(3) by (simp add: scan_good_def scan_entry_ok_def)
  moreover have "snd ` tuple_hidden u = hidden_rows e1" unfolding e1(5) [symmetric] entry_hidden_def by force
  then have "pending e1 rows AOTupleIdSetInvalid = pending e ((tid, u) # rows) t"
    using assms(2) valid e1(2) [symmetric] by (simp add: pending_def hidden_list_def to_come_first)
  ultimately show ?thesis by blast
qed

lemma scan_loop_ok:
  "scan_good e rows \<Longrightarrow>
   \<exists>t1 e1 rows1. scan_loop garbage e rows t = Inr (pending e rows t \<noteq> [], t1, e1, rows1) \<and> scan_good e1 rows1 \<and>
     (pending e rows t \<noteq> [] \<longrightarrow> pending e rows t = tid_place t1 # pending e1 rows1 t1)"
proof (induction rows arbitrary: e t)
  case Nil
  show ?case
  proof (cases "AppendOnlyVisimapEntry_IsValid e \<and> to_come e t \<noteq> {}")
    case True
    with pending_some [OF Nil, of t garbage] Nil show ?thesis by auto
  next
    case False
    with scan_drop [OF Nil, of t garbage] obtain e1 t1 where
      d: "scan_loop garbage e [] t = scan_loop garbage e1 [] t1" "scan_good e1 []" "\<not> AppendOnlyVisimapEntry_IsValid e1" "pending e1 [] t1 = pending e [] t" by blast
    have "scan_loop garbage e1 [] t1 = Inr (False, t1, e1, [])"
      using d(3) by (subst scan_loop.simps) (simp add: scan_fetch_def AppendOnlyVisimapStore_GetNext_def AppendOnlyVisimapStore_GetNextTuple_def)
    moreover have "pending e [] t = []" unfolding d(4) [symmetric] using d(3) by (simp add: pending_def)
    ultimately show ?thesis using d(1,2) by simp
  qed
next
  case (Cons r rows)
  obtain tid u where r: "r = (tid, u)" by (cases r)
  show ?case
  proof (cases "AppendOnlyVisimapEntry_IsValid e \<and> to_come e t \<noteq> {}")
    case True
    with pending_some [OF Cons.prems, of t garbage] Cons.prems show ?thesis by auto
  next
    case False
    with scan_drop [OF Cons.prems, of t garbage] obtain e1 t1 where
      d: "scan_loop garbage e (r # rows) t = scan_loop garbage e1 (r # rows) t1" "scan_good e1 (r # rows)" "\<not> AppendOnlyVisimapEntry_IsValid e1"
        "pending e1 (r # rows) t1 = pending e (r # rows) t" by blast
    from scan_fetch_row [of e1 tid u rows garbage t1] d(2,3) r obtain e2 where
      f: "scan_loop garbage e1 (r # rows) t1 = scan_loop garbage e2 rows AOTupleIdSetInvalid" "scan_good e2 rows"
        "pending e2 rows AOTupleIdSetInvalid = pending e1 (r # rows) t1" by blast
    from Cons.IH [OF f(2), of AOTupleIdSetInvalid] d(1,4) f(1,3) show ?thesis by simp
  qed
qed

lemma gp_aovisimap_loop_ok:
  "scan_good (visimapEntry (scan_visimap sc)) (indexScan sc) \<Longrightarrow> \<not> isFinished sc \<Longrightarrow>
   \<exists>out' sc1. gp_aovisimap_loop garbage sc t out = Some (Inr (out @ out', sc1)) \<and>
     map snd out' = pending (visimapEntry (scan_visimap sc)) (indexScan sc) t \<and> \<not> dirty (visimapEntry (scan_visimap sc1))"
proof (induction "pending (visimapEntry (scan_visimap sc)) (indexScan sc) t" arbitrary: sc t out)
  case Nil
  let ?e = "visimapEntry (scan_visimap sc)"
  from scan_loop_ok [OF Nil.prems(1), of garbage t] Nil.hyps obtain t1 e1 rows1 where
    "scan_loop garbage ?e (indexScan sc) t = Inr (False, t1, e1, rows1)" "scan_good e1 rows1" by auto
  with Nil show ?case
    by (subst gp_aovisimap_loop.simps) (auto simp: AppendOnlyVisimapScan_GetNextInvisible_def scan_good_def)
next
  case (Cons p ps)
  let ?e = "visimapEntry (scan_visimap sc)"
  have ne: "pending ?e (indexScan sc) t \<noteq> []" "pending ?e (indexScan sc) t = p # ps" unfolding Cons.hyps(2) [symmetric] by simp_all
  from scan_loop_ok [OF Cons.prems(1), of garbage t] ne obtain t1 e1 rows1 where
    s: "scan_loop garbage ?e (indexScan sc) t = Inr (True, t1, e1, rows1)" "scan_good e1 rows1" "p = tid_place t1" "ps = pending e1 rows1 t1" by auto
  define sc1 where "sc1 = sc\<lparr>scan_visimap := (scan_visimap sc)\<lparr>visimapEntry := e1\<rparr>, indexScan := rows1, isFinished := False\<rparr>"
  have sc1: "visimapEntry (scan_visimap sc1) = e1" "indexScan sc1 = rows1" "\<not> isFinished sc1" by (simp_all add: sc1_def)
  have "AppendOnlyVisimapScan_GetNextInvisible garbage sc t = Inr (True, t1, sc1)"
    using s(1) Cons.prems(2) by (simp add: AppendOnlyVisimapScan_GetNextInvisible_def sc1_def)
  then have step: "gp_aovisimap_loop garbage sc t out = gp_aovisimap_loop garbage sc1 t1 (out @ [(t1, tid_place t1)])"
    by (subst gp_aovisimap_loop.simps) (simp add: tid_place_def)
  from Cons.hyps(1) [of sc1 t1 "out @ [(t1, tid_place t1)]"] s sc1 obtain out' sc2 where
    "gp_aovisimap_loop garbage sc1 t1 (out @ [(t1, tid_place t1)]) = Some (Inr ((out @ [(t1, tid_place t1)]) @ out', sc2))"
    "map snd out' = ps" "\<not> dirty (visimapEntry (scan_visimap sc2))" by auto
  with step ne(2) s(3) show ?case by (intro exI [of _ "(t1, tid_place t1) # out'"] exI [of _ sc2]) simp
qed

lemma hidden_list_props:
  assumes "row_ok t"
  shows "set (hidden_list t) = tuple_hidden t" and "distinct (hidden_list t)" and "sorted (map snd (hidden_list t))"
proof -
  from assms obtain b where b: "stored t (fst (tuple_range t)) (snd (tuple_range t)) b" by (auto simp: row_ok_def)
  note h = stored_hidden [OF b]
  then have fin: "finite (snd ` tuple_hidden t)" by simp
  then show "set (hidden_list t) = tuple_hidden t" unfolding hidden_list_def using h by (simp add: image_image)
  show "distinct (hidden_list t)" using fin by (simp add: hidden_list_def distinct_map inj_on_def)
  show "sorted (map snd (hidden_list t))" by (simp add: hidden_list_def comp_def)
qed

lemma concat_hidden:
  "table_ok ts \<Longrightarrow> set (concat (map hidden_list ts)) = table_hidden ts \<and> distinct (concat (map hidden_list ts))"
proof (induction ts)
  case (Cons t ts)
  then have ok: "row_ok t" "table_ok ts" by (auto simp: table_ok_def)
  with Cons.IH hidden_list_props [OF ok(1)] table_hidden_Cons [OF Cons.prems] show ?case by auto
qed (simp add: table_hidden_def)

section \<open>Properties\<close>

text \<open>
  C2: a delete command is correct.  For any sequence of tuple identifiers, in any order and with repetitions, however many
  ranges they touch and however often entries are stashed and read back, the command ends without an error; it replaces or
  deletes no row of the visibility map twice and only rows it sees, leaves at most one row per range, and afterwards the
  relation hides exactly the rows hidden before and the deleted ones.  Every deletion is answered with \<^verbatim>\<open>TM_Ok\<close> if and only if
  the row was not hidden yet.
\<close>

theorem delete_command_correct:
  assumes "io_ok io" and "rows_ok rows" and "list_all ItemPointerIsValid ts"
  shows "\<exists>ops. delete_command io garbage junk rows ts = Some (Inr (hide_results (hidden_before rows) {} ts, ops)) \<and>
    ops_ok rows ops \<and> table_ok (table_after rows ops) \<and> table_hidden (table_after rows ops) = hidden_before rows \<union> tid_place ` set ts"
  by (rule delete_command_ok [OF assms])

lemma sample_rows_ok: "rows_ok (visimap_rows sample_store)"
  using sample_store_ready(1) by (simp add: store_ready_def)

text \<open>Two tuples of the range of the sample row, the first one hidden already, and one of another segment file.\<close>

definition sample_tids :: "AOTupleId list" where
  "sample_tids = [AOTupleIdInit 1 32769, AOTupleIdInit 2 5, AOTupleIdInit 1 32768]"

lemma sample_tids_ok: "list_all ItemPointerIsValid sample_tids"
  by (simp add: sample_tids_def ItemPointerIsValid_def AOTupleIdInit_def)

lemma sample_places:
  "map tid_place sample_tids = [(1, 32769), (2, 5), (1, 32768)]" "map tid_range sample_tids = [(1, 32768), (2, 0), (1, 32768)]"
proof -
  have r: "tid_row (AOTupleIdInit 1 32769) = 32769" "tid_row (AOTupleIdInit 2 5) = 5" "tid_row (AOTupleIdInit 1 32768) = 32768"
    using tid_row_Init [of 32769 1] tid_row_Init [of 5 2] tid_row_Init [of 32768 1] by simp_all
  have s: "uint (AOTupleIdGet_segmentFileNum (AOTupleIdInit 1 x)) = 1" "uint (AOTupleIdGet_segmentFileNum (AOTupleIdInit 2 x)) = 2" for x
    using tid_seg_Init [of 1 x] tid_seg_Init [of 2 x] by simp_all
  show "map tid_place sample_tids = [(1, 32769), (2, 5), (1, 32768)]" by (simp add: sample_tids_def tid_place_def r s)
  show "map tid_range sample_tids = [(1, 32768), (2, 0), (1, 32768)]"
    by (simp add: sample_tids_def tid_range_def AppendOnlyVisimapEntry_GetFirstRowNum_def APPENDONLY_VISIMAP_MAX_RANGE_def c_div_def r s)
qed


theorem delete_command_correct_witness:
  "\<exists>ops. delete_command slow_io blank_state [] (visimap_rows sample_store) sample_tids = Some (Inr ([TM_Ok, TM_Ok, TM_SelfModified], ops)) \<and>
    ops_ok (visimap_rows sample_store) ops \<and> table_ok (table_after (visimap_rows sample_store) ops) \<and>
    table_hidden (table_after (visimap_rows sample_store) ops) = {(1, 32768), (1, 32769), (2, 5)}"
proof -
  have "tid_place ` set sample_tids = {(1, 32769), (2, 5), (1, 32768)}"
    using arg_cong [OF sample_places(1), of set] by simp
  then have h: "hidden_before (visimap_rows sample_store) \<union> tid_place ` set sample_tids = {(1, 32768), (1, 32769), (2, 5)}"
    unfolding sample_hidden by auto
  have r: "hide_results (hidden_before (visimap_rows sample_store)) {} sample_tids = [TM_Ok, TM_Ok, TM_SelfModified]"
    using sample_places unfolding sample_hidden by (simp add: sample_tids_def hide_result_def)
  show ?thesis
    using delete_command_correct [OF slow_io_ok sample_rows_ok sample_tids_ok, of blank_state "[]"] unfolding h r .
qed

text \<open>
  C35: the comment of \<^verbatim>\<open>AppendOnlyVisimapEntry_HideTuple\<close> says that \<^verbatim>\<open>TM_SelfModified\<close> means that this command has set the bit.
  A row that an earlier command has hidden is reported as \<^verbatim>\<open>TM_SelfModified\<close> as soon as this command has hidden any other row of
  the same range, and as \<^verbatim>\<open>TM_Updated\<close> otherwise.
\<close>

theorem delete_blames_itself:
  assumes "io_ok io" and "rows_ok rows" and "ItemPointerIsValid t0" and "ItemPointerIsValid t1"
    and "tid_place t0 \<in> hidden_before rows" and "tid_place t1 \<notin> hidden_before rows" and "tid_range t1 = tid_range t0"
  shows "\<exists>ops ops'. delete_command io garbage junk rows [t1, t0] = Some (Inr ([TM_Ok, TM_SelfModified], ops)) \<and>
    delete_command io garbage junk rows [t0] = Some (Inr ([TM_Updated], ops'))"
proof -
  have r: "hide_results (hidden_before rows) {} [t1, t0] = [TM_Ok, TM_SelfModified]" "hide_results (hidden_before rows) {} [t0] = [TM_Updated]"
    using assms(5-7) by (simp_all add: hide_result_def)
  show ?thesis
    using delete_command_ok [OF assms(1,2), of "[t1, t0]" garbage junk] delete_command_ok [OF assms(1,2), of "[t0]" garbage junk] assms(3,4)
    unfolding r by auto
qed

theorem delete_blames_itself_witness:
  "\<exists>ops ops'. delete_command slow_io blank_state [] (visimap_rows sample_store) [AOTupleIdInit 1 32769, AOTupleIdInit 1 32768] =
      Some (Inr ([TM_Ok, TM_SelfModified], ops)) \<and>
    delete_command slow_io blank_state [] (visimap_rows sample_store) [AOTupleIdInit 1 32768] = Some (Inr ([TM_Updated], ops'))"
  by (rule delete_blames_itself [OF slow_io_ok sample_rows_ok])
    (use sample_tids_ok sample_places in \<open>simp_all add: sample_tids_def sample_hidden\<close>)

text \<open>
  C21: while a command runs, visibility checks through its delete structure see its own deletions: after any sequence of
  deletions a tuple is visible if and only if its row was not hidden before and is not one of the deleted rows, whether the
  entry is in memory, in the spill file or in the relation.
\<close>

theorem delete_sees_itself:
  assumes "io_ok io" and "rows_ok rows" and "list_all ItemPointerIsValid ts" and "ItemPointerIsValid t"
  shows "\<exists>rs vd vd1. delete_all io garbage (appendonly_delete_init junk rows) ts = Inr (rs, vd) \<and>
    AppendOnlyVisimapDelete_IsVisible io garbage vd t = Inr (tid_place t \<notin> hidden_before rows \<union> tid_place ` set ts, vd1)"
proof -
  from delete_all_ok [OF assms(1) init_between [OF assms(2), of junk] assms(3), of garbage] obtain vd rs where
    d: "delete_all io garbage (appendonly_delete_init junk rows) ts = Inr (hide_results (hidden_before rows) {} ts, vd)"
      "between rows (hidden_before rows \<union> tid_place ` set ts) ({} \<union> tid_range ` set ts) vd rs" by blast
  from Delete_IsVisible_ok [OF assms(1) d(2) assms(4), of garbage] d(1) show ?thesis by blast
qed

theorem delete_sees_itself_witness:
  "\<exists>rs vd vd1. delete_all slow_io blank_state (appendonly_delete_init [] (visimap_rows sample_store)) sample_tids = Inr (rs, vd) \<and>
    AppendOnlyVisimapDelete_IsVisible slow_io blank_state vd (AOTupleIdInit 2 5) = Inr (False, vd1)"
proof -
  have t: "ItemPointerIsValid (AOTupleIdInit 2 5)" using sample_tids_ok by (simp add: sample_tids_def)
  have v: "(tid_place (AOTupleIdInit 2 5) \<notin> hidden_before (visimap_rows sample_store) \<union> tid_place ` set sample_tids) = False"
    by (simp add: sample_tids_def)
  show ?thesis
    using delete_sees_itself [OF slow_io_ok sample_rows_ok sample_tids_ok t, of blank_state "[]"] unfolding v .
qed

text \<open>Visibility checks of a reader, one after the other.\<close>

fun check_all :: "BitmapDecompressState \<Rightarrow> AppendOnlyVisimap \<Rightarrow> AOTupleId list \<Rightarrow> (bool list \<times> AppendOnlyVisimap) result" where
  "check_all garbage vm [] = Inr ([], vm)"
| "check_all garbage vm (t # ts) =
     bindE (AppendOnlyVisimap_IsVisible garbage vm t) (\<lambda>(v, vm1). map_sum id (\<lambda>(vs, vm2). (v # vs, vm2)) (check_all garbage vm1 ts))"

lemma check_all_ok:
  "vm_ok rows vm \<Longrightarrow> list_all ItemPointerIsValid ts \<Longrightarrow>
   \<exists>vm1. check_all garbage vm ts = Inr (map (\<lambda>t. tid_place t \<notin> hidden_before rows) ts, vm1) \<and> vm_ok rows vm1"
proof (induction ts arbitrary: vm)
  case (Cons t ts)
  from IsVisible_ok [OF Cons.prems(1), of t garbage] Cons.prems(2) obtain vm1 where
    v: "AppendOnlyVisimap_IsVisible garbage vm t = Inr (tid_place t \<notin> hidden_before rows, vm1)" "vm_ok rows vm1" by auto
  from Cons.IH [OF v(2)] Cons.prems(2) v(1) show ?case by auto
qed simp

text \<open>
  C22: a reader's visibility checks are exact.  A sequence of checks, in any order of ranges, answers for every tuple whether
  the relation hides its row, and changes nothing in the relation.
\<close>

theorem IsVisible_exact:
  assumes "rows_ok rows" and "list_all ItemPointerIsValid ts"
  shows "\<exists>vm. check_all garbage (AppendOnlyVisimap_Init rows) ts = Inr (map (\<lambda>t. tid_place t \<notin> hidden_before rows) ts, vm) \<and>
    catalog_ops (visimapStore vm) = []"
  using check_all_ok [OF Init_vm_ok [OF assms(1)] assms(2), of garbage] by (auto simp: vm_ok_def)

theorem IsVisible_exact_witness:
  "\<exists>vm. check_all blank_state (AppendOnlyVisimap_Init (visimap_rows sample_store)) sample_tids = Inr ([True, True, False], vm) \<and>
    catalog_ops (visimapStore vm) = []"
proof -
  have v: "map (\<lambda>t. tid_place t \<notin> hidden_before (visimap_rows sample_store)) sample_tids = [True, True, False]"
    using sample_places unfolding sample_hidden by (simp add: sample_tids_def)
  show ?thesis using IsVisible_exact [OF sample_rows_ok sample_tids_ok, of blank_state] unfolding v .
qed



end
