(* ===== verification/VarBlock.thy ===== *)
theory VarBlock
  imports Bytes
begin

text \<open>
  Blocks of variable-length items, \<^verbatim>\<open>src/backend/cdb/cdbvarblock.c\<close> and \<^verbatim>\<open>src/include/cdb/cdbvarblock.h\<close>: the content of
  the blocks of append-optimized tables.  A block is a header of eight bytes, the items, and an array of the
  offsets of the items, which is kept in a scratch area while the block is made.  Offsets take two bytes, and three as
  soon as an item starts beyond 63 KB.  Buffers are byte lists in the byte order of a little-endian machine; accesses
  outside of them are errors of the model.
\<close>

text \<open>The conversion \<^verbatim>\<open>%08x\<close> of formatted output.\<close>

definition fmt_x8 :: "uint32 \<Rightarrow> string" where
  "fmt_x8 w = map (\<lambda>i. ''0123456789abcdef'' ! (unat w div 16 ^ (7 - i) mod 16)) [0..<8]"

section \<open>The header\<close>

definition VARBLOCK_BYTE_OFFSET_24_LEN :: int where
  "VARBLOCK_BYTE_OFFSET_24_LEN = 3"

definition InitialVersion :: uint32 where
  "InitialVersion = 1"

record VarBlockHeader =
  bytes_0_3 :: uint32
  bytes_4_7 :: uint32

definition VARBLOCK_HEADER_LEN :: int where
  "VARBLOCK_HEADER_LEN = 8"

definition VarBlockGet_offsetsAreSmall :: "VarBlockHeader \<Rightarrow> uint32" where
  "VarBlockGet_offsetsAreSmall h = drop_bit 31 (bytes_0_3 h)"

definition VarBlockGet_reserved :: "VarBlockHeader \<Rightarrow> uint32" where
  "VarBlockGet_reserved h = drop_bit 26 (bytes_0_3 h AND 0x7C000000)"

definition VarBlockGet_version :: "VarBlockHeader \<Rightarrow> uint32" where
  "VarBlockGet_version h = drop_bit 24 (bytes_0_3 h AND 0x03000000)"

definition VarBlockGet_itemLenSum :: "VarBlockHeader \<Rightarrow> uint32" where
  "VarBlockGet_itemLenSum h = bytes_0_3 h AND 0x00FFFFFF"

definition VarBlockGet_moreReserved :: "VarBlockHeader \<Rightarrow> uint32" where
  "VarBlockGet_moreReserved h = drop_bit 24 (bytes_4_7 h AND 0xFF000000)"

definition VarBlockGet_itemCount :: "VarBlockHeader \<Rightarrow> uint32" where
  "VarBlockGet_itemCount h = bytes_4_7 h AND 0x00FFFFFF"

definition VarBlockSet_offsetsAreSmall :: "VarBlockHeader \<Rightarrow> bool \<Rightarrow> VarBlockHeader" where
  "VarBlockSet_offsetsAreSmall h e =
     (if e then h\<lparr>bytes_0_3 := bytes_0_3 h OR 0x80000000\<rparr> else h\<lparr>bytes_0_3 := bytes_0_3 h AND 0x7FFFFFFF\<rparr>)"

definition VarBlockSet_version :: "VarBlockHeader \<Rightarrow> uint32 \<Rightarrow> VarBlockHeader" where
  "VarBlockSet_version h e = h\<lparr>bytes_0_3 := (bytes_0_3 h AND 0xFCFFFFFF) OR (0x03000000 AND push_bit 24 e)\<rparr>"

definition VarBlockSet_itemLenSum :: "VarBlockHeader \<Rightarrow> uint32 \<Rightarrow> VarBlockHeader" where
  "VarBlockSet_itemLenSum h e = h\<lparr>bytes_0_3 := (bytes_0_3 h AND 0xFF000000) OR (0x00FFFFFF AND e)\<rparr>"

definition VarBlockSet_itemCount :: "VarBlockHeader \<Rightarrow> uint32 \<Rightarrow> VarBlockHeader" where
  "VarBlockSet_itemCount h e = h\<lparr>bytes_4_7 := (bytes_4_7 h AND 0xFF000000) OR (0x00FFFFFF AND e)\<rparr>"

text \<open>The header is the first eight bytes of a buffer.\<close>

definition load_header :: "uint8 list \<Rightarrow> VarBlockHeader result" where
  "load_header buf =
     bindE (mem_read buf 0 8) (\<lambda>bs. Inr \<lparr>bytes_0_3 = of_nat (le_nat (take 4 bs)), bytes_4_7 = of_nat (le_nat (drop 4 bs))\<rparr>)"

definition header_image :: "VarBlockHeader \<Rightarrow> uint8 list" where
  "header_image h = le_bytes 4 (unat (bytes_0_3 h)) @ le_bytes 4 (unat (bytes_4_7 h))"

definition store_header :: "uint8 list \<Rightarrow> VarBlockHeader \<Rightarrow> uint8 list result" where
  "store_header buf h = mem_write buf 0 (header_image h)"

text \<open>Lengths are rounded up to an even number.\<close>

definition even_up :: "int \<Rightarrow> int" where
  "even_up n = c_div (c_int (n + 1)) 2 * 2"

section \<open>Making a block\<close>

text \<open>Pointers into the buffer are offsets from its start.\<close>

record VarBlockMaker =
  header_buffer :: "uint8 list"
  maxBufferLen :: int
  currentItemLenSum :: int
  tempScratchSpace :: "uint8 list"
  tempScratchSpaceLen :: int
  nextItemPtr :: int
  last2ByteOffsetPtr :: int
  currentItemCount :: int
  maxItemCount :: int

definition VarBlockMakerInit :: "uint8 list \<Rightarrow> int \<Rightarrow> uint8 list \<Rightarrow> int \<Rightarrow> VarBlockMaker result" where
  "VarBlockMakerInit buf maxLen scratch scratchLen =
     bindE (mem_write buf 0 (replicate (nat VARBLOCK_HEADER_LEN) 0)) (\<lambda>b0.
     bindE (load_header b0) (\<lambda>h.
     bindE (store_header b0 (VarBlockSet_offsetsAreSmall (VarBlockSet_version h InitialVersion) True)) (\<lambda>b1.
       Inr \<lparr>header_buffer = b1, maxBufferLen = maxLen, currentItemLenSum = 0,
            tempScratchSpace = scratch, tempScratchSpaceLen = scratchLen,
            nextItemPtr = VARBLOCK_HEADER_LEN, last2ByteOffsetPtr = 63 * 1024,
            currentItemCount = 0, maxItemCount = c_div scratchLen 2\<rparr>)))"

text \<open>The move from 2-byte to 3-byte offsets, in place and from the last offset to the first.\<close>

definition widen_offset :: "nat \<Rightarrow> uint8 list \<Rightarrow> uint8 list result" where
  "widen_offset r scratch =
     bindE (mem_read scratch (int r * 2) 2) (\<lambda>bs.
       mem_write scratch (int r * VARBLOCK_BYTE_OFFSET_24_LEN) (le_bytes 3 (le_nat bs)))"

fun widen_loop :: "nat \<Rightarrow> uint8 list \<Rightarrow> uint8 list result" where
  "widen_loop 0 scratch = widen_offset 0 scratch"
| "widen_loop (Suc r) scratch = bindE (widen_offset (Suc r) scratch) (widen_loop r)"

definition VarBlockMakerGetNextItemPtr :: "VarBlockMaker \<Rightarrow> int \<Rightarrow> (int option \<times> VarBlockMaker) result" where
  "VarBlockMakerGetNextItemPtr m itemLen =
     (let count = currentItemCount m;
          ptr = nextItemPtr m;
          newItemLenSum = c_int (currentItemLenSum m + itemLen);
          largeTotalLen = c_int (VARBLOCK_HEADER_LEN + even_up newItemLenSum + even_up (c_int ((count + 1) * VARBLOCK_BYTE_OFFSET_24_LEN)));
          smallTotalLen = c_int (VARBLOCK_HEADER_LEN + even_up newItemLenSum + count * 2 + 2);
          offset24 = le_bytes 3 (nat (ptr mod 2 ^ 24));
          offset16 = le_bytes 2 (nat (ptr mod 2 ^ 16));
          done_with = (\<lambda>m1. Inr (Some ptr, m1\<lparr>nextItemPtr := ptr + itemLen, currentItemCount := count + 1,
                                            currentItemLenSum := newItemLenSum\<rparr>))
      in if count \<ge> maxItemCount m then Inr (None, m)
         else
           bindE (load_header (header_buffer m)) (\<lambda>h.
           if VarBlockGet_offsetsAreSmall h \<noteq> 0 then
             if ptr > last2ByteOffsetPtr m then
               if largeTotalLen > maxBufferLen m then Inr (None, m)
               else
                 let newMaxItemCount = c_div (tempScratchSpaceLen m) VARBLOCK_BYTE_OFFSET_24_LEN in
                 if count \<ge> newMaxItemCount then Inr (None, m)
                 else
                   bindE (store_header (header_buffer m) (VarBlockSet_offsetsAreSmall h False)) (\<lambda>b.
                   bindE (widen_loop (nat count) (tempScratchSpace m)) (\<lambda>s.
                   bindE (mem_write s (count * VARBLOCK_BYTE_OFFSET_24_LEN) offset24) (\<lambda>s1.
                     done_with (m\<lparr>header_buffer := b, tempScratchSpace := s1, maxItemCount := newMaxItemCount\<rparr>))))
             else
               if smallTotalLen > maxBufferLen m then Inr (None, m)
               else bindE (mem_write (tempScratchSpace m) (count * 2) offset16) (\<lambda>s1. done_with (m\<lparr>tempScratchSpace := s1\<rparr>))
           else
             if largeTotalLen > maxBufferLen m then Inr (None, m)
             else
               bindE (mem_write (tempScratchSpace m) (count * VARBLOCK_BYTE_OFFSET_24_LEN) offset24) (\<lambda>s1.
                 done_with (m\<lparr>tempScratchSpace := s1\<rparr>))))"

definition VarBlockMakerItemCount :: "VarBlockMaker \<Rightarrow> int" where
  "VarBlockMakerItemCount m = currentItemCount m"

definition VarBlockMakerFinish :: "VarBlockMaker \<Rightarrow> (int \<times> VarBlockMaker) result" where
  "VarBlockMakerFinish m =
     (let itemCount = currentItemCount m;
          itemLenSum = currentItemLenSum m;
          offsetToOffsetArray = c_int (VARBLOCK_HEADER_LEN + even_up itemLenSum);
          itemsEnd = VARBLOCK_HEADER_LEN + itemLenSum
      in bindE (load_header (header_buffer m)) (\<lambda>h.
         let multiplier = (if VarBlockGet_offsetsAreSmall h \<noteq> 0 then 2 else VARBLOCK_BYTE_OFFSET_24_LEN);
             offsetArrayLen = c_int (itemCount * multiplier);
             offsetArrayLenRounded = even_up offsetArrayLen
         in bindE (mem_read (tempScratchSpace m) 0 (itemCount * multiplier)) (\<lambda>offsets.
            bindE (mem_write (header_buffer m) offsetToOffsetArray offsets) (\<lambda>b1.
            bindE (mem_write b1 itemsEnd (replicate (nat (offsetToOffsetArray - itemsEnd)) 0)) (\<lambda>b2.
            bindE (load_header b2) (\<lambda>h2.
            bindE (store_header b2 (VarBlockSet_itemCount (VarBlockSet_itemLenSum h2 (word_of_int itemLenSum)) (word_of_int itemCount))) (\<lambda>b3.
            bindE (mem_write b3 (offsetToOffsetArray + offsetArrayLen) (replicate (nat (offsetArrayLenRounded - offsetArrayLen)) 0)) (\<lambda>b4.
              Inr (c_int (offsetToOffsetArray + offsetArrayLenRounded), m\<lparr>header_buffer := b4\<rparr>)))))))))"

section \<open>Checking a block\<close>

definition VarBlockGetOffset :: "uint8 list \<Rightarrow> int \<Rightarrow> int \<Rightarrow> int result" where
  "VarBlockGetOffset buf offsetToOffsetArray itemIndex =
     bindE (load_header buf) (\<lambda>h.
     if VarBlockGet_offsetsAreSmall h \<noteq> 0
     then bindE (mem_read buf (offsetToOffsetArray + itemIndex * 2) 2) (\<lambda>bs. Inr (int (le_nat bs)))
     else bindE (mem_read buf (offsetToOffsetArray + itemIndex * VARBLOCK_BYTE_OFFSET_24_LEN) VARBLOCK_BYTE_OFFSET_24_LEN)
            (\<lambda>bs. Inr (int (le_nat bs))))"

datatype VarBlockCheckError =
    VarBlockCheckOk
  | VarBlockCheckBadVersion
  | VarBlockCheckReservedNot0
  | VarBlockCheckMoreReservedNot0
  | VarBlockCheckItemSumLenBad1
  | VarBlockCheckItemSumLenBad2
  | VarBlockCheckZeroPadBad1
  | VarBlockCheckZeroPadBad2
  | VarBlockCheckItemCountBad1
  | VarBlockCheckItemCountBad2
  | VarBlockCheckOffsetBad1
  | VarBlockCheckOffsetBad2
  | VarBlockCheckOffsetBad3

definition MAX_VARBLOCK_CHECK_ERROR_STR :: nat where
  "MAX_VARBLOCK_CHECK_ERROR_STR = 200"

text \<open>
  A check returns its verdict with the contents of \<^verbatim>\<open>VarBlockCheckErrorStr\<close>, which it is given.  All messages end
  with the two words of the header.
\<close>

definition header_words :: "VarBlockHeader \<Rightarrow> string" where
  "header_words h = '' (bytes_0_3 0x'' @ fmt_x8 (bytes_0_3 h) @ '', bytes_4_7 0x'' @ fmt_x8 (bytes_4_7 h) @ '')''"

definition VarBlockGetCheckErrorStr :: "string \<Rightarrow> string" where
  "VarBlockGetCheckErrorStr str = str"

definition VarBlockHeaderIsValid :: "uint8 list \<Rightarrow> string \<Rightarrow> (VarBlockCheckError \<times> string) result" where
  "VarBlockHeaderIsValid buf str =
     bindE (load_header buf) (\<lambda>h.
     if VarBlockGet_version h \<noteq> InitialVersion then
       Inr (VarBlockCheckBadVersion, ''Invalid initial version '' @ fmt_d (uint (VarBlockGet_version h)) @ header_words h)
     else if VarBlockGet_reserved h \<noteq> 0 then Inr (VarBlockCheckReservedNot0, ''Reserved not 0'' @ header_words h)
     else if VarBlockGet_moreReserved h \<noteq> 0 then
       Inr (VarBlockCheckMoreReservedNot0, ''More reserved not 0'' @ header_words h)
     else Inr (VarBlockCheckOk, str))"

text \<open>The loops that verify zero padding return the offset of the first other byte.\<close>

fun zero_pad_loop :: "uint8 list \<Rightarrow> int \<Rightarrow> nat \<Rightarrow> int option result" where
  "zero_pad_loop buf z 0 = Inr None"
| "zero_pad_loop buf z (Suc n) =
     bindE (mem_read buf z 1) (\<lambda>bs. if bs \<noteq> [0] then Inr (Some z) else zero_pad_loop buf (z + 1) n)"

text \<open>The loop over the offsets after the first, of which \<open>n\<close> are left.\<close>

fun offset_loop :: "VarBlockHeader \<Rightarrow> uint8 list \<Rightarrow> int \<Rightarrow> int \<Rightarrow> int \<Rightarrow> int \<Rightarrow> nat \<Rightarrow> (VarBlockCheckError \<times> string) option result" where
  "offset_loop h buf arr itemLenSum prevOffset i 0 = Inr None"
| "offset_loop h buf arr itemLenSum prevOffset i (Suc n) =
     bindE (VarBlockGetOffset buf arr i) (\<lambda>offset.
     if offset < prevOffset then
       Inr (Some (VarBlockCheckOffsetBad2, ''offset '' @ fmt_d offset @ '' at index '' @ fmt_d i @
         '' is bad -- less than previous offset '' @ fmt_d prevOffset @ header_words h))
     else if offset > itemLenSum + VARBLOCK_HEADER_LEN then
       Inr (Some (VarBlockCheckOffsetBad3, ''offset '' @ fmt_d offset @ '' at index '' @ fmt_d i @
         '' is bad -- greater than itemLenSum and header '' @ fmt_d (itemLenSum + VARBLOCK_HEADER_LEN) @ header_words h))
     else offset_loop h buf arr itemLenSum offset (i + 1) n)"

text \<open>The last part of \<^verbatim>\<open>VarBlockIsValid\<close>: the offset array of a block with items.\<close>

definition check_offset_array ::
  "VarBlockHeader \<Rightarrow> uint8 list \<Rightarrow> int \<Rightarrow> int \<Rightarrow> int \<Rightarrow> int \<Rightarrow> string \<Rightarrow> (VarBlockCheckError \<times> string) result" where
  "check_offset_array h buf bufferLen itemLenSum arr itemCount str =
     (let multiplier = (if VarBlockGet_offsetsAreSmall h \<noteq> 0 then 2 else VARBLOCK_BYTE_OFFSET_24_LEN);
          actual = bufferLen - arr;
          calculated = itemCount * multiplier;
          rounded = even_up calculated
      in if actual \<noteq> rounded then
           Inr (VarBlockCheckItemCountBad2, ''actual OffsetArray length '' @ fmt_d actual @
             '' should equal calculated OffsetArray length '' @ fmt_d rounded @ '' for itemCount '' @ fmt_d itemCount @ header_words h)
         else
           bindE (VarBlockGetOffset buf arr 0) (\<lambda>offset.
           if offset \<noteq> VARBLOCK_HEADER_LEN then
             Inr (VarBlockCheckOffsetBad1, ''offset '' @ fmt_d offset @ '' at index 0 is bad -- must equal '' @
               fmt_d VARBLOCK_HEADER_LEN @ header_words h)
           else
             bindE (offset_loop h buf arr itemLenSum offset 1 (nat (itemCount - 1))) (\<lambda>bad.
             case bad of
               Some err \<Rightarrow> Inr err
             | None \<Rightarrow>
                 bindE (zero_pad_loop buf (arr + calculated) (nat (rounded - calculated))) (\<lambda>nz.
                 case nz of
                   Some z \<Rightarrow> Inr (VarBlockCheckZeroPadBad2, ''Bad zero pad at offset '' @ fmt_d z @
                     '' between last offset and the rounded-up end of buffer'' @ header_words h)
                 | None \<Rightarrow> Inr (VarBlockCheckOk, str)))))"

definition VarBlockIsValid :: "uint8 list \<Rightarrow> int \<Rightarrow> string \<Rightarrow> (VarBlockCheckError \<times> string) result" where
  "VarBlockIsValid buf bufferLen str =
     bindE (VarBlockHeaderIsValid buf str) (\<lambda>(err, str1).
     if err \<noteq> VarBlockCheckOk then Inr (err, str1)
     else
       bindE (load_header buf) (\<lambda>h.
       let itemLenSum = uint (VarBlockGet_itemLenSum h);
           arr = VARBLOCK_HEADER_LEN + even_up itemLenSum;
           itemCount = uint (VarBlockGet_itemCount h)
       in if itemLenSum \<ge> bufferLen then
            Inr (VarBlockCheckItemSumLenBad1, ''itemLenSum '' @ fmt_d itemLenSum @
              '' greater than or equal to bufferLen '' @ fmt_d bufferLen @ header_words h)
          else if arr > bufferLen then
            Inr (VarBlockCheckItemSumLenBad2, ''offsetToOffsetArray '' @ fmt_d arr @
              '' greater than bufferLen '' @ fmt_d bufferLen @ header_words h)
          else
            bindE (zero_pad_loop buf (VARBLOCK_HEADER_LEN + itemLenSum) (nat (arr - (VARBLOCK_HEADER_LEN + itemLenSum)))) (\<lambda>nz.
            case nz of
              Some z \<Rightarrow> Inr (VarBlockCheckZeroPadBad1, ''Bad zero pad at offset '' @ fmt_d z @
                '' between items and offset array'' @ header_words h)
            | None \<Rightarrow>
                if itemCount = 0 then
                  if arr \<noteq> bufferLen then
                    Inr (VarBlockCheckItemCountBad1, ''offsetToOffsetArray '' @ fmt_d arr @
                      '' should equal bufferLen '' @ fmt_d bufferLen @ '' for itemCount 0'' @ header_words h)
                  else Inr (VarBlockCheckOk, str1)
                else check_offset_array h buf bufferLen itemLenSum arr itemCount str1)))"

section \<open>Reading a block\<close>

record VarBlockReader =
  rd_header :: "uint8 list"
  rd_bufferLen :: int
  rd_nextIndex :: int
  rd_nextItemPtr :: int
  offsetToOffsetArray :: int

definition VarBlockReaderInit :: "uint8 list \<Rightarrow> int \<Rightarrow> VarBlockReader result" where
  "VarBlockReaderInit buf bufferLen =
     bindE (load_header buf) (\<lambda>h.
       Inr \<lparr>rd_header = buf, rd_bufferLen = bufferLen, rd_nextIndex = 0, rd_nextItemPtr = VARBLOCK_HEADER_LEN,
            offsetToOffsetArray = VARBLOCK_HEADER_LEN + even_up (uint (VarBlockGet_itemLenSum h))\<rparr>)"

definition VarBlockGetItemLen :: "VarBlockReader \<Rightarrow> int \<Rightarrow> int result" where
  "VarBlockGetItemLen r itemIndex =
     bindE (load_header (rd_header r)) (\<lambda>h.
     bindE (VarBlockGetOffset (rd_header r) (offsetToOffsetArray r) itemIndex) (\<lambda>offset.
     if itemIndex < uint (VarBlockGet_itemCount h) - 1 then
       bindE (VarBlockGetOffset (rd_header r) (offsetToOffsetArray r) (itemIndex + 1)) (\<lambda>nextOffset. Inr (nextOffset - offset))
     else Inr (VARBLOCK_HEADER_LEN + uint (VarBlockGet_itemLenSum h) - offset)))"

definition VarBlockGetItemPtrAndLen :: "VarBlockReader \<Rightarrow> int \<Rightarrow> (int \<times> int) result" where
  "VarBlockGetItemPtrAndLen r itemIndex =
     bindE (load_header (rd_header r)) (\<lambda>h.
     bindE (VarBlockGetOffset (rd_header r) (offsetToOffsetArray r) itemIndex) (\<lambda>offset.
     if itemIndex < uint (VarBlockGet_itemCount h) - 1 then
       bindE (VarBlockGetOffset (rd_header r) (offsetToOffsetArray r) (itemIndex + 1)) (\<lambda>nextOffset.
         Inr (offset, nextOffset - offset))
     else Inr (offset, VARBLOCK_HEADER_LEN + uint (VarBlockGet_itemLenSum h) - offset)))"

definition VarBlockReaderGetNextItemPtr :: "VarBlockReader \<Rightarrow> ((int \<times> int) option \<times> VarBlockReader) result" where
  "VarBlockReaderGetNextItemPtr r =
     bindE (load_header (rd_header r)) (\<lambda>h.
     if rd_nextIndex r \<ge> uint (VarBlockGet_itemCount h) then Inr (None, r)
     else
       bindE (VarBlockGetItemLen r (rd_nextIndex r)) (\<lambda>itemLen.
         Inr (Some (rd_nextItemPtr r, itemLen),
              r\<lparr>rd_nextItemPtr := rd_nextItemPtr r + itemLen, rd_nextIndex := rd_nextIndex r + 1\<rparr>)))"

definition VarBlockReaderItemCount :: "VarBlockReader \<Rightarrow> int result" where
  "VarBlockReaderItemCount r = bindE (load_header (rd_header r)) (\<lambda>h. Inr (uint (VarBlockGet_itemCount h)))"

definition VarBlockReaderGetItemPtr :: "VarBlockReader \<Rightarrow> int \<Rightarrow> (int \<times> int) result" where
  "VarBlockReaderGetItemPtr r itemIndex = VarBlockGetItemPtrAndLen r itemIndex"

definition VarBlockCollapseToSingleItem :: "uint8 list \<Rightarrow> uint8 list \<Rightarrow> int \<Rightarrow> (int \<times> uint8 list) result" where
  "VarBlockCollapseToSingleItem target source sourceLen =
     bindE (VarBlockReaderInit source sourceLen) (\<lambda>r.
     bindE (VarBlockReaderGetItemPtr r 0) (\<lambda>(itemPtr, itemLen).
     bindE (mem_read source itemPtr itemLen) (\<lambda>item.
     bindE (mem_write target 0 item) (\<lambda>t. Inr (itemLen, t)))))"

end
