(* ===== verification/VarBlockFormat.thy ===== *)
theory VarBlockFormat
  imports VarBlock
begin

text \<open>
  The format of the blocks of \<^verbatim>\<open>cdbvarblock.c\<close>.  A list of items determines the bytes of its block.  The maker produces these
  bytes from the items that fit, the reader gives the items back, and the check accepts exactly such blocks.
\<close>

section \<open>The fields of a header\<close>

text \<open>The header of a block with items of \<open>a\<close> bytes, \<open>b\<close> in number.\<close>

definition hdr :: "bool \<Rightarrow> nat \<Rightarrow> nat \<Rightarrow> VarBlockHeader" where
  "hdr s a b = \<lparr>bytes_0_3 = (if s then 0x81000000 else 0x01000000) OR take_bit 24 (of_nat a), bytes_4_7 = take_bit 24 (of_nat b)\<rparr>"

lemma and_mask24: "x AND 0x00FFFFFF = take_bit 24 (x :: uint32)" "0x00FFFFFF AND x = take_bit 24 (x :: uint32)"
  by (simp_all add: take_bit_eq_mask mask_eq_exp_minus_1 and.commute)

lemma low_and_high: "m AND mask 24 = 0 \<Longrightarrow> take_bit 24 x AND m = (0 :: uint32)"
  by (simp only: take_bit_eq_mask and.assoc and.commute [of "mask 24" m] and_zero_eq)

lemma low_drop: "24 \<le> n \<Longrightarrow> drop_bit n (take_bit 24 x) = (0 :: uint32)"
  by (rule bit_word_eqI) (simp add: bit_drop_bit_eq bit_take_bit_iff)

lemma hdr_get [simp]:
  "VarBlockGet_offsetsAreSmall (hdr s a b) = (if s then 1 else 0)"
  "VarBlockGet_version (hdr s a b) = InitialVersion" "VarBlockGet_reserved (hdr s a b) = 0"
  "VarBlockGet_moreReserved (hdr s a b) = 0"
proof -
  have m: "(0x03000000 :: uint32) AND mask 24 = 0" "(0x7C000000 :: uint32) AND mask 24 = 0" "(0xFF000000 :: uint32) AND mask 24 = 0"
    by (simp_all add: mask_eq_exp_minus_1)
  show "VarBlockGet_offsetsAreSmall (hdr s a b) = (if s then 1 else 0)"
    by (simp add: VarBlockGet_offsetsAreSmall_def hdr_def drop_bit_or low_drop)
  show "VarBlockGet_version (hdr s a b) = InitialVersion"
    by (simp add: VarBlockGet_version_def hdr_def InitialVersion_def bit.conj_disj_distrib2 low_and_high m)
  show "VarBlockGet_reserved (hdr s a b) = 0"
    by (simp add: VarBlockGet_reserved_def hdr_def bit.conj_disj_distrib2 low_and_high m)
  show "VarBlockGet_moreReserved (hdr s a b) = 0"
    by (simp add: VarBlockGet_moreReserved_def hdr_def low_and_high m)
qed

lemma hdr_counts:
  "a < 2 ^ 24 \<Longrightarrow> uint (VarBlockGet_itemLenSum (hdr s a b)) = int a"
  "b < 2 ^ 24 \<Longrightarrow> uint (VarBlockGet_itemCount (hdr s a b)) = int b"
proof -
  have small: "uint (take_bit 24 (of_nat n) :: uint32) = int n" if "n < 2 ^ 24" for n
    unfolding unsigned_take_bit_eq uint_nat unat_of_nat using that by (simp add: take_bit_eq_mod)
  have "take_bit 24 (0x81000000 :: uint32) = 0" "take_bit 24 (0x01000000 :: uint32) = 0" by (simp_all add: take_bit_eq_mod)
  then show "a < 2 ^ 24 \<Longrightarrow> uint (VarBlockGet_itemLenSum (hdr s a b)) = int a"
    by (simp add: VarBlockGet_itemLenSum_def hdr_def and_mask24 small)
  show "b < 2 ^ 24 \<Longrightarrow> uint (VarBlockGet_itemCount (hdr s a b)) = int b"
    by (simp add: VarBlockGet_itemCount_def hdr_def and_mask24 small)
qed

lemma hdr_set:
  "VarBlockSet_offsetsAreSmall (VarBlockSet_version \<lparr>bytes_0_3 = 0, bytes_4_7 = 0\<rparr> InitialVersion) True = hdr True 0 0"
  "VarBlockSet_offsetsAreSmall (hdr True 0 0) False = hdr False 0 0"
  "VarBlockSet_itemCount (VarBlockSet_itemLenSum (hdr s 0 0) (word_of_int (int a))) (word_of_int (int b)) = hdr s a b"
  by (simp_all add: VarBlockSet_offsetsAreSmall_def VarBlockSet_version_def InitialVersion_def hdr_def push_bit_eq_mult
      VarBlockSet_itemCount_def VarBlockSet_itemLenSum_def and_mask24)

lemma length_header_image [simp]: "length (header_image h) = 8"
  by (simp add: header_image_def)

lemma load_header_image [simp]: "load_header (header_image h @ rest) = Inr h"
proof -
  have "unat (w :: uint32) mod 256 ^ 4 = unat w" for w using unsigned_less [of w, where ?'a = nat] by simp
  then show ?thesis by (simp add: load_header_def mem_read_def header_image_def le_nat_bytes)
qed

lemma store_header_image [simp]: "store_header (header_image g @ rest) h = Inr (header_image h @ rest)"
  by (simp add: store_header_def mem_write_def put_bytes_in)

lemma load_header_ok: "8 \<le> length buf \<Longrightarrow> \<exists>h. load_header buf = Inr h"
  by (simp add: load_header_def mem_read_def)

lemma field_less: "unat (VarBlockGet_itemLenSum h) < 2 ^ 24" "unat (VarBlockGet_itemCount h) < 2 ^ 24"
  unfolding VarBlockGet_itemLenSum_def VarBlockGet_itemCount_def and_mask24 unsigned_take_bit_eq
  by (rule take_bit_nat_less_exp)+

text \<open>Rounding.\<close>

definition round2 :: "nat \<Rightarrow> nat" where
  "round2 n = (n + 1) div 2 * 2"

lemma round2_bounds: "n \<le> round2 n" "round2 n \<le> n + 1"
  by (simp_all add: round2_def)

lemma round2_0 [simp]: "round2 0 = 0"
  by (simp add: round2_def)

lemma even_up_nat: "n < 2 ^ 31 - 1 \<Longrightarrow> even_up (int n) = int (round2 n)"
  by (simp add: even_up_def c_int_small c_div_def round2_def zdiv_int)

lemma c_int_nat: "n < 2 ^ 31 \<Longrightarrow> c_int (int n) = int n"
  by (simp add: c_int_small)

section \<open>The format of a block\<close>

text \<open>
  A list of items determines its block.  The width of an offset depends on where the last item starts.  The items that go
  into a block are those that fit when they come.
\<close>

definition items_end :: "uint8 list list \<Rightarrow> nat" where
  "items_end xs = 8 + length (concat xs)"

definition small :: "uint8 list list \<Rightarrow> bool" where
  "small xs \<longleftrightarrow> xs = [] \<or> items_end (butlast xs) \<le> 64512"

definition wd :: "bool \<Rightarrow> nat" where
  "wd s = (if s then 2 else 3)"

abbreviation width :: "uint8 list list \<Rightarrow> nat" where
  "width xs \<equiv> wd (small xs)"

definition block_len :: "uint8 list list \<Rightarrow> nat" where
  "block_len xs = 8 + round2 (length (concat xs)) + round2 (length xs * width xs)"

definition fits :: "nat \<Rightarrow> nat \<Rightarrow> uint8 list list \<Rightarrow> bool" where
  "fits maxLen scratchLen xs \<longleftrightarrow> block_len xs \<le> maxLen \<and> length xs * width xs \<le> scratchLen"

definition offsets :: "uint8 list list \<Rightarrow> nat list" where
  "offsets xs = map (\<lambda>i. items_end (take i xs)) [0..<length xs]"

definition offset_array :: "nat \<Rightarrow> uint8 list list \<Rightarrow> uint8 list" where
  "offset_array w xs = concat (map (le_bytes w) (offsets xs))"

definition block_with :: "bool \<Rightarrow> uint8 list \<Rightarrow> uint8 list list \<Rightarrow> uint8 list" where
  "block_with s bs xs = header_image (hdr s (length bs) (length xs)) @ bs @ replicate (round2 (length bs) - length bs) 0 @
     offset_array (wd s) xs @ replicate (round2 (length xs * wd s) - length xs * wd s) 0"

fun pack :: "nat \<Rightarrow> nat \<Rightarrow> uint8 list list \<Rightarrow> uint8 list list \<Rightarrow> uint8 list list" where
  "pack maxLen scratchLen xs [] = xs"
| "pack maxLen scratchLen xs (y # ys) =
     pack maxLen scratchLen (if fits maxLen scratchLen (xs @ [y]) then xs @ [y] else xs) ys"

lemma offsets_snoc: "offsets (xs @ [x]) = offsets xs @ [items_end xs]"
  by (simp add: offsets_def)

lemma length_offsets [simp]: "length (offsets xs) = length xs"
  by (simp add: offsets_def)

lemma length_offset_array [simp]: "length (offset_array w xs) = length xs * w"
  by (simp add: offset_array_def length_concat comp_def sum_list_triv)

lemma offset_array_snoc: "offset_array w (xs @ [x]) = offset_array w xs @ le_bytes w (items_end xs)"
  by (simp add: offset_array_def offsets_snoc)

lemma length_block_with: "length (block_with s bs xs) = 8 + round2 (length bs) + round2 (length xs * wd s)"
  using round2_bounds(1) [of "length bs"] round2_bounds(1) [of "length xs * wd s"] by (simp add: block_with_def)

lemma small_snoc: "small (xs @ [x]) \<longleftrightarrow> items_end xs \<le> 64512"
  by (simp add: small_def)

lemma small_before: "items_end xs \<le> 64512 \<Longrightarrow> small xs"
proof (cases xs rule: rev_cases)
  case (snoc ys y)
  assume "items_end xs \<le> 64512"
  with snoc show ?thesis by (simp add: small_def items_end_def)
qed (simp add: small_def)

lemma fits_bounds:
  assumes "fits maxLen scratchLen xs" and "maxLen \<le> 2 ^ 24"
  shows "items_end xs \<le> maxLen" "length (concat xs) < 2 ^ 24" "length xs < 2 ^ 23"
proof -
  have "length xs * 2 \<le> length xs * width xs" by (simp add: wd_def)
  moreover have "block_len xs \<le> maxLen" using assms(1) by (simp add: fits_def)
  moreover have "(2 :: nat) ^ 24 = 2 * 2 ^ 23" by simp
  moreover note round2_bounds(1) [of "length (concat xs)"] round2_bounds(1) [of "length xs * width xs"]
  ultimately show "items_end xs \<le> maxLen" "length (concat xs) < 2 ^ 24" "length xs < 2 ^ 23"
    using assms(2) unfolding block_len_def items_end_def by linarith+
qed

lemma items_end_take: "items_end (take i xs) \<le> items_end xs"
proof -
  have "length (concat xs) = length (concat (take i xs)) + length (concat (drop i xs))"
    by (metis append_take_drop_id concat_append length_append)
  then show ?thesis by (simp add: items_end_def)
qed

lemma offsets_le: "o1 \<in> set (offsets xs) \<Longrightarrow> o1 \<le> items_end xs"
  using items_end_take by (auto simp: offsets_def)

lemma offsets_small:
  assumes "small xs" and "o1 \<in> set (offsets xs)"
  shows "o1 \<le> 64512"
proof (cases xs rule: rev_cases)
  case (snoc ys y)
  with assms offsets_le [of o1 ys] show ?thesis by (auto simp: offsets_snoc small_def)
qed (use assms in \<open>simp add: offsets_def\<close>)

section \<open>Widening the offsets\<close>

lemma widen_offset_cell:
  assumes "r * 3 + 3 \<le> length s"
  shows "widen_offset r s = Inr (put_bytes s (r * 3) (le_bytes 3 (le_nat (take 2 (drop (r * 2) s)))))"
  using assms by (simp add: widen_offset_def mem_read_def mem_write_def VARBLOCK_BYTE_OFFSET_24_LEN_def nat_mult_distrib)

lemma put_bytes_cell:
  assumes "off + length bs \<le> length s"
  shows "take w (drop off (put_bytes s off bs)) = take w (bs @ drop (off + length bs) s)"
    "p + n \<le> off \<Longrightarrow> take n (drop p (put_bytes s off bs)) = take n (drop p s)"
    "drop (off + length bs) (put_bytes s off bs) = drop (off + length bs) s"
proof -
  let ?as = "take off s @ bs" and ?cs = "drop (off + length bs) s"
  have len: "length ?as = off + length bs" and put: "put_bytes s off bs = ?as @ ?cs" using assms by (simp_all add: put_bytes_in)
  show "take w (drop off (put_bytes s off bs)) = take w (bs @ ?cs)" using assms by (simp add: put_bytes_in)
  show "drop (off + length bs) (put_bytes s off bs) = ?cs" unfolding put len [symmetric] by simp
  show "take n (drop p (put_bytes s off bs)) = take n (drop p s)" if "p + n \<le> off"
    using assms that by (simp add: put_bytes_in take_drop)
qed

lemma widen_loop_cells:
  "r * 3 + 3 \<le> length s \<Longrightarrow> \<exists>t. widen_loop r s = Inr t \<and> length t = length s \<and> drop (r * 3 + 3) t = drop (r * 3 + 3) s \<and>
     (\<forall>k \<le> r. take 3 (drop (k * 3) t) = le_bytes 3 (le_nat (take 2 (drop (k * 2) s))))"
proof (induction r arbitrary: s)
  case 0
  then show ?case using put_bytes_cell [of 0 "le_bytes 3 (le_nat (take 2 s))" s] widen_offset_cell [of 0 s] by (simp add: length_put_bytes)
next
  case (Suc r)
  let ?b = "le_bytes 3 (le_nat (take 2 (drop (Suc r * 2) s)))"
  define s1 where "s1 = put_bytes s (Suc r * 3) ?b"
  have w: "widen_offset (Suc r) s = Inr s1" unfolding s1_def using Suc.prems by (intro widen_offset_cell) simp
  have s1: "length s1 = length s" "take 3 (drop (Suc r * 3) s1) = ?b" "drop (Suc r * 3 + 3) s1 = drop (Suc r * 3 + 3) s"
    "\<And>k. k \<le> r \<Longrightarrow> take 2 (drop (k * 2) s1) = take 2 (drop (k * 2) s)"
    using Suc.prems put_bytes_cell [of "Suc r * 3" ?b s] by (simp_all add: s1_def length_put_bytes)
  have "r * 3 + 3 \<le> length s1" using Suc.prems s1(1) by simp
  from Suc.IH [OF this] obtain t where
    t: "widen_loop r s1 = Inr t" "length t = length s1" "drop (r * 3 + 3) t = drop (r * 3 + 3) s1"
      "\<forall>k \<le> r. take 3 (drop (k * 3) t) = le_bytes 3 (le_nat (take 2 (drop (k * 2) s1)))" by blast
  have "drop (Suc r * 3 + 3) t = drop 3 (drop (r * 3 + 3) t)" by (simp add: add.commute)
  also have "\<dots> = drop (Suc r * 3 + 3) s" using t(3) s1(3) by (simp add: add.commute)
  finally have d: "drop (Suc r * 3 + 3) t = drop (Suc r * 3 + 3) s" .
  have last: "take 3 (drop (Suc r * 3) t) = ?b" using t(3) s1(2) by (simp add: add.commute)
  have "take 3 (drop (k * 3) t) = le_bytes 3 (le_nat (take 2 (drop (k * 2) s)))" if "k \<le> Suc r" for k
    using that t(4) s1(4) last by (cases "k = Suc r") auto
  with w t(1,2) s1(1) d show ?case by simp
qed

lemma widen_offset_array:
  assumes "s = offset_array 2 xs @ junk" and "length xs * 3 + 3 \<le> length s" and "list_all (\<lambda>p. p < 2 ^ 16) (offsets xs)"
  shows "\<exists>junk'. widen_loop (length xs) s = Inr (offset_array 3 xs @ junk') \<and> length (offset_array 3 xs @ junk') = length s"
proof -
  from widen_loop_cells [OF assms(2)] obtain t where
    t: "widen_loop (length xs) s = Inr t" "length t = length s"
      "\<forall>k \<le> length xs. take 3 (drop (k * 3) t) = le_bytes 3 (le_nat (take 2 (drop (k * 2) s)))" by blast
  have "take 3 (drop (k * 3) t) = le_bytes 3 (offsets xs ! k)" if k: "k < length xs" for k
  proof -
    have "take 2 (drop (k * 2) s) = le_bytes 2 (offsets xs ! k)"
      unfolding assms(1) offset_array_def using k by (intro cell_concat) (auto simp: list_all_iff)
    moreover have "offsets xs ! k < 2 ^ 16" using assms(3) k by (simp add: list_all_length)
    ultimately show ?thesis using t(3) k by (simp add: le_nat_bytes)
  qed
  then have "take (length xs * 3) t = concat (map (\<lambda>k. le_bytes 3 (offsets xs ! k)) [0..<length xs])"
    using assms(2) t(2) by (intro cells_concat) auto
  also have "\<dots> = offset_array 3 xs"
    unfolding offset_array_def by (intro arg_cong [where f = concat] nth_equalityI) simp_all
  finally have "t = offset_array 3 xs @ drop (length xs * 3) t" using append_take_drop_id [of "length xs * 3" t] by simp
  with t(1,2) show ?thesis by (intro exI [of _ "drop (length xs * 3) t"]) simp
qed

section \<open>Making a block\<close>

text \<open>The state of a maker that has handed out space for the items \<open>xs\<close>, of which the bytes \<open>bs\<close> are filled in.\<close>

definition maker_state :: "nat \<Rightarrow> nat \<Rightarrow> uint8 list \<Rightarrow> uint8 list list \<Rightarrow> VarBlockMaker \<Rightarrow> bool" where
  "maker_state maxLen scratchLen bs xs m \<longleftrightarrow>
     (\<exists>rest. header_buffer m = header_image (hdr (small xs) 0 0) @ bs @ rest) \<and> maxLen \<le> length (header_buffer m) \<and>
     (\<exists>junk. tempScratchSpace m = offset_array (width xs) xs @ junk) \<and> length (tempScratchSpace m) = scratchLen \<and>
     maxBufferLen m = int maxLen \<and> currentItemLenSum m = int (length (concat xs)) \<and> tempScratchSpaceLen m = int scratchLen \<and>
     nextItemPtr m = int (items_end xs) \<and> last2ByteOffsetPtr m = 64512 \<and> currentItemCount m = int (length xs) \<and>
     maxItemCount m = int (scratchLen div width xs) \<and> fits maxLen scratchLen xs"

abbreviation maker_ok :: "nat \<Rightarrow> nat \<Rightarrow> uint8 list list \<Rightarrow> VarBlockMaker \<Rightarrow> bool" where
  "maker_ok maxLen scratchLen xs \<equiv> maker_state maxLen scratchLen (concat xs) xs"

lemma MakerInit_ok:
  assumes "8 \<le> maxLen" and "maxLen \<le> length buf"
  shows "\<exists>m. VarBlockMakerInit buf (int maxLen) scratch (int (length scratch)) = Inr m \<and> maker_ok maxLen (length scratch) [] m"
proof -
  define zs where "zs = header_image \<lparr>bytes_0_3 = 0, bytes_4_7 = 0\<rparr>"
  have zs: "replicate 8 0 = zs" by (simp add: zs_def header_image_def le_bytes_def numeral_eq_Suc)
  have "mem_write buf 0 (replicate (nat VARBLOCK_HEADER_LEN) 0) = Inr (zs @ drop 8 buf)"
    using assms by (simp add: mem_write_def put_bytes_in VARBLOCK_HEADER_LEN_def zs) (simp add: zs_def)
  with assms show ?thesis
    by (simp add: VarBlockMakerInit_def zs_def hdr_set(1) maker_state_def small_def wd_def offset_array_def offsets_def
        items_end_def VARBLOCK_HEADER_LEN_def c_div_def zdiv_int fits_def block_len_def round2_def)
qed

lemma cell_write:
  assumes "s = offset_array w xs @ junk" and "length xs * w + w \<le> length s"
  shows "\<exists>junk'. mem_write s (int (length xs) * int w) (le_bytes w (items_end xs)) = Inr (offset_array w (xs @ [x]) @ junk') \<and>
    length (offset_array w (xs @ [x]) @ junk') = length s"
proof -
  have "mem_write (offset_array w xs @ junk) (int (length xs) * int w) (le_bytes w (items_end xs)) =
      Inr (offset_array w xs @ le_bytes w (items_end xs) @ drop w junk)"
    using mem_write_at [of "int (length xs) * int w" "offset_array w xs" "le_bytes w (items_end xs)" junk] assms by simp
  with assms show ?thesis by (intro exI [of _ "drop w junk"]) (simp add: offset_array_snoc)
qed

text \<open>Writing an item into the space that the maker has handed out.\<close>

lemma item_write:
  assumes "maker_state maxLen scratchLen (concat xs) (xs @ [y]) m"
  shows "\<exists>b. mem_write (header_buffer m) (int (items_end xs)) y = Inr b \<and> maker_ok maxLen scratchLen (xs @ [y]) (m\<lparr>header_buffer := b\<rparr>)"
proof -
  let ?h = "header_image (hdr (small (xs @ [y])) 0 0)"
  from assms obtain rest where r: "header_buffer m = ?h @ concat xs @ rest" by (auto simp: maker_state_def)
  have "items_end (xs @ [y]) \<le> length (header_buffer m)"
    using assms round2_bounds(1) [of "length (concat (xs @ [y]))"]
    unfolding maker_state_def fits_def block_len_def items_end_def by linarith
  then have "length y \<le> length rest" by (simp add: r items_end_def)
  then have "mem_write ((?h @ concat xs) @ rest) (int (items_end xs)) y = Inr ((?h @ concat xs) @ y @ drop (length y) rest)"
    by (intro mem_write_at) (simp_all add: items_end_def)
  with \<open>length y \<le> length rest\<close> assms r show ?thesis by (simp add: maker_state_def)
qed

lemma total_lens:
  assumes "length (concat xs) < 2 ^ 24" and "length xs < 2 ^ 23" and "length y < 2 ^ 30"
  shows "c_int (VARBLOCK_HEADER_LEN + even_up (c_int (int (length (concat xs)) + int (length y))) +
      even_up (c_int ((int (length xs) + 1) * VARBLOCK_BYTE_OFFSET_24_LEN))) =
      int (8 + round2 (length (concat (xs @ [y]))) + round2 (length (xs @ [y]) * 3))"
    "c_int (VARBLOCK_HEADER_LEN + even_up (c_int (int (length (concat xs)) + int (length y))) + int (length xs) * 2 + 2) =
      int (8 + round2 (length (concat (xs @ [y]))) + round2 (length (xs @ [y]) * 2))"
    "c_int (int (length (concat xs)) + int (length y)) = int (length (concat (xs @ [y])))"
proof -
  let ?n = "length (concat xs) + length y" and ?k = "length xs * 3 + 3"
  have n: "?n < 2 ^ 31 - 1" "?n + 10 < 2 ^ 30 + 2 ^ 24 + 10" and k: "?k < 2 ^ 31 - 1" "?k < 2 ^ 25" using assms by simp_all
  have c: "c_int (int (length (concat xs)) + int (length y)) = int ?n" using c_int_nat [of ?n] n by simp
  have c3: "c_int ((int (length xs) + 1) * VARBLOCK_BYTE_OFFSET_24_LEN) = int ?k"
    using c_int_nat [of ?k] k by (simp add: VARBLOCK_BYTE_OFFSET_24_LEN_def algebra_simps)
  have r: "round2 ?n \<le> ?n + 1" "round2 ?k \<le> ?k + 1" "round2 (length xs * 2 + 2) = length xs * 2 + 2"
    using round2_bounds(2) by (auto simp: round2_def)
  have "c_int (int (8 + round2 ?n + round2 ?k)) = int (8 + round2 ?n + round2 ?k)" using r n k by (intro c_int_nat) simp
  then show "c_int (VARBLOCK_HEADER_LEN + even_up (c_int (int (length (concat xs)) + int (length y))) +
      even_up (c_int ((int (length xs) + 1) * VARBLOCK_BYTE_OFFSET_24_LEN))) =
      int (8 + round2 (length (concat (xs @ [y]))) + round2 (length (xs @ [y]) * 3))"
    unfolding c c3 even_up_nat [OF n(1)] even_up_nat [OF k(1)] by (simp add: VARBLOCK_HEADER_LEN_def add.commute)
  have "c_int (int (8 + round2 ?n + (length xs * 2 + 2))) = int (8 + round2 ?n + (length xs * 2 + 2))"
    using r n assms(2) by (intro c_int_nat) simp
  then show "c_int (VARBLOCK_HEADER_LEN + even_up (c_int (int (length (concat xs)) + int (length y))) + int (length xs) * 2 + 2) =
      int (8 + round2 (length (concat (xs @ [y]))) + round2 (length (xs @ [y]) * 2))"
    unfolding c even_up_nat [OF n(1)] using r(3) by (simp add: VARBLOCK_HEADER_LEN_def algebra_simps)
  show "c_int (int (length (concat xs)) + int (length y)) = int (length (concat (xs @ [y])))" using c by simp
qed

lemma fits_snoc:
  "fits maxLen scratchLen (xs @ [y]) \<longleftrightarrow>
     (if items_end xs \<le> 64512
      then 8 + round2 (length (concat (xs @ [y]))) + round2 (length (xs @ [y]) * 2) \<le> maxLen \<and> length xs < scratchLen div 2
      else 8 + round2 (length (concat (xs @ [y]))) + round2 (length (xs @ [y]) * 3) \<le> maxLen \<and> length xs < scratchLen div 3)"
proof -
  have "length xs < scratchLen div w \<longleftrightarrow> length (xs @ [y]) * w \<le> scratchLen" if "0 < w" for w
    using that less_eq_div_iff_mult_less_eq [of w "Suc (length xs)" scratchLen] by (simp add: Suc_le_eq)
  then show ?thesis by (simp add: fits_def block_len_def small_snoc wd_def)
qed

text \<open>What the maker does, with its arithmetic evaluated.\<close>

lemma GetNext_cases:
  assumes "maker_ok maxLen scratchLen xs m" and "maxLen \<le> 2 ^ 24" and "length y < 2 ^ 30"
  defines "upd \<equiv> \<lambda>m. m\<lparr>nextItemPtr := int (items_end (xs @ [y])), currentItemCount := int (length (xs @ [y])),
    currentItemLenSum := int (length (concat (xs @ [y])))\<rparr>"
  shows "VarBlockMakerGetNextItemPtr m (int (length y)) =
    (if \<not> fits maxLen scratchLen (xs @ [y]) then Inr (None, m)
     else if small (xs @ [y]) then
       bindE (mem_write (tempScratchSpace m) (int (length xs) * 2) (le_bytes 2 (items_end xs))) (\<lambda>s.
         Inr (Some (int (items_end xs)), upd (m\<lparr>tempScratchSpace := s\<rparr>)))
     else if small xs then
       bindE (store_header (header_buffer m) (hdr False 0 0)) (\<lambda>b.
       bindE (widen_loop (length xs) (tempScratchSpace m)) (\<lambda>s.
       bindE (mem_write s (int (length xs) * 3) (le_bytes 3 (items_end xs))) (\<lambda>s1.
         Inr (Some (int (items_end xs)), upd (m\<lparr>header_buffer := b, tempScratchSpace := s1, maxItemCount := int (scratchLen div 3)\<rparr>)))))
     else
       bindE (mem_write (tempScratchSpace m) (int (length xs) * 3) (le_bytes 3 (items_end xs))) (\<lambda>s.
         Inr (Some (int (items_end xs)), upd (m\<lparr>tempScratchSpace := s\<rparr>))))"
proof -
  obtain rest where r: "header_buffer m = header_image (hdr (small xs) 0 0) @ rest" using assms(1) by (auto simp: maker_state_def)
  have b: "length (concat xs) < 2 ^ 24" "length xs < 2 ^ 23" "items_end xs \<le> 2 ^ 24"
    using assms(1,2) fits_bounds [of maxLen scratchLen xs] by (auto simp: maker_state_def)
  have m: "maxBufferLen m = int maxLen" "currentItemLenSum m = int (length (concat xs))" "tempScratchSpaceLen m = int scratchLen"
    "nextItemPtr m = int (items_end xs)" "last2ByteOffsetPtr m = 64512" "currentItemCount m = int (length xs)"
    "maxItemCount m = int (scratchLen div width xs)" using assms(1) by (simp_all add: maker_state_def)
  have div3: "c_div (int scratchLen) VARBLOCK_BYTE_OFFSET_24_LEN = int (scratchLen div 3)"
    by (simp add: c_div_def VARBLOCK_BYTE_OFFSET_24_LEN_def zdiv_int)
  have "nat (int (items_end xs) mod 2 ^ 16) = items_end xs mod 256 ^ 2" "nat (int (items_end xs) mod 2 ^ 24) = items_end xs mod 256 ^ 3"
    by (simp_all add: nat_mod_distrib)
  then have bytes: "le_bytes 2 (nat (int (items_end xs) mod 2 ^ 16)) = le_bytes 2 (items_end xs)"
    "le_bytes 3 (nat (int (items_end xs) mod 2 ^ 24)) = le_bytes 3 (items_end xs)" by (simp_all only: le_bytes_mod)
  have ends: "int (items_end xs) + int (length y) = int (items_end (xs @ [y]))" "int (length xs) + 1 = int (length (xs @ [y]))"
    by (simp_all add: items_end_def)
  have len3: "int (length xs) * VARBLOCK_BYTE_OFFSET_24_LEN = int (length xs) * 3" by (simp add: VARBLOCK_BYTE_OFFSET_24_LEN_def)
  have run: "VarBlockMakerGetNextItemPtr m (int (length y)) =
     (if length xs \<ge> scratchLen div width xs then Inr (None, m)
      else if small xs then
        if items_end xs > 64512 then
          if 8 + round2 (length (concat (xs @ [y]))) + round2 (length (xs @ [y]) * 3) > maxLen then Inr (None, m)
          else if length xs \<ge> scratchLen div 3 then Inr (None, m)
          else bindE (store_header (header_buffer m) (hdr False 0 0)) (\<lambda>b.
            bindE (widen_loop (length xs) (tempScratchSpace m)) (\<lambda>s.
            bindE (mem_write s (int (length xs) * 3) (le_bytes 3 (items_end xs))) (\<lambda>s1.
              Inr (Some (int (items_end xs)), upd (m\<lparr>header_buffer := b, tempScratchSpace := s1, maxItemCount := int (scratchLen div 3)\<rparr>)))))
        else if 8 + round2 (length (concat (xs @ [y]))) + round2 (length (xs @ [y]) * 2) > maxLen then Inr (None, m)
        else bindE (mem_write (tempScratchSpace m) (int (length xs) * 2) (le_bytes 2 (items_end xs))) (\<lambda>s.
          Inr (Some (int (items_end xs)), upd (m\<lparr>tempScratchSpace := s\<rparr>)))
      else if 8 + round2 (length (concat (xs @ [y]))) + round2 (length (xs @ [y]) * 3) > maxLen then Inr (None, m)
      else bindE (mem_write (tempScratchSpace m) (int (length xs) * 3) (le_bytes 3 (items_end xs))) (\<lambda>s.
        Inr (Some (int (items_end xs)), upd (m\<lparr>tempScratchSpace := s\<rparr>))))"
    unfolding VarBlockMakerGetNextItemPtr_def Let_def m div3 total_lens(1,2) [OF b(1,2) assms(3)] upd_def
    unfolding total_lens(3) [OF b(1,2) assms(3)] ends bytes len3 r
    by (simp add: hdr_set(2) cong: if_cong)
  show ?thesis
    unfolding run fits_snoc small_snoc using small_before [of xs] by (auto simp: wd_def)
qed

lemma GetNext_ok:
  assumes "maker_ok maxLen scratchLen xs m" and "fits maxLen scratchLen (xs @ [y])" and "maxLen \<le> 2 ^ 24" and "length y < 2 ^ 30"
  shows "\<exists>m'. VarBlockMakerGetNextItemPtr m (int (length y)) = Inr (Some (int (items_end xs)), m') \<and>
    maker_state maxLen scratchLen (concat xs) (xs @ [y]) m'"
proof -
  obtain rest junk where
    r: "header_buffer m = header_image (hdr (small xs) 0 0) @ concat xs @ rest" "tempScratchSpace m = offset_array (width xs) xs @ junk"
      "length (tempScratchSpace m) = scratchLen" using assms(1) by (auto simp: maker_state_def)
  note run = GetNext_cases [OF assms(1,3,4)]
  have fit: "length (xs @ [y]) * width (xs @ [y]) \<le> scratchLen" using assms(2) by (simp add: fits_def)
  show ?thesis
  proof (cases "small xs = small (xs @ [y])")
    case True
    have "length xs * width xs + width xs \<le> length (tempScratchSpace m)" using fit True r(3) by simp
    from cell_write [OF r(2) this, of y] obtain junk' where
      w: "mem_write (tempScratchSpace m) (int (length xs) * int (width xs)) (le_bytes (width xs) (items_end xs)) =
          Inr (offset_array (width xs) (xs @ [y]) @ junk')"
        "length (offset_array (width xs) (xs @ [y]) @ junk') = scratchLen" unfolding r(3) by blast
    show ?thesis
    proof (cases "small xs")
      case True
      with \<open>small xs = small (xs @ [y])\<close> w assms(1,2) show ?thesis by (simp add: run wd_def maker_state_def)
    next
      case False
      with \<open>small xs = small (xs @ [y])\<close> w assms(1,2) show ?thesis by (simp add: run wd_def maker_state_def)
    qed
  next
    case False
    then have s: "small xs" "\<not> small (xs @ [y])" using small_before [of xs] by (auto simp: small_snoc)
    have "length xs * 3 + 3 \<le> length (tempScratchSpace m)" using fit s r(3) by (simp add: wd_def)
    moreover have "list_all (\<lambda>p. p < 2 ^ 16) (offsets xs)"
    proof -
      have "p < 2 ^ 16" if "p \<in> set (offsets xs)" for p using offsets_small [OF s(1) that] by simp
      then show ?thesis by (simp add: list_all_iff)
    qed
    ultimately obtain junk1 where
      j: "widen_loop (length xs) (tempScratchSpace m) = Inr (offset_array 3 xs @ junk1)" "length (offset_array 3 xs @ junk1) = scratchLen"
      using widen_offset_array [of "tempScratchSpace m" xs junk] r(2,3) s(1) by (auto simp: wd_def)
    have "length xs * 3 + 3 \<le> length (offset_array 3 xs @ junk1)" using fit s j(2) by (simp add: wd_def)
    from cell_write [OF refl this, of y] obtain junk2 where
      w: "mem_write (offset_array 3 xs @ junk1) (int (length xs) * 3) (le_bytes 3 (items_end xs)) = Inr (offset_array 3 (xs @ [y]) @ junk2)"
        "length (offset_array 3 (xs @ [y]) @ junk2) = scratchLen" unfolding j(2) by auto
    from s j w assms(1,2) r(1) show ?thesis by (simp add: run wd_def maker_state_def)
  qed
qed

text \<open>A client asks for space and fills the item in; it is told if there is no space.\<close>

definition add_item :: "uint8 list \<Rightarrow> VarBlockMaker \<Rightarrow> (bool \<times> VarBlockMaker) result" where
  "add_item y m =
     bindE (VarBlockMakerGetNextItemPtr m (int (length y))) (\<lambda>(ptr, m1).
     case ptr of
       None \<Rightarrow> Inr (False, m1)
     | Some p \<Rightarrow> bindE (mem_write (header_buffer m1) p y) (\<lambda>b. Inr (True, m1\<lparr>header_buffer := b\<rparr>)))"

fun add_items :: "uint8 list list \<Rightarrow> VarBlockMaker \<Rightarrow> (bool list \<times> VarBlockMaker) result" where
  "add_items [] m = Inr ([], m)"
| "add_items (y # ys) m = bindE (add_item y m) (\<lambda>(ok, m1). bindE (add_items ys m1) (\<lambda>(oks, m2). Inr (ok # oks, m2)))"

definition make_block :: "uint8 list \<Rightarrow> int \<Rightarrow> uint8 list \<Rightarrow> uint8 list list \<Rightarrow> (bool list \<times> uint8 list) result" where
  "make_block buf maxLen scratch ys =
     bindE (VarBlockMakerInit buf maxLen scratch (int (length scratch))) (\<lambda>m.
     bindE (add_items ys m) (\<lambda>(oks, m1).
     bindE (VarBlockMakerFinish m1) (\<lambda>(n, m2).
     bindE (mem_read (header_buffer m2) 0 n) (\<lambda>b. Inr (oks, b)))))"

fun accepted :: "nat \<Rightarrow> nat \<Rightarrow> uint8 list list \<Rightarrow> uint8 list list \<Rightarrow> bool list" where
  "accepted maxLen scratchLen xs [] = []"
| "accepted maxLen scratchLen xs (y # ys) =
     (if fits maxLen scratchLen (xs @ [y]) then True # accepted maxLen scratchLen (xs @ [y]) ys
      else False # accepted maxLen scratchLen xs ys)"

lemma add_items_ok:
  "maker_ok maxLen scratchLen xs m \<Longrightarrow> maxLen \<le> 2 ^ 24 \<Longrightarrow> list_all (\<lambda>y. length y < 2 ^ 30) ys \<Longrightarrow>
   \<exists>m'. add_items ys m = Inr (accepted maxLen scratchLen xs ys, m') \<and> maker_ok maxLen scratchLen (pack maxLen scratchLen xs ys) m'"
proof (induction ys arbitrary: xs m)
  case (Cons y ys)
  have y: "length y < 2 ^ 30" "list_all (\<lambda>y. length y < 2 ^ 30) ys" using Cons.prems(3) by simp_all
  show ?case
  proof (cases "fits maxLen scratchLen (xs @ [y])")
    case True
    from GetNext_ok [OF Cons.prems(1) True Cons.prems(2) y(1)] obtain m1 where
      m1: "VarBlockMakerGetNextItemPtr m (int (length y)) = Inr (Some (int (items_end xs)), m1)"
        "maker_state maxLen scratchLen (concat xs) (xs @ [y]) m1" by blast
    from item_write [OF m1(2)] obtain b where
      b: "mem_write (header_buffer m1) (int (items_end xs)) y = Inr b" "maker_ok maxLen scratchLen (xs @ [y]) (m1\<lparr>header_buffer := b\<rparr>)"
      by blast
    from Cons.IH [OF b(2) Cons.prems(2) y(2)] True m1(1) b(1) show ?thesis by (auto simp: add_item_def)
  next
    case False
    from GetNext_cases [OF Cons.prems(1,2) y(1)] False Cons.IH [OF Cons.prems(1,2) y(2)] show ?thesis by (auto simp: add_item_def)
  qed
qed simp

text \<open>The three writes that complete a block: the offsets, and the padding before and after them.\<close>

lemma finish_writes:
  fixes offs z1 z2 bs rest :: "uint8 list"
  assumes "length h = 8" and "length z1 + length offs + length z2 \<le> length rest"
  defines "q \<equiv> drop (length z1 + length offs) rest"
  shows "mem_write (h @ bs @ rest) (int (8 + (length bs + length z1))) offs = Inr (h @ bs @ take (length z1) rest @ offs @ q)"
    "mem_write (h @ bs @ take (length z1) rest @ offs @ q) (int (8 + length bs)) z1 = Inr (h @ bs @ z1 @ offs @ q)"
    "mem_write (h @ bs @ z1 @ offs @ q) (int (8 + (length bs + length z1) + length offs)) z2 = Inr (h @ bs @ z1 @ offs @ z2 @ drop (length z2) q)"
proof -
  let ?p = "take (length z1) rest"
  have p: "length ?p = length z1" and q: "length z2 \<le> length q" using assms(2) by (simp_all add: q_def)
  have "h @ bs @ rest = (h @ bs @ ?p) @ drop (length z1) rest" by simp
  with p assms(1,2) show "mem_write (h @ bs @ rest) (int (8 + (length bs + length z1))) offs = Inr (h @ bs @ ?p @ offs @ q)"
    using mem_write_at [of "int (8 + (length bs + length z1))" "h @ bs @ ?p" offs "drop (length z1) rest"] by (simp add: q_def add.commute)
  show "mem_write (h @ bs @ ?p @ offs @ q) (int (8 + length bs)) z1 = Inr (h @ bs @ z1 @ offs @ q)"
    using mem_write_at [of "int (8 + length bs)" "h @ bs" z1 "?p @ offs @ q"] p assms(1) by simp
  show "mem_write (h @ bs @ z1 @ offs @ q) (int (8 + (length bs + length z1) + length offs)) z2 = Inr (h @ bs @ z1 @ offs @ z2 @ drop (length z2) q)"
    using mem_write_at [of "int (8 + (length bs + length z1) + length offs)" "h @ bs @ z1 @ offs" z2 q] q assms(1) by simp
qed

lemma MakerFinish_ok:
  assumes "maker_ok maxLen scratchLen xs m" and "maxLen \<le> 2 ^ 24"
  shows "\<exists>m' rest. VarBlockMakerFinish m = Inr (int (block_len xs), m') \<and> header_buffer m' = block_with (small xs) (concat xs) xs @ rest"
proof -
  let ?n = "length (concat xs)" and ?w = "width xs" and ?k = "length xs * width xs" and ?o = "offset_array (width xs) xs"
  obtain rest junk where
    r: "header_buffer m = header_image (hdr (small xs) 0 0) @ concat xs @ rest" "tempScratchSpace m = ?o @ junk"
      and m: "currentItemLenSum m = int ?n" "currentItemCount m = int (length xs)" "maxLen \<le> length (header_buffer m)"
      and fit: "fits maxLen scratchLen xs" using assms(1) by (auto simp: maker_state_def)
  note b = fits_bounds [OF fit assms(2)] round2_bounds [of ?n] round2_bounds [of ?k]
  define z1 where "z1 = replicate (round2 ?n - ?n) (0 :: uint8)"
  define z2 where "z2 = replicate (round2 ?k - ?k) (0 :: uint8)"
  have z: "?n + length z1 = round2 ?n" "?k + length z2 = round2 ?k" using b by (simp_all add: z1_def z2_def)
  have arr: "c_int (VARBLOCK_HEADER_LEN + even_up (int ?n)) = int (8 + round2 ?n)"
    using b c_int_nat [of "8 + round2 ?n"] by (simp add: even_up_nat VARBLOCK_HEADER_LEN_def)
  have "?k \<le> length xs * 3" by (simp add: wd_def)
  then have k: "?k < 2 ^ 25" by (rule le_less_trans) (use b(3) in simp)
  have len: "c_int (int (length xs) * int ?w) = int ?k" "even_up (int ?k) = int (round2 ?k)"
    using k c_int_nat [of ?k] even_up_nat [of ?k] by simp_all
  have o: "mem_read (tempScratchSpace m) 0 (int (length xs) * int ?w) = Inr ?o" by (simp add: mem_read_def r(2) nat_mult_distrib)
  have mult: "(if VarBlockGet_offsetsAreSmall (hdr (small xs) 0 0) \<noteq> 0 then 2 else VARBLOCK_BYTE_OFFSET_24_LEN) = int ?w"
    by (simp add: wd_def VARBLOCK_BYTE_OFFSET_24_LEN_def)
  have d: "int (round2 ?k) - int ?k = int (round2 ?k - ?k)" using b(6) by (simp only: of_nat_diff)
  have pads: "replicate (nat (int (8 + round2 ?n) - int (8 + ?n))) 0 = z1"
    "replicate (nat (int (round2 ?k) - int ?k)) 0 = z2" "VARBLOCK_HEADER_LEN + int ?n = int (8 + ?n)"
    "int (8 + round2 ?n) + int ?k = int (8 + round2 ?n + ?k)"
    unfolding d using b(4) by (simp_all add: z1_def z2_def VARBLOCK_HEADER_LEN_def nat_diff_distrib)
  have total: "c_int (int (8 + round2 ?n) + int (round2 ?k)) = int (block_len xs)"
    using c_int_nat [of "block_len xs"] fit assms(2) by (simp add: block_len_def fits_def)
  have "length z1 + length ?o + length z2 \<le> length rest" using fit m(3) z unfolding r(1) fits_def block_len_def by simp
  note w = finish_writes [where bs = "concat xs" and offs = ?o, OF length_header_image this, unfolded length_offset_array z(1)]
  have "VarBlockMakerFinish m = Inr (int (block_len xs), m\<lparr>header_buffer :=
      header_image (hdr (small xs) ?n (length xs)) @ concat xs @ z1 @ ?o @ z2 @ drop (length z2) (drop (length z1 + ?k) rest)\<rparr>)"
    unfolding VarBlockMakerFinish_def Let_def m(1,2) arr r(1)
    by (simp only: load_header_image store_header_image bindE_simps mult o len pads w hdr_set(3) finish_writes(3) total)
  then show ?thesis by (simp add: block_with_def z1_def z2_def)
qed

section \<open>Reading a block\<close>

text \<open>
  The contents that a block can have: its offsets can be represented in the width that the header gives, and the item
  bytes are those of the items.  Without items they are unconstrained.
\<close>

definition contents :: "bool \<Rightarrow> uint8 list \<Rightarrow> uint8 list list \<Rightarrow> bool" where
  "contents s bs xs \<longleftrightarrow> length bs < 2 ^ 24 \<and> length xs < 2 ^ 24 \<and> list_all (\<lambda>p. p < 256 ^ wd s) (offsets xs) \<and> (xs \<noteq> [] \<longrightarrow> bs = concat xs)"

abbreviation array_at :: "uint8 list \<Rightarrow> int" where
  "array_at bs \<equiv> int (8 + round2 (length bs))"

lemma load_header_block [simp]: "load_header (block_with s bs xs) = Inr (hdr s (length bs) (length xs))"
  by (simp add: block_with_def)

lemma GetOffset_block:
  assumes "contents s bs xs" and "i < length xs"
  shows "VarBlockGetOffset (block_with s bs xs) (array_at bs) (int i) = Inr (int (items_end (take i xs)))"
proof -
  let ?as = "header_image (hdr s (length bs) (length xs)) @ bs @ replicate (round2 (length bs) - length bs) 0"
  let ?zs = "replicate (round2 (length xs * wd s) - length xs * wd s) (0 :: uint8)"
  have as: "length ?as = 8 + round2 (length bs)" using round2_bounds(1) [of "length bs"] by simp
  have cell: "take (wd s) (drop (i * wd s) (offset_array (wd s) xs @ ?zs)) = le_bytes (wd s) (items_end (take i xs))"
    unfolding offset_array_def using assms(2) by (subst cell_concat) (auto simp: list_all_iff offsets_def)
  have "i * wd s + wd s \<le> length xs * wd s" using assms(2) mult_le_mono1 [of "Suc i" "length xs" "wd s"] by simp
  then have "mem_read (?as @ offset_array (wd s) xs @ ?zs) (int (length ?as + i * wd s)) (int (wd s)) = Inr (le_bytes (wd s) (items_end (take i xs)))"
    using cell by (subst mem_read_nat) simp_all
  then have "mem_read (block_with s bs xs) (array_at bs + int i * int (wd s)) (int (wd s)) = Inr (le_bytes (wd s) (items_end (take i xs)))"
    unfolding as by (simp add: block_with_def)
  moreover have "items_end (take i xs) < 256 ^ wd s" using assms by (simp add: contents_def offsets_def list_all_length)
  ultimately show ?thesis by (cases s) (simp_all add: VarBlockGetOffset_def wd_def VARBLOCK_BYTE_OFFSET_24_LEN_def le_nat_bytes)
qed

lemma items_end_Suc: "i < length xs \<Longrightarrow> items_end (take (Suc i) xs) = items_end (take i xs) + length (xs ! i)"
  by (simp add: items_end_def take_Suc_conv_app_nth)

abbreviation reader_at :: "bool \<Rightarrow> uint8 list \<Rightarrow> uint8 list list \<Rightarrow> nat \<Rightarrow> VarBlockReader" where
  "reader_at s bs xs i \<equiv> \<lparr>rd_header = block_with s bs xs, rd_bufferLen = int (length (block_with s bs xs)), rd_nextIndex = int i,
     rd_nextItemPtr = int (items_end (take i xs)), offsetToOffsetArray = array_at bs\<rparr>"

lemma ReaderInit_block:
  assumes "contents s bs xs"
  shows "VarBlockReaderInit (block_with s bs xs) (int (length (block_with s bs xs))) = Inr (reader_at s bs xs 0)"
  using assms by (simp add: VarBlockReaderInit_def contents_def hdr_counts even_up_nat VARBLOCK_HEADER_LEN_def items_end_def)

lemma GetItemPtrAndLen_block:
  assumes "contents s bs xs" and "i < length xs"
  shows "VarBlockGetItemPtrAndLen (reader_at s bs xs j) (int i) = Inr (int (items_end (take i xs)), int (length (xs ! i)))"
proof (cases "Suc i < length xs")
  case True
  then have "VarBlockGetOffset (block_with s bs xs) (array_at bs) (int i + 1) = Inr (int (items_end (take (Suc i) xs)))"
    using GetOffset_block [OF assms(1), of "Suc i"] by (simp add: add.commute)
  with True assms GetOffset_block [OF assms] show ?thesis
    by (simp add: VarBlockGetItemPtrAndLen_def contents_def hdr_counts items_end_Suc)
next
  case False
  then have "Suc i = length xs" using assms(2) by simp
  then have "items_end (take i xs) + length (xs ! i) = items_end xs" using items_end_Suc [OF assms(2)] by simp
  moreover have "bs = concat xs" using assms by (auto simp: contents_def)
  ultimately show ?thesis using assms False GetOffset_block [OF assms]
    by (simp add: VarBlockGetItemPtrAndLen_def contents_def hdr_counts VARBLOCK_HEADER_LEN_def items_end_def)
qed

lemma GetItemLen_eq: "VarBlockGetItemLen r i = bindE (VarBlockGetItemPtrAndLen r i) (\<lambda>(p, n). Inr n)"
  by (auto simp: VarBlockGetItemLen_def VarBlockGetItemPtrAndLen_def bindE_def split: sum.splits)

lemma GetNextItem_block:
  assumes "contents s bs xs" and "i \<le> length xs"
  shows "VarBlockReaderGetNextItemPtr (reader_at s bs xs i) =
    Inr (if i < length xs then (Some (int (items_end (take i xs)), int (length (xs ! i))), reader_at s bs xs (Suc i))
         else (None, reader_at s bs xs i))"
proof (cases "i < length xs")
  case True
  with assms(1) GetItemPtrAndLen_block [OF assms(1) True, of i] show ?thesis
    by (simp add: VarBlockReaderGetNextItemPtr_def GetItemLen_eq contents_def hdr_counts items_end_Suc)
qed (use assms in \<open>simp add: VarBlockReaderGetNextItemPtr_def contents_def hdr_counts\<close>)

lemma item_bytes:
  assumes "contents s bs xs" and "i < length xs"
  shows "mem_read (block_with s bs xs) (int (items_end (take i xs))) (int (length (xs ! i))) = Inr (xs ! i)"
proof -
  have "concat xs = concat (take i xs @ xs ! i # drop (Suc i) xs)" using id_take_nth_drop [OF assms(2)] by simp
  then have bs: "bs = concat (take i xs) @ xs ! i @ concat (drop (Suc i) xs)" using assms by (auto simp: contents_def)
  define h where "h = header_image (hdr s (length bs) (length xs))"
  define rest where "rest = replicate (round2 (length bs) - length bs) 0 @ offset_array (wd s) xs @
    replicate (round2 (length xs * wd s) - length xs * wd s) 0"
  have "block_with s bs xs = (h @ concat (take i xs)) @ xs ! i @ (concat (drop (Suc i) xs) @ rest)"
    using bs by (simp add: block_with_def h_def rest_def)
  then show ?thesis by (simp only:) (rule mem_read_at, simp_all add: items_end_def h_def)
qed

section \<open>Checking a block\<close>

lemma HeaderIsValid_hdr: "load_header buf = Inr (hdr s a b) \<Longrightarrow> VarBlockHeaderIsValid buf str = Inr (VarBlockCheckOk, str)"
  by (simp add: VarBlockHeaderIsValid_def)

lemma zero_pad_exact:
  "z + n \<le> length buf \<Longrightarrow> \<exists>r. zero_pad_loop buf (int z) n = Inr r \<and> (r = None \<longleftrightarrow> take n (drop z buf) = replicate n 0)"
proof (induction n arbitrary: z)
  case (Suc n)
  have read: "mem_read buf (int z) 1 = Inr [buf ! z]" "drop z buf = buf ! z # drop (Suc z) buf"
    using Suc.prems mem_read_nat [of z 1 buf] Cons_nth_drop_Suc [of z buf] by (simp_all add: take_Suc_conv_app_nth)
  from Suc.IH [of "Suc z"] Suc.prems obtain r where
    "zero_pad_loop buf (int z + 1) n = Inr r" "r = None \<longleftrightarrow> take n (drop (Suc z) buf) = replicate n 0" by (auto simp: add.commute)
  with read show ?case by simp
qed simp

lemma zero_pad_zeros:
  assumes "buf = as @ replicate n 0 @ cs"
  shows "zero_pad_loop buf (int (length as)) n = Inr None"
  using zero_pad_exact [of "length as" n buf] assms by auto

text \<open>The offsets of a block are ascending and within the items.\<close>

lemma offset_loop_block:
  assumes "contents s bs xs"
  shows "i + n = length xs \<Longrightarrow> 0 < i \<Longrightarrow>
    offset_loop h (block_with s bs xs) (array_at bs) (int (length bs)) (int (items_end (take (i - 1) xs))) (int i) n = Inr None"
proof (induction n arbitrary: i)
  case (Suc n)
  have i: "i < length xs" using Suc.prems by simp
  have "items_end (take (i - 1) xs) \<le> items_end (take i xs)"
    using items_end_take [of "i - 1" "take i xs"] Suc.prems by (simp add: min_def)
  moreover have "items_end (take i xs) \<le> length bs + 8"
    using items_end_take [of i xs] i assms by (auto simp: contents_def items_end_def)
  ultimately show ?case using GetOffset_block [OF assms i] Suc.IH [of "Suc i"] Suc.prems
    by (simp add: VARBLOCK_HEADER_LEN_def add.commute)
qed simp

lemma IsValid_block:
  assumes "contents s bs xs"
  shows "VarBlockIsValid (block_with s bs xs) (int (length (block_with s bs xs))) str = Inr (VarBlockCheckOk, str)"
proof -
  let ?buf = "block_with s bs xs" and ?k = "length xs * wd s"
  define h where "h = header_image (hdr s (length bs) (length xs))"
  define z1 where "z1 = replicate (round2 (length bs) - length bs) (0 :: uint8)"
  define z2 where "z2 = replicate (round2 ?k - ?k) (0 :: uint8)"
  note r = round2_bounds [of "length bs"] round2_bounds [of ?k]
  have buf: "?buf = (h @ bs) @ z1 @ offset_array (wd s) xs @ z2" "?buf = (h @ bs @ z1 @ offset_array (wd s) xs) @ z2 @ []"
    by (simp_all add: block_with_def h_def z1_def z2_def)
  have pad1: "zero_pad_loop ?buf (int (8 + length bs)) (round2 (length bs) - length bs) = Inr None"
    using zero_pad_zeros [OF buf(1) [unfolded z1_def]] by (simp add: h_def)
  have pad2: "zero_pad_loop ?buf (int (8 + round2 (length bs) + ?k)) (round2 ?k - ?k) = Inr None"
    using zero_pad_zeros [OF buf(2) [unfolded z2_def]] r(1) by (simp add: h_def z1_def add.assoc)
  have c: "length bs < 2 ^ 24" "length xs < 2 ^ 24" using assms by (simp_all add: contents_def)
  have arr: "VARBLOCK_HEADER_LEN + even_up (int (length bs)) = array_at bs" using c
    by (simp add: VARBLOCK_HEADER_LEN_def even_up_nat)
  have tail: "check_offset_array (hdr s (length bs) (length xs)) ?buf (int (length ?buf)) (int (length bs)) (array_at bs) (int (length xs)) str =
      Inr (VarBlockCheckOk, str)" if "xs \<noteq> []"
  proof -
    have k: "int (length xs) * (if VarBlockGet_offsetsAreSmall (hdr s (length bs) (length xs)) \<noteq> 0 then 2 else VARBLOCK_BYTE_OFFSET_24_LEN) = int ?k"
      by (simp add: wd_def VARBLOCK_BYTE_OFFSET_24_LEN_def)
    have "?k \<le> length xs * 3" by (simp add: wd_def)
    then have "?k < 2 ^ 31 - 1" by (rule le_less_trans) (use c(2) in simp)
    then have "even_up (int ?k) = int (round2 ?k)" by (rule even_up_nat)
    moreover have "VarBlockGetOffset ?buf (array_at bs) 0 = Inr 8"
      using GetOffset_block [OF assms, of 0] that by (simp add: items_end_def)
    moreover have "offset_loop h' ?buf (array_at bs) (int (length bs)) 8 1 (nat (int (length xs) - 1)) = Inr None" for h'
      using offset_loop_block [OF assms, of 1 "length xs - 1" h'] that by (cases xs) (simp_all add: items_end_def)
    moreover have "array_at bs + int ?k = int (8 + round2 (length bs) + ?k)" "nat (int (round2 ?k) - int ?k) = round2 ?k - ?k"
      "int (length ?buf) - array_at bs = int (round2 ?k)"
      using r by (simp_all only: length_block_with)
    ultimately show ?thesis using pad2 unfolding check_offset_array_def Let_def k by (simp only: VARBLOCK_HEADER_LEN_def) simp
  qed
  have "nat (array_at bs - (VARBLOCK_HEADER_LEN + int (length bs))) = round2 (length bs) - length bs"
    "VARBLOCK_HEADER_LEN + int (length bs) = int (8 + length bs)"
    using r(1) by (simp_all add: VARBLOCK_HEADER_LEN_def)
  with pad1 tail r(1) c show ?thesis
    by (simp add: VarBlockIsValid_def HeaderIsValid_hdr hdr_counts arr length_block_with Let_def del: of_nat_add)
qed

text \<open>Every header that the check accepts has this form.\<close>

lemma masked_field: "drop_bit n (x AND push_bit n (mask k)) = take_bit k (drop_bit n x)" for x :: uint32
  by (rule bit_word_eqI) (auto simp: bit_simps dest: bit_word_length)

lemma unat_field: "unat (take_bit k (drop_bit n x)) = take_bit k (unat x div 2 ^ n)" for x :: uint32
  unfolding unsigned_take_bit_eq unat_drop_bit_eq by (simp add: drop_bit_eq_div)

lemma high_byte:
  assumes "VarBlockGet_version h = InitialVersion" and "VarBlockGet_reserved h = 0"
  shows "drop_bit 24 (bytes_0_3 h) = (if VarBlockGet_offsetsAreSmall h \<noteq> 0 then 129 else 1)"
proof -
  define v where "v = unat (bytes_0_3 h) div 2 ^ 24"
  have masks: "(0x7C000000 :: uint32) = push_bit 26 (mask 5)" "(0x03000000 :: uint32) = push_bit 24 (mask 2)"
    by (simp_all add: mask_eq_exp_minus_1 push_bit_eq_mult)
  have "unat (take_bit 2 (drop_bit 24 (bytes_0_3 h))) = 1"
    using assms(1) unfolding VarBlockGet_version_def masks masked_field InitialVersion_def by simp
  then have lo: "v mod 4 = 1" unfolding v_def unat_field by (simp add: take_bit_eq_mod)
  have "unat (take_bit 5 (drop_bit 26 (bytes_0_3 h))) = 0"
    using assms(2) unfolding VarBlockGet_reserved_def masks masked_field by simp
  then have "unat (bytes_0_3 h) div 2 ^ 26 mod 32 = 0"
    unfolding unat_field by (simp add: take_bit_eq_mod)
  moreover have "unat (bytes_0_3 h) div 2 ^ 26 = v div 4" by (simp add: v_def div_mult2_eq [symmetric])
  ultimately have hi: "v div 4 mod 32 = 0" by simp
  have "unat (bytes_0_3 h) < 2 ^ 32" using unsigned_less [of "bytes_0_3 h", where ?'a = nat] by simp
  then have "v < 256" by (simp add: v_def)
  then have "v div 4 < 64" by simp
  moreover obtain k where "v div 4 = 32 * k" using hi by (metis mult_div_mod_eq add.right_neutral)
  ultimately have "v div 4 = 0 \<or> v div 4 = 32" by auto
  moreover have "v = 4 * (v div 4) + 1" using lo by (metis mult_div_mod_eq)
  ultimately have "v = 1 \<or> v = 129" by auto
  then have v: "v = (if v div 128 \<noteq> 0 then 129 else 1)" by auto
  have "unat (VarBlockGet_offsetsAreSmall h) = v div 128"
    unfolding VarBlockGet_offsetsAreSmall_def unat_drop_bit_eq v_def by (simp add: drop_bit_eq_div div_mult2_eq [symmetric])
  then have "VarBlockGet_offsetsAreSmall h \<noteq> 0 \<longleftrightarrow> v div 128 \<noteq> 0" by (simp add: word_unat_eq_iff)
  then have "unat (drop_bit 24 (bytes_0_3 h)) = (if VarBlockGet_offsetsAreSmall h \<noteq> 0 then 129 else 1)"
    using v unfolding unat_drop_bit_eq v_def by (simp add: drop_bit_eq_div)
  then show ?thesis by (simp add: word_unat_eq_iff)
qed

lemma split_at: "push_bit n (drop_bit n x) OR take_bit n x = x" for x :: uint32
  by (rule bit_word_eqI) (auto simp: bit_simps)

lemma hdr_complete:
  assumes "VarBlockGet_version h = InitialVersion" and "VarBlockGet_reserved h = 0" and "VarBlockGet_moreReserved h = 0"
  shows "h = hdr (VarBlockGet_offsetsAreSmall h \<noteq> 0) (unat (VarBlockGet_itemLenSum h)) (unat (VarBlockGet_itemCount h))"
proof -
  have mask: "(0xFF000000 :: uint32) = push_bit 24 (mask 8)" by (simp add: mask_eq_exp_minus_1 push_bit_eq_mult)
  from assms(3) have "take_bit 8 (drop_bit 24 (bytes_4_7 h)) = 0" unfolding VarBlockGet_moreReserved_def mask masked_field .
  moreover have "take_bit 8 (drop_bit 24 x) = drop_bit 24 x" for x :: uint32
    by (rule bit_word_eqI) (auto simp: bit_simps dest: bit_word_length)
  ultimately have "bytes_4_7 h = take_bit 24 (bytes_4_7 h)" using split_at [of 24 "bytes_4_7 h"] by simp
  moreover have "bytes_0_3 h = (if VarBlockGet_offsetsAreSmall h \<noteq> 0 then 0x81000000 else 0x01000000) OR take_bit 24 (bytes_0_3 h)"
    using split_at [of 24 "bytes_0_3 h"] high_byte [OF assms(1,2)] by (auto simp: push_bit_eq_mult split: if_splits)
  ultimately show ?thesis
    by (cases h) (simp add: hdr_def VarBlockGet_itemLenSum_def VarBlockGet_itemCount_def and_mask24)
qed

lemma load_header_split:
  assumes "load_header buf = Inr h"
  shows "buf = header_image h @ drop 8 buf"
proof -
  have b: "8 \<le> length buf" "h = \<lparr>bytes_0_3 = of_nat (le_nat (take 4 buf)), bytes_4_7 = of_nat (le_nat (take 4 (drop 4 buf)))\<rparr>"
    using assms by (auto simp: load_header_def mem_read_def min_def drop_take split: if_splits)
  have "unat (of_nat (le_nat bs) :: uint32) = le_nat bs" if "length bs = 4" for bs
    using le_nat_less [of bs] that by (simp add: unat_of_nat)
  then have "header_image h = take 4 buf @ take 4 (drop 4 buf)"
    using b le_bytes_nat [of "take 4 buf"] le_bytes_nat [of "take 4 (drop 4 buf)"] by (simp add: header_image_def)
  also have "\<dots> = take 8 buf" using take_add [of 4 4 buf] by simp
  finally show ?thesis by simp
qed

end
