(* ===== verification/VarBlockCheck.thy ===== *)
theory VarBlockCheck
  imports VarBlockFormat
begin

text \<open>
  What the check of \<^verbatim>\<open>cdbvarblock.c\<close> means, and the properties of blocks.  The check reads untrusted bytes; it accepts a
  block exactly when the block is the image of some items, so that the readers are safe on what it accepts.
\<close>

section \<open>From the verdict to the items\<close>

lemma GetOffset_nat:
  assumes "load_header buf = Inr (hdr s a b)" and "p + i * wd s + wd s \<le> length buf"
  shows "VarBlockGetOffset buf (int p) (int i) = Inr (int (le_nat (take (wd s) (drop (p + i * wd s) buf))))"
proof -
  have "mem_read buf (int p + int i * int (wd s)) (int (wd s)) = Inr (take (wd s) (drop (p + i * wd s) buf))"
    using mem_read_nat [OF assms(2)] by simp
  with assms(1) show ?thesis by (cases s) (simp_all add: VarBlockGetOffset_def wd_def VARBLOCK_BYTE_OFFSET_24_LEN_def)
qed

text \<open>What the loop over the offsets establishes.\<close>

fun in_order :: "(nat \<Rightarrow> nat) \<Rightarrow> nat \<Rightarrow> nat \<Rightarrow> nat \<Rightarrow> bool" where
  "in_order f len i 0 \<longleftrightarrow> True"
| "in_order f len i (Suc n) \<longleftrightarrow> f i \<le> f (Suc i) \<and> f (Suc i) \<le> len + 8 \<and> in_order f len (Suc i) n"

lemma offset_loop_exact:
  "\<forall>j \<le> i + n. VarBlockGetOffset buf arr (int j) = Inr (int (f j)) \<Longrightarrow>
   \<exists>r. offset_loop h buf arr (int len) (int (f i)) (int (Suc i)) n = Inr r \<and>
     (case r of None \<Rightarrow> in_order f len i n | Some e \<Rightarrow> fst e \<noteq> VarBlockCheckOk)"
proof (induction n arbitrary: i)
  case (Suc n)
  have "VarBlockGetOffset buf arr (int (Suc i)) = Inr (int (f (Suc i)))" using Suc.prems by (metis add_Suc_right le_add1 not_less_eq_eq Suc_le_mono)
  moreover from Suc.IH [of "Suc i"] Suc.prems obtain r where
    "offset_loop h buf arr (int len) (int (f (Suc i))) (int (Suc i) + 1) n = Inr r"
    "case r of None \<Rightarrow> in_order f len (Suc i) n | Some e \<Rightarrow> fst e \<noteq> VarBlockCheckOk" by (auto simp: add.commute)
  ultimately show ?case by (auto simp: VARBLOCK_HEADER_LEN_def simp del: of_nat_Suc split: option.splits)
qed simp

lemma in_order_sorted: "in_order f len i n \<Longrightarrow> sorted (map f [i..<Suc (i + n)]) \<and> list_all (\<lambda>p. p \<le> len + 8) (map f [Suc i..<Suc (i + n)])"
proof (induction n arbitrary: i)
  case (Suc n)
  then have "sorted (map f [Suc i..<Suc (Suc i + n)])" "list_all (\<lambda>p. p \<le> len + 8) (map f [Suc (Suc i)..<Suc (Suc i + n)])"
    using Suc.IH [of "Suc i"] by (simp_all del: upt_Suc)
  moreover have "[Suc i..<Suc (Suc i + n)] = Suc i # [Suc (Suc i)..<Suc (Suc i + n)]" by (simp add: upt_conv_Cons del: upt_Suc)
  ultimately show ?case using Suc.prems by (auto simp: upt_conv_Cons simp del: upt_Suc)
qed simp

text \<open>Cutting the item bytes at ascending offsets.\<close>

fun cut_at :: "nat list \<Rightarrow> uint8 list \<Rightarrow> uint8 list list" where
  "cut_at [] bs = []"
| "cut_at [p] bs = [bs]"
| "cut_at (p # q # ps) bs = take (q - p) bs # cut_at (q # ps) (drop (q - p) bs)"

lemma length_cut [simp]: "length (cut_at ps bs) = length ps"
  by (induction ps bs rule: cut_at.induct) simp_all

lemma concat_cut: "ps \<noteq> [] \<Longrightarrow> concat (cut_at ps bs) = bs"
  by (induction ps bs rule: cut_at.induct) simp_all

lemma cut_offset:
  "sorted ps \<Longrightarrow> list_all (\<lambda>p. p \<le> hd ps + length bs) ps \<Longrightarrow> i < length ps \<Longrightarrow>
   hd ps + length (concat (take i (cut_at ps bs))) = ps ! i"
proof (induction ps bs arbitrary: i rule: cut_at.induct)
  case (3 p q ps bs)
  have q: "p \<le> q" "q \<le> p + length bs" using 3(2,3) by simp_all
  have "list_all (\<lambda>r. r \<le> hd (q # ps) + length (drop (q - p) bs)) (q # ps)" using 3(3) q by (auto simp: list_all_iff)
  with 3 q show ?case by (cases i) (fastforce simp: min_def)+
qed (simp_all)

lemma offsets_cut:
  assumes "sorted ps" and "list_all (\<lambda>p. p \<le> 8 + length bs) ps" and "ps \<noteq> []" and "hd ps = 8"
  shows "offsets (cut_at ps bs) = ps"
  by (rule nth_equalityI) (use cut_offset [of ps bs] assms in \<open>simp_all add: offsets_def items_end_def\<close>)

lemma offset_array_cells:
  assumes "length d \<ge> k * w" and "offsets xs = map (\<lambda>i. le_nat (take w (drop (i * w) d))) [0..<k]"
  shows "offset_array w xs = take (k * w) d"
proof -
  have "le_bytes w (le_nat (take w (drop (i * w) d))) = take w (drop (i * w) d)" if "i < k" for i
  proof -
    have "i * w + w \<le> k * w" using that mult_le_mono1 [of "Suc i" k w] by simp
    then have "length (take w (drop (i * w) d)) = w" using assms(1) by simp
    then show ?thesis using le_bytes_nat [of "take w (drop (i * w) d)"] by simp
  qed
  then have "offset_array w xs = concat (map (\<lambda>i. take w (drop (i * w) d)) [0..<k])"
    unfolding offset_array_def assms(2) map_map by (intro arg_cong [where f = concat] map_cong) simp_all
  also have "\<dots> = take (k * w) d" using assms(1) by (intro cells_concat [symmetric]) simp_all
  finally show ?thesis .
qed

lemma array_items:
  assumes "length bs < 2 ^ 24" and "k < 2 ^ 24" and "0 < k" and "length d = round2 (k * wd s)"
    and f: "\<And>i. f i = le_nat (take (wd s) (drop (i * wd s) d))"
    and "f 0 = 8" and "in_order f (length bs) 0 (k - 1)" and "drop (k * wd s) d = replicate (round2 (k * wd s) - k * wd s) 0"
  shows "\<exists>xs. length xs = k \<and> contents s bs xs \<and> d = offset_array (wd s) xs @ replicate (round2 (k * wd s) - k * wd s) 0"
proof -
  define ps where "ps = map f [0..<k]"
  have kd: "k * wd s \<le> length d" using assms(4) round2_bounds(1) by simp
  have "[0..<k] = 0 # [1..<k]" using assms(3) by (simp add: upt_conv_Cons)
  then have ps: "ps = 8 # map f [1..<k]" using assms(6) by (simp add: ps_def)
  have "sorted ps" "list_all (\<lambda>p. p \<le> length bs + 8) (map f [1..<k])"
    using in_order_sorted [OF assms(7)] assms(3) by (simp_all add: ps_def del: upt_Suc)
  then have off: "offsets (cut_at ps bs) = ps" using ps by (intro offsets_cut) (simp_all add: add.commute)
  have "f i < 256 ^ wd s" for i
    unfolding f using le_nat_less [of "take (wd s) (drop (i * wd s) d)"]
    by (rule less_le_trans) (simp add: power_increasing)
  then have "list_all (\<lambda>p. p < 256 ^ wd s) ps" by (simp add: ps_def list_all_iff)
  moreover have "length ps = k" by (simp add: ps_def)
  moreover have "concat (cut_at ps bs) = bs" using ps by (simp add: concat_cut)
  ultimately have "contents s bs (cut_at ps bs)" using assms(1,2) off by (simp add: contents_def)
  moreover have "offset_array (wd s) (cut_at ps bs) = take (k * wd s) d"
    using off by (intro offset_array_cells [OF kd]) (simp add: ps_def f)
  then have "d = offset_array (wd s) (cut_at ps bs) @ replicate (round2 (k * wd s) - k * wd s) 0"
    using assms(8) append_take_drop_id [of "k * wd s" d] by simp
  moreover have "length (cut_at ps bs) = k" by (simp add: ps_def)
  ultimately show ?thesis by blast
qed

lemma check_array_exact:
  assumes "load_header buf = Inr (hdr s (length bs) k)" and "length bs < 2 ^ 24" and "k < 2 ^ 24" and "0 < k"
    and "8 + round2 (length bs) \<le> length buf"
  shows "\<exists>err str'. check_offset_array (hdr s (length bs) k) buf (int (length buf)) (int (length bs)) (array_at bs) (int k) str = Inr (err, str') \<and>
    (err = VarBlockCheckOk \<longrightarrow> (\<exists>xs. length xs = k \<and> contents s bs xs \<and>
      drop (8 + round2 (length bs)) buf = offset_array (wd s) xs @ replicate (round2 (k * wd s) - k * wd s) 0))"
proof -
  define p where "p = 8 + round2 (length bs)"
  define d where "d = drop p buf"
  define f where "f i = le_nat (take (wd s) (drop (i * wd s) d))" for i
  let ?kw = "k * wd s"
  have mult: "int k * (if VarBlockGet_offsetsAreSmall (hdr s (length bs) k) \<noteq> 0 then 2 else VARBLOCK_BYTE_OFFSET_24_LEN) = int ?kw"
    by (simp add: wd_def VARBLOCK_BYTE_OFFSET_24_LEN_def)
  have "?kw \<le> k * 3" by (simp add: wd_def)
  then have "?kw < 2 ^ 31 - 1" by (rule le_less_trans) (use assms(3) in simp)
  then have up: "even_up (int ?kw) = int (round2 ?kw)" by (rule even_up_nat)
  show ?thesis
  proof (cases "length d = round2 ?kw")
    case False
    moreover have "int (length buf) - array_at bs = int (length d)" using assms(5) by (simp add: d_def p_def of_nat_diff)
    ultimately show ?thesis unfolding check_offset_array_def Let_def mult up by simp
  next
    case True
    have kd: "?kw \<le> length d" using True round2_bounds(1) by simp
    have off: "VarBlockGetOffset buf (array_at bs) (int j) = Inr (int (f j))" if "j < k" for j
    proof -
      have "j * wd s + wd s \<le> ?kw" using that mult_le_mono1 [of "Suc j" k "wd s"] by simp
      then have "p + j * wd s + wd s \<le> length buf" using kd assms(5) unfolding d_def p_def by simp
      from GetOffset_nat [OF assms(1) this] show ?thesis by (simp add: f_def d_def p_def add.commute)
    qed
    obtain r where r: "offset_loop (hdr s (length bs) k) buf (array_at bs) (int (length bs)) (int (f 0)) 1 (k - 1) = Inr r"
      "case r of None \<Rightarrow> in_order f (length bs) 0 (k - 1) | Some e \<Rightarrow> fst e \<noteq> VarBlockCheckOk"
      using offset_loop_exact [of 0 "k - 1" buf "array_at bs" f "hdr s (length bs) k" "length bs"] off assms(4) by auto
    have pk: "p + ?kw + (round2 ?kw - ?kw) \<le> length buf" using True kd assms(5) by (simp add: d_def p_def)
    from zero_pad_exact [OF pk] obtain z where
      z: "zero_pad_loop buf (int (p + ?kw)) (round2 ?kw - ?kw) = Inr z"
        "z = None \<longleftrightarrow> take (round2 ?kw - ?kw) (drop (p + ?kw) buf) = replicate (round2 ?kw - ?kw) 0" by blast
    have at: "int (length buf) - array_at bs = int (round2 ?kw)" "array_at bs + int ?kw = int (p + ?kw)"
      "nat (int (round2 ?kw) - int ?kw) = round2 ?kw - ?kw" "nat (int k - 1) = k - 1"
      using True assms(4,5) round2_bounds(1) [of ?kw] by (simp_all add: d_def p_def of_nat_diff del: of_nat_mult)
    have run: "check_offset_array (hdr s (length bs) k) buf (int (length buf)) (int (length bs)) (array_at bs) (int k) str = Inr (err, str') \<Longrightarrow>
        err = VarBlockCheckOk \<Longrightarrow> f 0 = 8 \<and> in_order f (length bs) 0 (k - 1) \<and> z = None" for err str'
      unfolding check_offset_array_def Let_def mult up at
      using off [OF assms(4)] r z(1) by (auto simp: VARBLOCK_HEADER_LEN_def split: if_splits option.splits)
    have "\<exists>e. check_offset_array (hdr s (length bs) k) buf (int (length buf)) (int (length bs)) (array_at bs) (int k) str = Inr e"
      unfolding check_offset_array_def Let_def mult up at
      using off [OF assms(4)] r(1) z(1) by (auto simp: VARBLOCK_HEADER_LEN_def split: option.splits)
    moreover have "\<exists>xs. length xs = k \<and> contents s bs xs \<and> d = offset_array (wd s) xs @ replicate (round2 ?kw - ?kw) 0"
      if "f 0 = 8" "in_order f (length bs) 0 (k - 1)" "z = None"
      using array_items [OF assms(2-4) True [folded d_def], of f] that z(2) kd True by (simp add: f_def d_def add.commute)
    ultimately show ?thesis using run unfolding d_def p_def by (metis surj_pair)
  qed
qed

lemma array_start: "n < 2 ^ 24 \<Longrightarrow> VARBLOCK_HEADER_LEN + even_up (int n) = int (8 + round2 n)"
  by (simp add: VARBLOCK_HEADER_LEN_def even_up_nat)

lemma IsValid_run:
  assumes load: "load_header buf = Inr (hdr s n k)" and nk: "n < 2 ^ 24" "k < 2 ^ 24" and fit: "n < length buf" "8 + round2 n \<le> length buf"
    and z: "zero_pad_loop buf (int (8 + n)) (round2 n - n) = Inr z"
  shows "VarBlockIsValid buf (int (length buf)) str =
    (if z \<noteq> None then Inr (VarBlockCheckZeroPadBad1, ''Bad zero pad at offset '' @ fmt_d (the z) @
       '' between items and offset array'' @ header_words (hdr s n k))
     else if k = 0 then
       if 8 + round2 n \<noteq> length buf then
         Inr (VarBlockCheckItemCountBad1, ''offsetToOffsetArray '' @ fmt_d (int (8 + round2 n)) @
           '' should equal bufferLen '' @ fmt_d (int (length buf)) @ '' for itemCount 0'' @ header_words (hdr s n k))
       else Inr (VarBlockCheckOk, str)
     else check_offset_array (hdr s n k) buf (int (length buf)) (int n) (int (8 + round2 n)) (int k) str)"
proof -
  have at: "VARBLOCK_HEADER_LEN + int n = int (8 + n)" "nat (int (8 + round2 n) - int (8 + n)) = round2 n - n"
    using round2_bounds [of n] by (simp_all add: VARBLOCK_HEADER_LEN_def)
  show ?thesis
    using fit z unfolding VarBlockIsValid_def HeaderIsValid_hdr [OF load] load bindE_simps prod.case Let_def
      hdr_counts(1) [OF nk(1)] hdr_counts(2) [OF nk(2)] array_start [OF nk(1)] at
    by (auto split: option.splits)
qed

lemma block_front:
  assumes "load_header buf = Inr (hdr s n k)"
  shows "buf = header_image (hdr s n k) @ take n (drop 8 buf) @ take (round2 n - n) (drop (8 + n) buf) @ drop (8 + round2 n) buf"
proof -
  have "drop 8 buf = take n (drop 8 buf) @ drop (8 + n) buf" by (simp add: add.commute append_take_drop_id flip: drop_drop)
  also have "drop (8 + n) buf = take (round2 n - n) (drop (8 + n) buf) @ drop (8 + round2 n) buf"
    using round2_bounds [of n] append_take_drop_id [of "round2 n - n" "drop (8 + n) buf"] by (simp add: add.commute)
  finally show ?thesis using load_header_split [OF assms] by simp
qed

lemma IsValid_image:
  assumes "8 \<le> length buf"
  shows "\<exists>err str'. VarBlockIsValid buf (int (length buf)) str = Inr (err, str') \<and>
    (err = VarBlockCheckOk \<longrightarrow> (\<exists>s bs xs. contents s bs xs \<and> buf = block_with s bs xs))"
proof -
  obtain h where h: "load_header buf = Inr h" using load_header_ok [OF assms] by blast
  show ?thesis
  proof (cases "VarBlockGet_version h = InitialVersion \<and> VarBlockGet_reserved h = 0 \<and> VarBlockGet_moreReserved h = 0")
    case False
    with h show ?thesis by (auto simp: VarBlockIsValid_def VarBlockHeaderIsValid_def)
  next
    case True
    define s where "s \<longleftrightarrow> VarBlockGet_offsetsAreSmall h \<noteq> 0"
    define n where "n = unat (VarBlockGet_itemLenSum h)"
    define k where "k = unat (VarBlockGet_itemCount h)"
    have hd: "h = hdr s n k" unfolding s_def n_def k_def using True by (intro hdr_complete) simp_all
    have nk: "n < 2 ^ 24" "k < 2 ^ 24" unfolding n_def k_def by (rule field_less)+
    note r = round2_bounds [of n]
    have load: "load_header buf = Inr (hdr s n k)" using h hd by simp
    note arr = array_start [OF nk(1)]
    show ?thesis
    proof (cases "n < length buf \<and> 8 + round2 n \<le> length buf")
      case False
      with load nk show ?thesis by (auto simp: VarBlockIsValid_def HeaderIsValid_hdr [OF load] hdr_counts arr Let_def)
    next
      case True
      define bs where "bs = take n (drop 8 buf)"
      have fit: "n < length buf" "8 + round2 n \<le> length buf" using True by simp_all
      have bs: "length bs = n" using fit r unfolding bs_def by simp
      have "8 + n + (round2 n - n) \<le> length buf" using fit r by simp
      from zero_pad_exact [OF this] obtain z where
        z: "zero_pad_loop buf (int (8 + n)) (round2 n - n) = Inr z"
          "z = None \<longleftrightarrow> take (round2 n - n) (drop (8 + n) buf) = replicate (round2 n - n) 0" by blast
      note run = IsValid_run [OF load nk fit z(1)] and front = block_front [OF load, folded bs_def]
      show ?thesis
      proof (cases "k = 0")
        case True
        have "contents s bs []" using nk(1) bs by (simp add: contents_def offsets_def)
        moreover have "buf = block_with s bs []" if "z = None" "8 + round2 n = length buf"
          using front that z(2) bs True by (simp add: block_with_def offset_array_def offsets_def)
        ultimately show ?thesis unfolding run using True by auto
      next
        case False
        from check_array_exact [of buf s bs k str] load nk False fit(2) bs obtain err str' where
          c: "check_offset_array (hdr s n k) buf (int (length buf)) (int n) (int (8 + round2 n)) (int k) str = Inr (err, str')"
            "err = VarBlockCheckOk \<longrightarrow> (\<exists>xs. length xs = k \<and> contents s bs xs \<and>
               drop (8 + round2 n) buf = offset_array (wd s) xs @ replicate (round2 (k * wd s) - k * wd s) 0)" by auto
        have "\<exists>s bs xs. contents s bs xs \<and> buf = block_with s bs xs" if "z = None" "err = VarBlockCheckOk"
        proof -
          from c(2) that(2) obtain xs where xs: "length xs = k" "contents s bs xs"
            "drop (8 + round2 n) buf = offset_array (wd s) xs @ replicate (round2 (k * wd s) - k * wd s) 0" by blast
          have "buf = block_with s bs xs" using front that(1) z(2) bs xs(1,3) by (simp add: block_with_def)
          with xs(2) show ?thesis by blast
        qed
        with c(1) False show ?thesis unfolding run by auto
      qed
    qed
  qed
qed

section \<open>Clients\<close>

text \<open>
  A client reads a block the way the header file shows: it asks for the number of items and then for one item after
  another, until there is none.
\<close>

fun read_items :: "nat \<Rightarrow> VarBlockReader \<Rightarrow> uint8 list list result" where
  "read_items 0 r = Inr []"
| "read_items (Suc n) r =
     bindE (VarBlockReaderGetNextItemPtr r) (\<lambda>(item, r1).
     case item of
       None \<Rightarrow> Inr []
     | Some (p, len) \<Rightarrow> bindE (mem_read (rd_header r1) p len) (\<lambda>b. bindE (read_items n r1) (\<lambda>bs. Inr (b # bs))))"

definition read_block :: "uint8 list \<Rightarrow> uint8 list list result" where
  "read_block buf =
     bindE (VarBlockReaderInit buf (int (length buf))) (\<lambda>r.
     bindE (VarBlockReaderItemCount r) (\<lambda>n. read_items (Suc (nat n)) r))"

definition read_item :: "uint8 list \<Rightarrow> nat \<Rightarrow> uint8 list result" where
  "read_item buf i =
     bindE (VarBlockReaderInit buf (int (length buf))) (\<lambda>r.
     bindE (VarBlockReaderGetItemPtr r (int i)) (\<lambda>(p, len). mem_read (rd_header r) p len))"

lemma read_items_block: "contents s bs xs \<Longrightarrow> i + n = length xs \<Longrightarrow> read_items (Suc n) (reader_at s bs xs i) = Inr (drop i xs)"
proof (induction n arbitrary: i)
  case 0
  with GetNextItem_block [of s bs xs i] show ?case by simp
next
  case (Suc n)
  then have "i < length xs" by simp
  with Suc GetNextItem_block [OF Suc.prems(1), of i] item_bytes [OF Suc.prems(1), of i] Suc.IH [of "Suc i"] show ?case
    by (simp add: Cons_nth_drop_Suc del: read_items.simps(2)) (simp add: Cons_nth_drop_Suc)
qed

lemma read_block_with: "contents s bs xs \<Longrightarrow> read_block (block_with s bs xs) = Inr xs"
  using read_items_block [of s bs xs 0 "length xs"]
  by (simp add: read_block_def ReaderInit_block VarBlockReaderItemCount_def hdr_counts contents_def del: read_items.simps)

lemma read_item_with: "contents s bs xs \<Longrightarrow> i < length xs \<Longrightarrow> read_item (block_with s bs xs) i = Inr (xs ! i)"
  using GetItemPtrAndLen_block [of s bs xs i 0] item_bytes [of s bs xs i]
  by (simp add: read_item_def ReaderInit_block VarBlockReaderGetItemPtr_def)

lemma contents_packed: "fits maxLen scratchLen xs \<Longrightarrow> maxLen \<le> 2 ^ 24 \<Longrightarrow> contents (small xs) (concat xs) xs"
proof -
  assume f: "fits maxLen scratchLen xs" "maxLen \<le> 2 ^ 24"
  have "p < 256 ^ width xs" if p: "p \<in> set (offsets xs)" for p
  proof (cases "small xs")
    case True
    with offsets_small [OF True p] show ?thesis by (simp add: wd_def)
  next
    case False
    have "xs \<noteq> []" using p by (auto simp: offsets_def)
    then have "2 * 3 \<le> round2 (length xs * 3) + 3" using round2_bounds(1) [of "length xs * 3"] by (cases xs) simp_all
    then have "items_end xs < 2 ^ 24"
      using f round2_bounds(1) [of "length (concat xs)"] False unfolding fits_def block_len_def items_end_def wd_def by simp
    with offsets_le [OF p] False show ?thesis by (simp add: wd_def)
  qed
  then show ?thesis using fits_bounds [OF f] by (simp add: contents_def list_all_iff)
qed

lemma make_block_ok:
  assumes "8 \<le> maxLen" and "maxLen \<le> length buf" and "maxLen \<le> 2 ^ 24" and "list_all (\<lambda>y. length y < 2 ^ 30) ys"
  shows "\<exists>xs. make_block buf (int maxLen) scratch ys = Inr (accepted maxLen (length scratch) [] ys, block_with (small xs) (concat xs) xs) \<and>
    xs = pack maxLen (length scratch) [] ys \<and> contents (small xs) (concat xs) xs \<and> fits maxLen (length scratch) xs"
proof -
  from MakerInit_ok [OF assms(1,2)] obtain m where
    m: "VarBlockMakerInit buf (int maxLen) scratch (int (length scratch)) = Inr m" "maker_ok maxLen (length scratch) [] m" by blast
  let ?xs = "pack maxLen (length scratch) [] ys"
  from add_items_ok [OF m(2) assms(3,4)] obtain m1 where
    m1: "add_items ys m = Inr (accepted maxLen (length scratch) [] ys, m1)" "maker_ok maxLen (length scratch) ?xs m1" by blast
  from MakerFinish_ok [OF m1(2) assms(3)] obtain m2 rest where
    m2: "VarBlockMakerFinish m1 = Inr (int (block_len ?xs), m2)" "header_buffer m2 = block_with (small ?xs) (concat ?xs) ?xs @ rest" by blast
  have "mem_read (header_buffer m2) 0 (int (block_len ?xs)) = Inr (block_with (small ?xs) (concat ?xs) ?xs)"
    using mem_read_at [of 0 "[]" "int (block_len ?xs)" "block_with (small ?xs) (concat ?xs) ?xs" rest] m2(2)
    by (simp add: length_block_with block_len_def)
  moreover have "contents (small ?xs) (concat ?xs) ?xs"
    using m1(2) assms(3) by (intro contents_packed) (auto simp: maker_state_def)
  ultimately show ?thesis using m(1) m1 m2(1) by (simp add: make_block_def maker_state_def)
qed

section \<open>Properties\<close>

text \<open>
  C17: what is put into a block comes out of it.  A client adds items to a block, and those that do not fit are refused.
  No access leaves a buffer; an item is refused only when the block with it would exceed the length limit or its offsets
  the scratch area; the finished block passes the check; and reading it gives the accepted items in their order, whether
  offsets take two bytes or three.
\<close>

theorem VarBlock_roundtrip:
  assumes "8 \<le> maxLen" and "maxLen \<le> length buf" and "maxLen \<le> 2 ^ 24" and "list_all (\<lambda>y. length y < 2 ^ 30) ys"
  shows "case make_block buf (int maxLen) scratch ys of
      Inl _ \<Rightarrow> False
    | Inr (oks, b) \<Rightarrow>
        oks = accepted maxLen (length scratch) [] ys \<and> length b \<le> maxLen \<and>
        VarBlockIsValid b (int (length b)) str = Inr (VarBlockCheckOk, str) \<and>
        read_block b = Inr (pack maxLen (length scratch) [] ys)"
proof -
  from make_block_ok [OF assms] obtain xs where
    x: "make_block buf (int maxLen) scratch ys = Inr (accepted maxLen (length scratch) [] ys, block_with (small xs) (concat xs) xs)"
      "xs = pack maxLen (length scratch) [] ys" "contents (small xs) (concat xs) xs" "fits maxLen (length scratch) xs" by blast
  have "length (block_with (small xs) (concat xs) xs) \<le> maxLen"
    using x(4) by (simp add: length_block_with fits_def block_len_def)
  with x IsValid_block [OF x(3)] read_block_with [OF x(3)] show ?thesis by simp
qed

theorem VarBlock_roundtrip_witness:
  "case make_block (replicate 1048576 0) (int 1048576) (replicate 12 7) [replicate 65000 1, [1, 2], [], replicate 1048000 3, [4]] of
      Inl _ \<Rightarrow> False
    | Inr (oks, b) \<Rightarrow>
        oks = accepted 1048576 (length (replicate 12 (7 :: uint8))) [] [replicate 65000 1, [1, 2], [], replicate 1048000 3, [4]] \<and>
        length b \<le> 1048576 \<and> VarBlockIsValid b (int (length b)) ''x'' = Inr (VarBlockCheckOk, ''x'') \<and>
        read_block b =
          Inr (pack 1048576 (length (replicate 12 (7 :: uint8))) [] [replicate 65000 1, [1, 2], [], replicate 1048000 3, [4]])"
  by (rule VarBlock_roundtrip) simp_all

text \<open>
  C18: the check of a block is total and exact.  On any bytes, of which there must be enough for a header, it returns a
  verdict without leaving the buffer; the verdict is positive for exactly the images of contents, where the offsets
  ascend from the header and stay within the items, both paddings are zero, and the reserved fields are zero.
\<close>

theorem VarBlockIsValid_exact:
  assumes "8 \<le> length buf"
  shows "\<exists>err str'. VarBlockIsValid buf (int (length buf)) str = Inr (err, str') \<and>
    (err = VarBlockCheckOk \<longleftrightarrow> (\<exists>s bs xs. contents s bs xs \<and> buf = block_with s bs xs))"
proof -
  from IsValid_image [OF assms] obtain err str' where
    e: "VarBlockIsValid buf (int (length buf)) str = Inr (err, str')"
      "err = VarBlockCheckOk \<longrightarrow> (\<exists>s bs xs. contents s bs xs \<and> buf = block_with s bs xs)" by blast
  moreover have "err = VarBlockCheckOk" if "contents s bs xs" "buf = block_with s bs xs" for s bs xs
    using e(1) IsValid_block [OF that(1), of str] that(2) by simp
  ultimately show ?thesis by blast
qed

theorem VarBlockIsValid_exact_witness:
  "\<exists>err str'. VarBlockIsValid (replicate 12 1) (int (length (replicate 12 (1 :: uint8)))) ''x'' = Inr (err, str') \<and>
    (err = VarBlockCheckOk \<longleftrightarrow> (\<exists>s bs xs. contents s bs xs \<and> replicate 12 1 = block_with s bs xs))"
  by (rule VarBlockIsValid_exact) simp

text \<open>
  C19: a block that passes the check can be read.  Whatever its origin, every read of the sequential and of the indexed
  reader stays within the block, both deliver the same items, and the items make up the item bytes of the block without
  gap or overlap.
\<close>

theorem valid_block_readable:
  assumes "8 \<le> length buf" and "VarBlockIsValid buf (int (length buf)) str = Inr (VarBlockCheckOk, str')"
  shows "\<exists>xs. read_block buf = Inr xs \<and> map (read_item buf) [0..<length xs] = map Inr xs \<and>
    (xs = [] \<or> concat xs = take (length (concat xs)) (drop 8 buf))"
proof -
  from IsValid_image [OF assms(1), of str] assms(2) obtain s bs xs where x: "contents s bs xs" "buf = block_with s bs xs" by auto
  have "map (read_item buf) [0..<length xs] = map Inr xs"
    by (rule nth_equalityI) (use x in \<open>simp_all add: read_item_with\<close>)
  moreover have "concat xs = take (length (concat xs)) (drop 8 buf)" if "xs \<noteq> []"
    using x that by (simp add: contents_def block_with_def)
  ultimately show ?thesis using read_block_with [OF x(1)] x(2) by auto
qed

text \<open>A block with the items \<open>[5, 6]\<close> and \<open>[7]\<close>.\<close>

definition sample_block :: "uint8 list" where
  "sample_block = [3, 0, 0, 129, 2, 0, 0, 0, 5, 6, 7, 0, 8, 0, 10, 0]"

theorem valid_block_readable_witness:
  "VarBlockIsValid sample_block (int (length sample_block)) ''x'' = Inr (VarBlockCheckOk, ''x'') \<and>
   (\<exists>xs. read_block sample_block = Inr xs \<and> map (read_item sample_block) [0..<length xs] = map Inr xs \<and>
     (xs = [] \<or> concat xs = take (length (concat xs)) (drop 8 sample_block)))"
proof -
  have "contents True [5, 6, 7] [[5, 6], [7]]" by (simp add: contents_def offsets_def items_end_def wd_def)
  moreover have "block_with True [5, 6, 7] [[5, 6], [7]] = sample_block"
    by (simp add: block_with_def sample_block_def hdr_def header_image_def le_bytes_def offset_array_def offsets_def items_end_def
        wd_def round2_def upt_conv_Cons take_bit_eq_mod)
  ultimately have "VarBlockIsValid sample_block (int (length sample_block)) ''x'' = Inr (VarBlockCheckOk, ''x'')"
    using IsValid_block [of True "[5, 6, 7]" "[[5, 6], [7]]"] by simp
  then show ?thesis using valid_block_readable [of sample_block "''x''" "''x''"] by (simp add: sample_block_def)
qed

end
