(* ===== verification/BinaryHeap.thy ===== *)
theory BinaryHeap
  imports Prelude
begin

text \<open>
  Binary heaps, \<^verbatim>\<open>src/backend/lib/binaryheap.c\<close> and \<^verbatim>\<open>src/include/lib/binaryheap.h\<close>: an array whose first \<^verbatim>\<open>bh_size\<close> nodes form a
  heap with the greatest node first.  The comparator is a function pointer that is called with the memory behind
  \<^verbatim>\<open>bh_arg\<close>.  That memory belongs to the client, who changes it between calls, so each operation is given its current
  contents.  A comparator may raise an error.  An access outside of the allocated nodes is an error of the model.
\<close>

section \<open>Model\<close>

record ('d, 'arg) binaryheap =
  bh_size :: int
  bh_space :: int
  bh_has_heap_property :: bool
  bh_compare :: "'d \<Rightarrow> 'd \<Rightarrow> 'arg \<Rightarrow> int result"
  bh_nodes :: "'d list"

text \<open>The size of the header of a heap is 32 bytes, and a \<^verbatim>\<open>Datum\<close> has 8.  The size is computed into an \<^verbatim>\<open>int\<close>.\<close>

definition binaryheap_allocate :: "(nat \<Rightarrow> 'd) \<Rightarrow> int \<Rightarrow> ('d \<Rightarrow> 'd \<Rightarrow> 'arg \<Rightarrow> int result) \<Rightarrow> ('d, 'arg) binaryheap result" where
  "binaryheap_allocate garbage capacity compare =
     (let sz = c_int (32 + 8 * capacity)
      in if sz < 0 \<or> sz > MaxAllocSize then Inl (ERROR ''invalid memory alloc request size'')
         else Inr \<lparr>bh_size = 0, bh_space = capacity, bh_has_heap_property = True, bh_compare = compare,
                   bh_nodes = map garbage [0..<nat ((sz - 32) div 8)]\<rparr>)"

definition binaryheap_reset :: "('d, 'arg) binaryheap \<Rightarrow> ('d, 'arg) binaryheap" where
  "binaryheap_reset h = h\<lparr>bh_size := 0, bh_has_heap_property := True\<rparr>"

definition left_offset :: "int \<Rightarrow> int" where
  "left_offset i = 2 * i + 1"

definition right_offset :: "int \<Rightarrow> int" where
  "right_offset i = 2 * i + 2"

definition parent_offset :: "int \<Rightarrow> int" where
  "parent_offset i = c_div (i - 1) 2"

definition binaryheap_empty :: "('d, 'arg) binaryheap \<Rightarrow> bool" where
  "binaryheap_empty h \<longleftrightarrow> bh_size h = 0"

text \<open>Reading and writing a node.\<close>

definition node_at :: "('d, 'arg) binaryheap \<Rightarrow> int \<Rightarrow> 'd result" where
  "node_at h i = (if 0 \<le> i \<and> i < int (length (bh_nodes h)) then Inr (bh_nodes h ! nat i) else Inl (UB ''node outside of the heap''))"

definition set_node :: "('d, 'arg) binaryheap \<Rightarrow> int \<Rightarrow> 'd \<Rightarrow> ('d, 'arg) binaryheap result" where
  "set_node h i d =
     (if 0 \<le> i \<and> i < int (length (bh_nodes h)) then Inr (h\<lparr>bh_nodes := (bh_nodes h)[nat i := d]\<rparr>)
      else Inl (UB ''node outside of the heap''))"

definition swap_nodes :: "('d, 'arg) binaryheap \<Rightarrow> int \<Rightarrow> int \<Rightarrow> ('d, 'arg) binaryheap result" where
  "swap_nodes h a b =
     bindE (node_at h a) (\<lambda>swap.
     bindE (node_at h b) (\<lambda>nb.
     bindE (set_node h a nb) (\<lambda>h1. set_node h1 b swap)))"

text \<open>The comparison of two nodes.\<close>

definition compare_nodes :: "'arg \<Rightarrow> ('d, 'arg) binaryheap \<Rightarrow> int \<Rightarrow> int \<Rightarrow> int result" where
  "compare_nodes arg h i j = bindE (node_at h i) (\<lambda>a. bindE (node_at h j) (\<lambda>b. bh_compare h a b arg))"

text \<open>The choice that an iteration of \<^verbatim>\<open>sift_down\<close> makes: the child to swap with, or 0.\<close>

definition larger_child :: "'arg \<Rightarrow> ('d, 'arg) binaryheap \<Rightarrow> int \<Rightarrow> int result" where
  "larger_child arg h node_off =
     (let left_off = left_offset node_off; right_off = right_offset node_off
      in bindE (if left_off < bh_size h
                then bindE (compare_nodes arg h node_off left_off) (\<lambda>c. Inr (if c < 0 then left_off else 0))
                else Inr 0) (\<lambda>swap_off.
         if right_off < bh_size h
         then bindE (compare_nodes arg h node_off right_off) (\<lambda>c.
              if c < 0
              then if swap_off = 0 then Inr right_off
                   else bindE (compare_nodes arg h left_off right_off) (\<lambda>c2. Inr (if c2 < 0 then right_off else swap_off))
              else Inr swap_off)
         else Inr swap_off))"

lemma node_at_Inr: "node_at h i = Inr a \<Longrightarrow> 0 \<le> i"
  by (simp add: node_at_def split: if_splits)

lemma compare_nodes_Inr: "compare_nodes arg h i j = Inr c \<Longrightarrow> 0 \<le> i"
  by (auto simp: compare_nodes_def bindE_eq_Inr dest: node_at_Inr)

lemma larger_child_bounds:
  assumes "larger_child arg h i = Inr s" and "s \<noteq> 0"
  shows "i < s" and "s < bh_size h"
proof -
  have "(s = 2 * i + 1 \<or> s = 2 * i + 2) \<and> s < bh_size h \<and> 0 \<le> i"
    using assms
    by (auto simp: larger_child_def left_offset_def right_offset_def Let_def bindE_eq_Inr split: if_splits dest!: compare_nodes_Inr)
  then show "i < s" "s < bh_size h" by auto
qed

lemma swap_nodes_size: "swap_nodes h a b = Inr h1 \<Longrightarrow> bh_size h1 = bh_size h"
  by (auto simp: swap_nodes_def set_node_def bindE_eq_Inr split: if_splits)

lemma sift_down_decreases:
  assumes "larger_child arg h i = Inr s" and "s \<noteq> 0" and "swap_nodes h s i = Inr h1"
  shows "i < bh_size h \<and> bh_size h1 - s < bh_size h - i"
  using larger_child_bounds [OF assms(1,2)] swap_nodes_size [OF assms(3)] by simp

function sift_down :: "'arg \<Rightarrow> ('d, 'arg) binaryheap \<Rightarrow> int \<Rightarrow> ('d, 'arg) binaryheap result" where
  "sift_down arg h node_off =
     (case larger_child arg h node_off of
        Inl e \<Rightarrow> Inl e
      | Inr swap_off \<Rightarrow>
          if swap_off = 0 then Inr h
          else
            case swap_nodes h swap_off node_off of
              Inl e \<Rightarrow> Inl e
            | Inr h1 \<Rightarrow> sift_down arg h1 swap_off)"
  by pat_completeness auto

termination
  by (relation "measure (\<lambda>(arg, h, i). nat (bh_size h - i))") (simp_all add: sift_down_decreases)

function sift_up :: "'arg \<Rightarrow> ('d, 'arg) binaryheap \<Rightarrow> int \<Rightarrow> ('d, 'arg) binaryheap result" where
  "sift_up arg h node_off =
     (if node_off = 0 then Inr h
      else
        case compare_nodes arg h node_off (parent_offset node_off) of
          Inl e \<Rightarrow> Inl e
        | Inr cmp \<Rightarrow>
            if cmp \<le> 0 then Inr h
            else
              case swap_nodes h node_off (parent_offset node_off) of
                Inl e \<Rightarrow> Inl e
              | Inr h1 \<Rightarrow> sift_up arg h1 (parent_offset node_off))"
  by pat_completeness auto

termination
  by (relation "measure (\<lambda>(arg, h, i). nat i)") (auto simp: parent_offset_def c_div_def dest!: compare_nodes_Inr)

declare sift_down.simps [simp del] sift_up.simps [simp del]

definition binaryheap_add_unordered :: "('d, 'arg) binaryheap \<Rightarrow> 'd \<Rightarrow> ('d, 'arg) binaryheap result" where
  "binaryheap_add_unordered h d =
     (if bh_size h \<ge> bh_space h then Inl (ERROR ''out of binary heap slots'')
      else bindE (set_node (h\<lparr>bh_has_heap_property := False\<rparr>) (bh_size h) d) (\<lambda>h1. Inr (h1\<lparr>bh_size := bh_size h + 1\<rparr>)))"

text \<open>The loop of \<^verbatim>\<open>binaryheap_build\<close>, from node \<open>n - 1\<close> down to node 0.\<close>

fun build_loop :: "'arg \<Rightarrow> nat \<Rightarrow> ('d, 'arg) binaryheap \<Rightarrow> ('d, 'arg) binaryheap result" where
  "build_loop arg 0 h = Inr h"
| "build_loop arg (Suc n) h = bindE (sift_down arg h (int n)) (build_loop arg n)"

definition binaryheap_build :: "'arg \<Rightarrow> ('d, 'arg) binaryheap \<Rightarrow> ('d, 'arg) binaryheap result" where
  "binaryheap_build arg h =
     bindE (build_loop arg (nat (parent_offset (bh_size h - 1) + 1)) h) (\<lambda>h1. Inr (h1\<lparr>bh_has_heap_property := True\<rparr>))"

definition binaryheap_add :: "'arg \<Rightarrow> ('d, 'arg) binaryheap \<Rightarrow> 'd \<Rightarrow> ('d, 'arg) binaryheap result" where
  "binaryheap_add arg h d =
     (if bh_size h \<ge> bh_space h then Inl (ERROR ''out of binary heap slots'')
      else
        bindE (set_node h (bh_size h) d) (\<lambda>h1.
        let h2 = h1\<lparr>bh_size := bh_size h1 + 1\<rparr> in sift_up arg h2 (bh_size h2 - 1)))"

definition binaryheap_first :: "('d, 'arg) binaryheap \<Rightarrow> 'd result" where
  "binaryheap_first h = node_at h 0"

definition binaryheap_remove_first :: "'arg \<Rightarrow> ('d, 'arg) binaryheap \<Rightarrow> ('d \<times> ('d, 'arg) binaryheap) result" where
  "binaryheap_remove_first arg h =
     (if bh_size h = 1 then bindE (node_at h 0) (\<lambda>d. Inr (d, h\<lparr>bh_size := 0\<rparr>))
      else
        bindE (swap_nodes h 0 (bh_size h - 1)) (\<lambda>h1.
        bindE (sift_down arg (h1\<lparr>bh_size := bh_size h1 - 1\<rparr>) 0) (\<lambda>h2.
        bindE (node_at h2 (bh_size h2)) (\<lambda>d. Inr (d, h2)))))"

definition binaryheap_replace_first :: "'arg \<Rightarrow> ('d, 'arg) binaryheap \<Rightarrow> 'd \<Rightarrow> ('d, 'arg) binaryheap result" where
  "binaryheap_replace_first arg h d =
     bindE (set_node h 0 d) (\<lambda>h1. if bh_size h1 > 1 then sift_down arg h1 0 else Inr h1)"

end
