(* ===== verification/HeapQueue.thy ===== *)
theory HeapQueue
  imports BinaryHeap "HOL-Library.Multiset"
begin

text \<open>
  The binary heaps of \<^verbatim>\<open>binaryheap.c\<close> are priority queues.  Sifting restores the heap property and permutes the nodes; the
  operations act on the multiset of the elements.  The order may change between two operations as long as only the rank
  of the first element changes, since clients store keys outside of the heap.
\<close>

section \<open>The heap property\<close>

text \<open>
  A comparator that returns a number without an error, whose sign is that of a total preorder.
\<close>

definition compares :: "'d set \<Rightarrow> ('d \<Rightarrow> 'd \<Rightarrow> int result) \<Rightarrow> ('d \<Rightarrow> 'd \<Rightarrow> bool) \<Rightarrow> bool" where
  "compares S cmp le \<longleftrightarrow>
     (\<forall>a \<in> S. \<forall>b \<in> S. \<exists>c. cmp a b = Inr c \<and> (c \<le> 0 \<longleftrightarrow> le a b) \<and> (c < 0 \<longleftrightarrow> \<not> le b a)) \<and>
     (\<forall>a \<in> S. \<forall>b \<in> S. \<forall>c \<in> S. le a b \<longrightarrow> le b c \<longrightarrow> le a c)"

lemma compares_sign:
  assumes "compares S cmp le" and "a \<in> S" and "b \<in> S"
  shows "\<exists>c. cmp a b = Inr c \<and> (c \<le> 0 \<longleftrightarrow> le a b) \<and> (c < 0 \<longleftrightarrow> \<not> le b a)"
  using assms unfolding compares_def by blast

lemma compares_total: "compares S cmp le \<Longrightarrow> a \<in> S \<Longrightarrow> b \<in> S \<Longrightarrow> le a b \<or> le b a"
  using compares_sign [of S cmp le a b] by (metis linorder_not_le order_less_le)

lemma compares_trans: "compares S cmp le \<Longrightarrow> a \<in> S \<Longrightarrow> b \<in> S \<Longrightarrow> c \<in> S \<Longrightarrow> le a b \<Longrightarrow> le b c \<Longrightarrow> le a c"
  unfolding compares_def by blast

lemma compares_refl: "compares S cmp le \<Longrightarrow> a \<in> S \<Longrightarrow> le a a"
  using compares_total [of S cmp le a a] by simp

definition up :: "nat \<Rightarrow> nat" where
  "up i = (i - 1) div 2"

text \<open>Every node from \<open>k\<close> on is at least as great as its children, except for the children of node \<open>j\<close>.\<close>

definition heap_but :: "('d \<Rightarrow> 'd \<Rightarrow> bool) \<Rightarrow> nat \<Rightarrow> nat \<Rightarrow> 'd list \<Rightarrow> bool" where
  "heap_but le k j xs \<longleftrightarrow> (\<forall>i < length xs. 0 < i \<longrightarrow> k \<le> up i \<longrightarrow> up i \<noteq> j \<longrightarrow> le (xs ! i) (xs ! up i))"

text \<open>The children of node \<open>j\<close> are no greater than its parent, when that is one of the nodes from \<open>k\<close> on.\<close>

definition grandchildren :: "('d \<Rightarrow> 'd \<Rightarrow> bool) \<Rightarrow> nat \<Rightarrow> nat \<Rightarrow> 'd list \<Rightarrow> bool" where
  "grandchildren le k j xs \<longleftrightarrow> (\<forall>i < length xs. 0 < i \<longrightarrow> up i = j \<longrightarrow> 0 < j \<longrightarrow> k \<le> up j \<longrightarrow> le (xs ! i) (xs ! up j))"

definition heap_from :: "('d \<Rightarrow> 'd \<Rightarrow> bool) \<Rightarrow> nat \<Rightarrow> 'd list \<Rightarrow> bool" where
  "heap_from le k xs \<longleftrightarrow> (\<forall>i < length xs. 0 < i \<longrightarrow> k \<le> up i \<longrightarrow> le (xs ! i) (xs ! up i))"

lemma up_less: "0 < i \<Longrightarrow> up i < i"
  by (simp add: up_def)

lemma up_child: "0 < i \<Longrightarrow> up i = j \<longleftrightarrow> i = 2 * j + 1 \<or> i = 2 * j + 2"
  unfolding up_def by presburger

text \<open>The root of a heap is a greatest element.\<close>

lemma heap_root:
  assumes "compares S cmp le" and "set xs \<subseteq> S" and "heap_from le 0 xs"
  shows "i < length xs \<Longrightarrow> le (xs ! i) (xs ! 0)"
proof (induction i rule: less_induct)
  case (less i)
  have S: "xs ! j \<in> S" if "j < length xs" for j by (rule subsetD [OF assms(2) nth_mem [OF that]])
  show ?case
  proof (cases "i = 0")
    case True
    then show ?thesis using compares_refl [OF assms(1) S [of 0]] less.prems by simp
  next
    case False
    then have u: "up i < i" by (simp add: up_less)
    then have "le (xs ! i) (xs ! up i)" using assms(3) less.prems False by (simp add: heap_from_def)
    moreover have "le (xs ! up i) (xs ! 0)" using less.IH [OF u] u less.prems by simp
    moreover have "xs ! i \<in> S" "xs ! up i \<in> S" "xs ! 0 \<in> S" using S [of i] S [of "up i"] S [of 0] u less.prems by (cases xs; auto)+
    ultimately show ?thesis using compares_trans [OF assms(1), of "xs ! i" "xs ! up i" "xs ! 0"] by simp
  qed
qed

text \<open>One step of sifting down: the node is swapped with a greatest child that exceeds it.\<close>

lemma swap_down:
  assumes cmp: "compares S cmp le" "set xs \<subseteq> S" and k: "heap_but le k j xs" "grandchildren le k j xs" "k \<le> j"
    and s: "s < length xs" "0 < s" "up s = j" "le (xs ! j) (xs ! s)"
    and sib: "\<forall>i < length xs. 0 < i \<longrightarrow> up i = j \<longrightarrow> le (xs ! i) (xs ! s)"
  defines "ys \<equiv> xs[s := xs ! j, j := xs ! s]"
  shows "heap_but le k s ys" "grandchildren le k s ys"
proof -
  have js: "j < s" using s(2,3) up_less by blast
  have ys: "ys ! i = (if i = j then xs ! s else if i = s then xs ! j else xs ! i)" if "i < length xs" for i
    using that s(1) js by (simp add: ys_def nth_list_update)
  show "heap_but le k s ys"
    unfolding heap_but_def
  proof (intro allI impI)
    fix i assume i: "i < length ys" "0 < i" "k \<le> up i" "up i \<noteq> s"
    then have il: "i < length xs" "up i < length xs" using up_less [of i] by (simp_all add: ys_def)
    consider "i = s" | "i \<noteq> s" "up i = j" | "i = j" | "i \<noteq> s" "up i \<noteq> j" "i \<noteq> j" by blast
    then show "le (ys ! i) (ys ! up i)"
    proof cases
      case 3
      then have "up i \<noteq> j" using up_less [OF i(2)] by simp
      moreover have "le (xs ! s) (xs ! up j)" using k(2) s 3 i by (simp add: grandchildren_def)
      ultimately show ?thesis using 3 i(4) il by (simp add: ys)
    next
      case 4
      then have "le (xs ! i) (xs ! up i)" using k(1) il(1) i by (simp add: heap_but_def)
      with 4 i(4) il show ?thesis by (simp add: ys)
    qed (use s sib il i js up_less [of i] in \<open>auto simp: ys\<close>)
  qed
  show "grandchildren le k s ys"
    unfolding grandchildren_def
  proof (intro allI impI)
    fix i assume i: "i < length ys" "0 < i" "up i = s" "0 < s" "k \<le> up s"
    then have il: "i < length xs" "s < i" using up_less [of i] by (simp_all add: ys_def)
    have "le (xs ! i) (xs ! s)" using k(1) il(1) i js s(3) k(3) by (auto simp: heap_but_def)
    then show "le (ys ! i) (ys ! up s)" using il js s(1,3) by (simp add: ys)
  qed
qed

section \<open>Sifting\<close>

definition heap_elems :: "('d, 'arg) binaryheap \<Rightarrow> 'd list" where
  "heap_elems h = take (nat (bh_size h)) (bh_nodes h)"

definition shape :: "('d, 'arg) binaryheap \<Rightarrow> bool" where
  "shape h \<longleftrightarrow> 0 \<le> bh_size h \<and> bh_size h \<le> int (length (bh_nodes h))"

abbreviation heap_compares :: "'arg \<Rightarrow> ('d, 'arg) binaryheap \<Rightarrow> 'd set \<Rightarrow> ('d \<Rightarrow> 'd \<Rightarrow> bool) \<Rightarrow> bool" where
  "heap_compares arg h S le \<equiv> compares S (\<lambda>a b. bh_compare h a b arg) le"

text \<open>A heap with its nodes permuted; what is behind the nodes in use stays as it is.\<close>

definition rearranged :: "('d, 'arg) binaryheap \<Rightarrow> ('d, 'arg) binaryheap \<Rightarrow> bool" where
  "rearranged h h' \<longleftrightarrow> h' = h\<lparr>bh_nodes := bh_nodes h'\<rparr> \<and> mset (heap_elems h') = mset (heap_elems h) \<and>
     length (bh_nodes h') = length (bh_nodes h) \<and> drop (nat (bh_size h)) (bh_nodes h') = drop (nat (bh_size h)) (bh_nodes h)"

lemma rearranged_same [simp]: "rearranged h h"
  by (simp add: rearranged_def)

lemma rearranged_trans: "rearranged h h1 \<Longrightarrow> rearranged h1 h2 \<Longrightarrow> rearranged h h2"
  unfolding rearranged_def by (metis binaryheap.select_convs(1,5) binaryheap.surjective binaryheap.update_convs(5))

lemma rearranged_fields:
  "rearranged h h' \<Longrightarrow> bh_size h' = bh_size h \<and> bh_space h' = bh_space h \<and> bh_compare h' = bh_compare h \<and>
     bh_has_heap_property h' = bh_has_heap_property h"
  unfolding rearranged_def by (metis binaryheap.select_convs(1-4) binaryheap.surjective binaryheap.update_convs(5))

lemma length_heap_elems: "shape h \<Longrightarrow> length (heap_elems h) = nat (bh_size h)"
  by (auto simp: shape_def heap_elems_def)

lemma node_at_elem: "shape h \<Longrightarrow> i < nat (bh_size h) \<Longrightarrow> node_at h (int i) = Inr (heap_elems h ! i)"
  by (auto simp: node_at_def shape_def heap_elems_def)

lemma swap_elems:
  assumes "shape h" and "i < nat (bh_size h)" and "j < nat (bh_size h)"
  shows "\<exists>h'. swap_nodes h (int i) (int j) = Inr h' \<and> rearranged h h' \<and>
    heap_elems h' = (heap_elems h)[i := heap_elems h ! j, j := heap_elems h ! i]"
proof -
  let ?xs = "bh_nodes h" and ?n = "nat (bh_size h)"
  have n: "i < length ?xs" "j < length ?xs" using assms by (auto simp: shape_def)
  define h' where "h' = h\<lparr>bh_nodes := ?xs[i := ?xs ! j, j := ?xs ! i]\<rparr>"
  have run: "swap_nodes h (int i) (int j) = Inr h'" using n by (simp add: swap_nodes_def node_at_def set_node_def h'_def)
  have elems: "heap_elems h' = (heap_elems h)[i := heap_elems h ! j, j := heap_elems h ! i]"
    using assms by (simp add: heap_elems_def h'_def take_update_swap)
  moreover have "mset (heap_elems h') = mset (heap_elems h)"
    unfolding elems using assms length_heap_elems [OF assms(1)] by (simp add: mset_swap)
  ultimately show ?thesis using run assms by (auto simp: rearranged_def h'_def drop_update_cancel)
qed

lemma compare_elems:
  "shape h \<Longrightarrow> i < nat (bh_size h) \<Longrightarrow> j < nat (bh_size h) \<Longrightarrow>
   compare_nodes arg h (int i) (int j) = bh_compare h (heap_elems h ! i) (heap_elems h ! j) arg"
  by (simp add: compare_nodes_def node_at_elem)

lemma elem_in: "set (heap_elems h) \<subseteq> S \<Longrightarrow> shape h \<Longrightarrow> i < nat (bh_size h) \<Longrightarrow> heap_elems h ! i \<in> S"
  using length_heap_elems [of h] by auto

lemma compare_elems_sign:
  assumes "shape h" and "heap_compares arg h S le" and "set (heap_elems h) \<subseteq> S" and "i < nat (bh_size h)" and "j < nat (bh_size h)"
  obtains c where "compare_nodes arg h (int i) (int j) = Inr c" "c \<le> 0 \<longleftrightarrow> le (heap_elems h ! i) (heap_elems h ! j)"
    "c < 0 \<longleftrightarrow> \<not> le (heap_elems h ! j) (heap_elems h ! i)"
  using compares_sign [OF assms(2) elem_in [OF assms(3,1,4)] elem_in [OF assms(3,1,5)]] assms by (auto simp: compare_elems)

text \<open>The choice of the child.\<close>

lemma larger_child_ok:
  assumes h: "shape h" "heap_compares arg h S le" "set (heap_elems h) \<subseteq> S" and j: "j < nat (bh_size h)"
  defines "xs \<equiv> heap_elems h"
  shows "\<exists>s. larger_child arg h (int j) = Inr (int s) \<and>
    (if s = 0 then \<forall>i < length xs. 0 < i \<longrightarrow> up i = j \<longrightarrow> le (xs ! i) (xs ! j)
     else s < length xs \<and> up s = j \<and> le (xs ! j) (xs ! s) \<and> (\<forall>i < length xs. 0 < i \<longrightarrow> up i = j \<longrightarrow> le (xs ! i) (xs ! s)))"
proof -
  let ?n = "nat (bh_size h)" and ?l = "2 * j + 1" and ?r = "2 * j + 2"
  have n: "length xs = ?n" "0 \<le> bh_size h" using length_heap_elems [OF h(1)] h(1) by (simp_all add: xs_def shape_def)
  have off: "left_offset (int j) = int ?l" "right_offset (int j) = int ?r" by (simp_all add: left_offset_def right_offset_def)
  have lt: "int ?l < bh_size h \<longleftrightarrow> ?l < ?n" "int ?r < bh_size h \<longleftrightarrow> ?r < ?n" by linarith+
  have refl: "le (xs ! i) (xs ! i)" if "i < ?n" for i using compares_refl [OF h(2) elem_in [OF h(3,1) that]] by (simp add: xs_def)
  have tot: "le (xs ! a) (xs ! b) \<or> le (xs ! b) (xs ! a)" if "a < ?n" "b < ?n" for a b
    using compares_total [OF h(2) elem_in [OF h(3,1) that(1)] elem_in [OF h(3,1) that(2)]] by (simp add: xs_def)
  have tr: "le (xs ! a) (xs ! c)" if "le (xs ! a) (xs ! b)" "le (xs ! b) (xs ! c)" "a < ?n" "b < ?n" "c < ?n" for a b c
    using compares_trans [OF h(2) elem_in [OF h(3,1) that(3)] elem_in [OF h(3,1) that(4)] elem_in [OF h(3,1) that(5)]] that(1,2) by (simp add: xs_def)
  have ch: "up i = j \<longleftrightarrow> i = ?l \<or> i = ?r" if "0 < i" for i using up_child [OF that, of j] by simp
  have up: "up ?l = j" "up ?r = j" using ch by simp_all
  show ?thesis
  proof (cases "?l < ?n")
    case False
    then show ?thesis using n ch by (intro exI [of _ 0]) (auto simp: larger_child_def off lt Let_def)
  next
    case l: True
    obtain cl where cl: "compare_nodes arg h (int j) (int ?l) = Inr cl" "cl < 0 \<longleftrightarrow> \<not> le (xs ! ?l) (xs ! j)"
      using compare_elems_sign [OF h j l] by (metis xs_def)
    show ?thesis
    proof (cases "?r < ?n")
      case False
      then show ?thesis
        using l cl n ch up refl tot [OF j l]
        by (intro exI [of _ "if cl < 0 then ?l else 0"]) (auto simp: larger_child_def off lt Let_def)
    next
      case r: True
      obtain cr where cr: "compare_nodes arg h (int j) (int ?r) = Inr cr" "cr < 0 \<longleftrightarrow> \<not> le (xs ! ?r) (xs ! j)"
        using compare_elems_sign [OF h j r] by (metis xs_def)
      obtain c2 where c2: "compare_nodes arg h (int ?l) (int ?r) = Inr c2" "c2 < 0 \<longleftrightarrow> \<not> le (xs ! ?r) (xs ! ?l)"
        using compare_elems_sign [OF h l r] by (metis xs_def)
      define s where "s = (if cr < 0 then if cl < 0 \<and> \<not> c2 < 0 then ?l else ?r else if cl < 0 then ?l else 0)"
      have "larger_child arg h (int j) = Inr (int s)"
        unfolding larger_child_def Let_def off lt using l r cl(1) cr(1) c2(1) by (simp add: s_def)
      moreover have "if s = 0 then le (xs ! ?l) (xs ! j) \<and> le (xs ! ?r) (xs ! j)
          else s < ?n \<and> up s = j \<and> le (xs ! j) (xs ! s) \<and> le (xs ! ?l) (xs ! s) \<and> le (xs ! ?r) (xs ! s)"
        using cl(2) cr(2) c2(2) l r up refl [OF l] refl [OF r] tot [OF j l] tot [OF j r] tot [OF l r]
          tr [OF _ _ r j l] tr [OF _ _ l j r] by (simp add: s_def) blast
      then have "if s = 0 then \<forall>i < length xs. 0 < i \<longrightarrow> up i = j \<longrightarrow> le (xs ! i) (xs ! j)
          else s < length xs \<and> up s = j \<and> le (xs ! j) (xs ! s) \<and> (\<forall>i < length xs. 0 < i \<longrightarrow> up i = j \<longrightarrow> le (xs ! i) (xs ! s))"
        using ch n(1) by (cases "s = 0") auto
      ultimately show ?thesis by blast
    qed
  qed
qed

lemma rearranged_shape: "rearranged h h' \<Longrightarrow> shape h \<Longrightarrow> shape h'"
  using rearranged_fields [of h h'] by (simp add: shape_def rearranged_def)

lemma rearranged_set: "rearranged h h' \<Longrightarrow> set (heap_elems h') = set (heap_elems h)"
  unfolding rearranged_def by (metis set_mset_mset)

lemma sift_down_ok:
  "shape h \<Longrightarrow> heap_compares arg h S le \<Longrightarrow> set (heap_elems h) \<subseteq> S \<Longrightarrow> j < nat (bh_size h) \<Longrightarrow>
   heap_but le k j (heap_elems h) \<Longrightarrow> grandchildren le k j (heap_elems h) \<Longrightarrow> k \<le> j \<Longrightarrow>
   \<exists>h'. sift_down arg h (int j) = Inr h' \<and> rearranged h h' \<and> heap_from le k (heap_elems h')"
proof (induction "nat (bh_size h) - j" arbitrary: h j rule: less_induct)
  case less
  note h = less.prems(1-3) and j = less.prems(4) and ord = less.prems(5,6)
  let ?xs = "heap_elems h"
  have n: "length ?xs = nat (bh_size h)" by (rule length_heap_elems [OF h(1)])
  from larger_child_ok [OF h j] obtain s where
    s: "larger_child arg h (int j) = Inr (int s)"
      "if s = 0 then \<forall>i < length ?xs. 0 < i \<longrightarrow> up i = j \<longrightarrow> le (?xs ! i) (?xs ! j)
       else s < length ?xs \<and> up s = j \<and> le (?xs ! j) (?xs ! s) \<and> (\<forall>i < length ?xs. 0 < i \<longrightarrow> up i = j \<longrightarrow> le (?xs ! i) (?xs ! s))"
    by blast
  show ?case
  proof (cases "s = 0")
    case True
    then have "heap_from le k ?xs" using ord(1) s(2) unfolding heap_from_def heap_but_def by (metis (full_types))
    then show ?thesis using s(1) True by (simp add: sift_down.simps)
  next
    case False
    then have sl: "s < nat (bh_size h)" "up s = j" "le (?xs ! j) (?xs ! s)" "\<forall>i < length ?xs. 0 < i \<longrightarrow> up i = j \<longrightarrow> le (?xs ! i) (?xs ! s)"
      using s(2) n by simp_all
    have js: "j < s" using up_less [of s] sl(2) False by simp
    from swap_elems [OF h(1) sl(1) j] obtain h1 where
      h1: "swap_nodes h (int s) (int j) = Inr h1" "rearranged h h1" "heap_elems h1 = ?xs[s := ?xs ! j, j := ?xs ! s]" by blast
    have f1: "bh_size h1 = bh_size h" "bh_compare h1 = bh_compare h" using rearranged_fields [OF h1(2)] by simp_all
    have "heap_but le k s (heap_elems h1)" "grandchildren le k s (heap_elems h1)"
      unfolding h1(3) using swap_down [OF h(2,3) ord less.prems(7) _ _ sl(2-4)] sl(1) n False by simp_all
    moreover have "shape h1" "set (heap_elems h1) \<subseteq> S" using rearranged_shape [OF h1(2) h(1)] rearranged_set [OF h1(2)] h(3) by simp_all
    moreover have "nat (bh_size h1) - s < nat (bh_size h) - j" using f1(1) js sl(1) by (simp add: diff_less_mono2)
    ultimately obtain h' where
      "sift_down arg h1 (int s) = Inr h'" "rearranged h1 h'" "heap_from le k (heap_elems h')"
      using less.hyps [of h1 s] f1 js sl(1) h(2) less.prems(7) by auto
    then show ?thesis using s(1) h1(1) rearranged_trans [OF h1(2)] False by (subst sift_down.simps) simp
  qed
qed

text \<open>One step of sifting up: the node exceeds its parent and is swapped with it.\<close>

definition heap_above :: "('d \<Rightarrow> 'd \<Rightarrow> bool) \<Rightarrow> nat \<Rightarrow> 'd list \<Rightarrow> bool" where
  "heap_above le j xs \<longleftrightarrow> (\<forall>i < length xs. 0 < i \<longrightarrow> i \<noteq> j \<longrightarrow> le (xs ! i) (xs ! up i)) \<and> grandchildren le 0 j xs"

lemma swap_up:
  assumes cmp: "compares S cmp le" "set xs \<subseteq> S" and j: "heap_above le j xs" "j < length xs" "0 < j" "le (xs ! up j) (xs ! j)"
  defines "ys \<equiv> xs[j := xs ! up j, up j := xs ! j]"
  shows "heap_above le (up j) ys"
proof -
  let ?p = "up j"
  have pj: "?p < j" using up_less j(3) by simp
  have S: "xs ! i \<in> S" if "i < length xs" for i by (rule subsetD [OF cmp(2) nth_mem [OF that]])
  have ys: "ys ! i = (if i = ?p then xs ! j else if i = j then xs ! ?p else xs ! i)" if "i < length xs" for i
    using that j(2) pj by (simp add: ys_def nth_list_update)
  have old: "le (xs ! i) (xs ! up i)" if "i < length xs" "0 < i" "i \<noteq> j" for i using j(1) that by (simp add: heap_above_def)
  have gc: "le (xs ! i) (xs ! ?p)" if "i < length xs" "0 < i" "up i = j" for i
    using j(1,3) that by (simp add: heap_above_def grandchildren_def)
  have "le (ys ! i) (ys ! up i)" if i: "i < length ys" "0 < i" "i \<noteq> ?p" for i
  proof -
    have il: "i < length xs" "up i < length xs" "up i < i" using i up_less [of i] by (simp_all add: ys_def)
    consider "i = j" | "i \<noteq> j" "up i = ?p" | "up i = j" | "i \<noteq> j" "up i \<noteq> ?p" "up i \<noteq> j" by blast
    then show ?thesis
    proof cases
      case 2
      have "le (xs ! i) (xs ! j)"
        using compares_trans [OF cmp(1) S [OF il(1)] S [of ?p] S [OF j(2)]] old [OF il(1) i(2) 2(1)] 2(2) j(4) il by simp
      with 2 i il show ?thesis by (simp add: ys)
    next
      case 3
      then show ?thesis using gc [OF il(1) i(2)] i il pj by (auto simp: ys)
    qed (use i il pj j(4) old in \<open>auto simp: ys\<close>)
  qed
  moreover have "grandchildren le 0 ?p ys"
    unfolding grandchildren_def
  proof (intro allI impI)
    fix i assume i: "i < length ys" "0 < i" "up i = ?p" "0 < ?p" "0 \<le> up ?p"
    have il: "i < length xs" "?p < length xs" "up ?p < ?p" using i up_less [of ?p] j(2) pj by (simp_all add: ys_def)
    have q: "le (xs ! ?p) (xs ! up ?p)" using old [of ?p] i(4) il pj by simp
    show "le (ys ! i) (ys ! up ?p)"
    proof (cases "i = j")
      case True
      then show ?thesis using q il pj j(2) by (simp add: ys)
    next
      case False
      have "le (xs ! i) (xs ! up ?p)"
        using compares_trans [OF cmp(1) S [OF il(1)] S [OF il(2)] S [of "up ?p"]] old [OF il(1) i(2) False] i(3) q il by simp
      moreover have "i \<noteq> ?p" using i(3) up_less [OF i(2)] by simp
      ultimately show ?thesis using False il pj by (simp add: ys)
    qed
  qed
  ultimately show ?thesis by (simp add: heap_above_def)
qed

lemma sift_up_ok:
  "shape h \<Longrightarrow> heap_compares arg h S le \<Longrightarrow> set (heap_elems h) \<subseteq> S \<Longrightarrow> j < nat (bh_size h) \<Longrightarrow> heap_above le j (heap_elems h) \<Longrightarrow>
   \<exists>h'. sift_up arg h (int j) = Inr h' \<and> rearranged h h' \<and> heap_from le 0 (heap_elems h')"
proof (induction j arbitrary: h rule: less_induct)
  case (less j)
  note h = less.prems(1-3) and j = less.prems(4) and ord = less.prems(5)
  let ?xs = "heap_elems h"
  have n: "length ?xs = nat (bh_size h)" by (rule length_heap_elems [OF h(1)])
  show ?case
  proof (cases "j = 0")
    case True
    then show ?thesis using ord by (simp add: sift_up.simps heap_from_def heap_above_def)
  next
    case False
    then have p: "up j < j" "up j < nat (bh_size h)" "parent_offset (int j) = int (up j)"
      using up_less [of j] j by (simp_all add: parent_offset_def c_div_def up_def zdiv_int of_nat_diff)
    obtain c where c: "compare_nodes arg h (int j) (int (up j)) = Inr c" "c \<le> 0 \<longleftrightarrow> le (?xs ! j) (?xs ! up j)"
      "c < 0 \<longleftrightarrow> \<not> le (?xs ! up j) (?xs ! j)" using compare_elems_sign [OF h j p(2)] by metis
    show ?thesis
    proof (cases "c \<le> 0")
      case True
      then have "heap_from le 0 ?xs" using ord c(2) unfolding heap_from_def heap_above_def by (metis (full_types))
      then show ?thesis using c(1) True False p(3) by (simp add: sift_up.simps)
    next
      case gt: False
      then have le: "le (?xs ! up j) (?xs ! j)" using c(3) by simp
      from swap_elems [OF h(1) j p(2)] obtain h1 where
        h1: "swap_nodes h (int j) (int (up j)) = Inr h1" "rearranged h h1" "heap_elems h1 = ?xs[j := ?xs ! up j, up j := ?xs ! j]" by blast
      have "heap_above le (up j) (heap_elems h1)" unfolding h1(3) using swap_up [OF h(2,3) ord _ _ le] j n False by simp
      moreover have "shape h1" "set (heap_elems h1) \<subseteq> S" using rearranged_shape [OF h1(2) h(1)] rearranged_set [OF h1(2)] h(3) by simp_all
      ultimately obtain h' where "sift_up arg h1 (int (up j)) = Inr h'" "rearranged h1 h'" "heap_from le 0 (heap_elems h')"
        using less.IH [OF p(1), of h1] rearranged_fields [OF h1(2)] h(2) p(2) by auto
      then show ?thesis using c(1) gt h1(1) rearranged_trans [OF h1(2)] False p(3) by (subst sift_up.simps) simp
    qed
  qed
qed

section \<open>Heaps as priority queues\<close>

text \<open>A heap with room for \<^verbatim>\<open>bh_space\<close> nodes that holds the elements \<open>M\<close>, ordered or not.\<close>

definition holds :: "('d, 'arg) binaryheap \<Rightarrow> 'd multiset \<Rightarrow> bool" where
  "holds h M \<longleftrightarrow> shape h \<and> bh_size h \<le> bh_space h \<and> bh_space h \<le> int (length (bh_nodes h)) \<and> mset (heap_elems h) = M"

definition queue :: "('d \<Rightarrow> 'd \<Rightarrow> bool) \<Rightarrow> ('d, 'arg) binaryheap \<Rightarrow> 'd multiset \<Rightarrow> bool" where
  "queue le h M \<longleftrightarrow> holds h M \<and> heap_from le 0 (heap_elems h)"

text \<open>The parts that no operation changes.\<close>

definition same_heap :: "('d, 'arg) binaryheap \<Rightarrow> ('d, 'arg) binaryheap \<Rightarrow> bool" where
  "same_heap h h' \<longleftrightarrow> bh_space h' = bh_space h \<and> bh_compare h' = bh_compare h"

lemma holds_size: "holds h M \<Longrightarrow> bh_size h = int (size M)"
  using length_heap_elems [of h] by (auto simp: holds_def shape_def size_mset [symmetric] simp del: size_mset)

lemma holds_set: "holds h M \<Longrightarrow> set (heap_elems h) = set_mset M"
  by (auto simp: holds_def)

lemma rearranged_holds: "rearranged h h' \<Longrightarrow> holds h M \<Longrightarrow> holds h' M \<and> same_heap h h'"
  using rearranged_fields [of h h'] rearranged_shape [of h h'] by (auto simp: holds_def rearranged_def same_heap_def)

lemma allocate_ok:
  assumes "0 \<le> capacity" and "capacity < 2 ^ 26"
  shows "\<exists>h. binaryheap_allocate garbage capacity compare = Inr h \<and> queue le h {#} \<and> bh_space h = capacity \<and> bh_compare h = compare"
proof -
  have "c_int (32 + 8 * capacity) = 32 + 8 * capacity" using assms by (intro c_int_small) simp_all
  then show ?thesis using assms
    by (simp add: binaryheap_allocate_def Let_def MaxAllocSize_def queue_def holds_def shape_def heap_elems_def heap_from_def)
qed

lemma append_node:
  assumes "holds h M" and "bh_size h < bh_space h"
  shows "\<exists>h1. set_node h (bh_size h) d = Inr h1 \<and> heap_elems (h1\<lparr>bh_size := bh_size h + 1\<rparr>) = heap_elems h @ [d] \<and>
    h1 = h\<lparr>bh_nodes := bh_nodes h1\<rparr> \<and> length (bh_nodes h1) = length (bh_nodes h)"
proof -
  let ?n = "nat (bh_size h)"
  have n: "0 \<le> bh_size h" "?n < length (bh_nodes h)" using assms by (auto simp: holds_def shape_def)
  then have "take (Suc ?n) ((bh_nodes h)[?n := d]) = take ?n (bh_nodes h) @ [d]" by (simp add: take_Suc_conv_app_nth)
  with n assms show ?thesis by (auto simp: set_node_def heap_elems_def holds_def nat_add_distrib)
qed

lemma add_unordered_ok:
  assumes "holds h M"
  shows "if bh_size h < bh_space h
    then \<exists>h'. binaryheap_add_unordered h d = Inr h' \<and> holds h' (add_mset d M) \<and> same_heap h h'
    else binaryheap_add_unordered h d = Inl (ERROR ''out of binary heap slots'')"
proof (cases "bh_size h < bh_space h")
  case True
  have "holds (h\<lparr>bh_has_heap_property := False\<rparr>) M" using assms by (simp add: holds_def shape_def heap_elems_def)
  from append_node [OF this, of d] True obtain h1 where
    h1: "set_node (h\<lparr>bh_has_heap_property := False\<rparr>) (bh_size h) d = Inr h1"
      "heap_elems (h1\<lparr>bh_size := bh_size h + 1\<rparr>) = heap_elems h @ [d]"
      "h1 = h\<lparr>bh_has_heap_property := False, bh_nodes := bh_nodes h1\<rparr>" "length (bh_nodes h1) = length (bh_nodes h)"
    by (auto simp: heap_elems_def)
  have "bh_space h1 = bh_space h" "bh_compare h1 = bh_compare h" by (subst h1(3), simp)+
  with h1 True assms show ?thesis
    by (auto simp: binaryheap_add_unordered_def holds_def shape_def same_heap_def)
qed (simp add: binaryheap_add_unordered_def)

lemma build_loop_ok:
  "shape h \<Longrightarrow> heap_compares arg h S le \<Longrightarrow> set (heap_elems h) \<subseteq> S \<Longrightarrow> n \<le> nat (bh_size h) \<Longrightarrow> heap_from le n (heap_elems h) \<Longrightarrow>
   \<exists>h'. build_loop arg n h = Inr h' \<and> rearranged h h' \<and> heap_from le 0 (heap_elems h')"
proof (induction n arbitrary: h)
  case (Suc n)
  have "heap_but le n n (heap_elems h)" "grandchildren le n n (heap_elems h)"
    using Suc.prems(5) up_less [of n] by (auto simp: heap_but_def heap_from_def grandchildren_def)
  with sift_down_ok [OF Suc.prems(1-3), of n n] Suc.prems(4) obtain h1 where
    h1: "sift_down arg h (int n) = Inr h1" "rearranged h h1" "heap_from le n (heap_elems h1)" by auto
  from Suc.IH [of h1] h1(3) rearranged_shape [OF h1(2) Suc.prems(1)] rearranged_set [OF h1(2)] rearranged_fields [OF h1(2)] Suc.prems(2-4)
  obtain h' where "build_loop arg n h1 = Inr h'" "rearranged h1 h'" "heap_from le 0 (heap_elems h')" by auto
  with h1 rearranged_trans [OF h1(2)] show ?case by auto
qed auto

lemma build_ok:
  assumes "holds h M" and "heap_compares arg h (set_mset M) le"
  shows "\<exists>h'. binaryheap_build arg h = Inr h' \<and> queue le h' M \<and> same_heap h h'"
proof -
  let ?n = "nat (bh_size h)" and ?m = "nat (parent_offset (bh_size h - 1) + 1)"
  have h: "shape h" "set (heap_elems h) \<subseteq> set_mset M" using assms(1) holds_set [of h M] by (auto simp: holds_def)
  have m: "?m \<le> ?n" "\<And>i. i < ?n \<Longrightarrow> 0 < i \<Longrightarrow> up i < ?m"
    using h(1) by (auto simp: parent_offset_def c_div_def up_def shape_def)
  have "heap_from le ?m (heap_elems h)" using m(2) length_heap_elems [OF h(1)] by (fastforce simp: heap_from_def)
  from build_loop_ok [OF h(1) assms(2) h(2) m(1) this] obtain h1 where
    h1: "build_loop arg ?m h = Inr h1" "rearranged h h1" "heap_from le 0 (heap_elems h1)" by blast
  with rearranged_holds [OF h1(2) assms(1)] show ?thesis
    by (simp add: binaryheap_build_def queue_def holds_def shape_def heap_elems_def same_heap_def)
qed

lemma heap_above_snoc:
  assumes "heap_from le 0 xs"
  shows "heap_above le (length xs) (xs @ [d])"
  unfolding heap_above_def
proof (intro conjI allI impI)
  fix i assume i: "i < length (xs @ [d])" "0 < i" "i \<noteq> length xs"
  then have "i < length xs" "up i < length xs" using up_less [OF i(2)] by simp_all
  with assms i(2) show "le ((xs @ [d]) ! i) ((xs @ [d]) ! up i)" by (simp add: heap_from_def nth_append)
next
  have "up i \<noteq> length xs" if "i < length (xs @ [d])" "0 < i" for i using up_less [OF that(2)] that(1) by simp
  then show "grandchildren le 0 (length xs) (xs @ [d])" unfolding grandchildren_def by blast
qed

lemma add_ok:
  assumes "queue le h M" and "heap_compares arg h (insert d (set_mset M)) le"
  shows "if bh_size h < bh_space h
    then \<exists>h'. binaryheap_add arg h d = Inr h' \<and> queue le h' (add_mset d M) \<and> same_heap h h'
    else binaryheap_add arg h d = Inl (ERROR ''out of binary heap slots'')"
proof (cases "bh_size h < bh_space h")
  case True
  have H: "holds h M" "shape h" "heap_from le 0 (heap_elems h)" using assms(1) by (simp_all add: queue_def holds_def)
  from append_node [OF H(1) True, of d] obtain h1 where
    h1: "set_node h (bh_size h) d = Inr h1" "heap_elems (h1\<lparr>bh_size := bh_size h + 1\<rparr>) = heap_elems h @ [d]"
      "h1 = h\<lparr>bh_nodes := bh_nodes h1\<rparr>" "length (bh_nodes h1) = length (bh_nodes h)" by blast
  define h2 where "h2 = h1\<lparr>bh_size := bh_size h + 1\<rparr>"
  have f: "bh_size h1 = bh_size h" "bh_space h2 = bh_space h" "bh_compare h2 = bh_compare h" unfolding h2_def by (subst h1(3), simp)+
  have h2: "holds h2 (add_mset d M)" "shape h2" "bh_size h2 = bh_size h + 1"
    using H(1) True h1(2,4) f by (auto simp: holds_def shape_def h2_def)
  have "heap_above le (nat (bh_size h)) (heap_elems h2)"
    using heap_above_snoc [OF H(3), of d] length_heap_elems [OF H(2)] h1(2) by (simp add: h2_def)
  moreover have "set (heap_elems h2) \<subseteq> insert d (set_mset M)" using holds_set [OF h2(1)] by simp
  ultimately obtain h' where
    h': "sift_up arg h2 (int (nat (bh_size h))) = Inr h'" "rearranged h2 h'" "heap_from le 0 (heap_elems h')"
    using sift_up_ok [OF h2(2), where arg = arg and S = "insert d (set_mset M)" and le = le and j = "nat (bh_size h)"] assms(2) f(3) h2(3) H(2) by (auto simp: shape_def)
  have "int (nat (bh_size h)) = bh_size h" using H(2) by (simp add: shape_def)
  with h' True h1(1) f h2(3) rearranged_holds [OF h'(2) h2(1)] show ?thesis
    by (auto simp: binaryheap_add_def queue_def same_heap_def h2_def)
qed (simp add: binaryheap_add_def)

lemma first_ok:
  assumes "queue le h M" and "M \<noteq> {#}" and "heap_compares arg h (set_mset M) le"
  shows "\<exists>x. binaryheap_first h = Inr x \<and> x \<in># M \<and> (\<forall>y \<in># M. le y x) \<and> x = heap_elems h ! 0"
proof -
  have H: "holds h M" "shape h" "heap_from le 0 (heap_elems h)" using assms(1) by (simp_all add: queue_def holds_def)
  have n: "0 < nat (bh_size h)" using holds_size [OF H(1)] assms(2) by (simp add: nonempty_has_size)
  have "heap_elems h ! 0 \<in># M" using elem_in [OF _ H(2) n, of "set_mset M"] holds_set [OF H(1)] by simp
  moreover have "le y (heap_elems h ! 0)" if "y \<in># M" for y
  proof -
    from that holds_set [OF H(1)] obtain i where "i < length (heap_elems h)" "y = heap_elems h ! i" by (metis in_set_conv_nth)
    with heap_root [OF assms(3) _ H(3)] holds_set [OF H(1)] show ?thesis by simp
  qed
  ultimately show ?thesis using node_at_elem [OF H(2) n] by (simp add: binaryheap_first_def)
qed

text \<open>
  When the root changes its rank, the rest of the heap stays in order, also for a new order that agrees with the old
  one on the rest.
\<close>

lemma heap_but_root:
  assumes "heap_from le 0 (x # xs)" and "\<forall>a \<in> set xs. \<forall>b \<in> set xs. le a b \<longrightarrow> le' a b" and "ys = take (length ys) xs"
  shows "heap_but le' 0 0 (d # ys)"
  unfolding heap_but_def
proof (intro allI impI)
  fix i assume i: "i < length (d # ys)" "0 < i" "up i \<noteq> 0"
  obtain a b where ab: "i = Suc a" "up i = Suc b" using i(2,3) by (metis gr0_implies_Suc not_gr_zero)
  have "b < a" using up_less [OF i(2)] ab by simp
  moreover have "length ys \<le> length xs" using arg_cong [OF assms(3), of length] by simp
  moreover have "ys ! a = xs ! a" "ys ! b = xs ! b" using i(1) ab \<open>b < a\<close> by (subst assms(3); simp)+
  moreover have "i < length (x # xs)" using i(1) \<open>length ys \<le> length xs\<close> by simp
  then have "le ((x # xs) ! i) ((x # xs) ! up i)" using assms(1) i(2) unfolding heap_from_def by blast
  then have "le (xs ! a) (xs ! b)" unfolding ab(2) by (simp add: ab(1))
  ultimately show "le' ((d # ys) ! i) ((d # ys) ! up i)" using assms(2) i(1) ab by (auto simp: Ball_def)
qed

lemma replace_first_ok:
  assumes "queue le h (add_mset x N)" and "binaryheap_first h = Inr x" and "heap_compares arg h (insert d (set_mset N)) le'"
    and "\<forall>a \<in># N. \<forall>b \<in># N. le a b \<longrightarrow> le' a b"
  shows "\<exists>h'. binaryheap_replace_first arg h d = Inr h' \<and> queue le' h' (add_mset d N) \<and> same_heap h h'"
proof -
  have H: "holds h (add_mset x N)" "shape h" "heap_from le 0 (heap_elems h)" using assms(1) by (simp_all add: queue_def holds_def)
  have n: "0 < bh_size h" using holds_size [OF H(1)] by simp
  have "heap_elems h \<noteq> []" using length_heap_elems [OF H(2)] n by auto
  moreover have "heap_elems h ! 0 = x" using assms(2) node_at_elem [OF H(2), of 0] n by (simp add: binaryheap_first_def)
  ultimately obtain xs where xs: "heap_elems h = x # xs" by (cases "heap_elems h") auto
  have N: "mset xs = N" using H(1) xs by (simp add: holds_def)
  define h1 where "h1 = h\<lparr>bh_nodes := (bh_nodes h)[0 := d]\<rparr>"
  have set: "set_node h 0 d = Inr h1" using H(2) n by (cases "bh_nodes h") (simp_all add: set_node_def shape_def h1_def)
  have elems: "heap_elems h1 = d # xs" using xs by (simp add: h1_def heap_elems_def take_update_swap)
  have h1: "holds h1 (add_mset d N)" "shape h1" using H(1,2) elems N by (simp_all add: holds_def shape_def h1_def)
  show ?thesis
  proof (cases "bh_size h > 1")
    case True
    have "heap_but le' 0 0 (heap_elems h1)" unfolding elems
      using H(3) assms(4) N by (intro heap_but_root [of le x xs]) (auto simp: xs)
    moreover have "grandchildren le' 0 0 (heap_elems h1)" by (simp add: grandchildren_def)
    moreover have "set (heap_elems h1) \<subseteq> insert d (set_mset N)" using holds_set [OF h1(1)] by simp
    ultimately obtain h' where h': "sift_down arg h1 (int 0) = Inr h'" "rearranged h1 h'" "heap_from le' 0 (heap_elems h')"
      using sift_down_ok [OF h1(2), where arg = arg and S = "insert d (set_mset N)" and le = le' and j = 0 and k = 0] assms(3) n by (auto simp: h1_def)
    with rearranged_holds [OF h'(2) h1(1)] set True show ?thesis
      by (auto simp: binaryheap_replace_first_def queue_def same_heap_def h1_def)
  next
    case False
    then have "length (heap_elems h1) = 1" using n length_heap_elems [OF h1(2)] by (simp add: h1_def)
    then have "heap_from le' 0 (heap_elems h1)" by (simp add: heap_from_def)
    with set False h1(1) show ?thesis by (auto simp: binaryheap_replace_first_def queue_def same_heap_def h1_def)
  qed
qed

lemma remove_first_ok:
  assumes "queue le h (add_mset x N)" and "binaryheap_first h = Inr x" and "heap_compares arg h (set_mset N) le'"
    and "\<forall>a \<in># N. \<forall>b \<in># N. le a b \<longrightarrow> le' a b"
  shows "\<exists>h'. binaryheap_remove_first arg h = Inr (x, h') \<and> queue le' h' N \<and> same_heap h h'"
proof -
  have H: "holds h (add_mset x N)" "shape h" "heap_from le 0 (heap_elems h)" using assms(1) by (simp_all add: queue_def holds_def)
  have n: "bh_size h = int (Suc (size N))" using holds_size [OF H(1)] by simp
  have len: "length (heap_elems h) = Suc (size N)" using length_heap_elems [OF H(2)] n by simp
  have x: "heap_elems h ! 0 = x" using assms(2) node_at_elem [OF H(2), of 0] n by (simp add: binaryheap_first_def)
  then obtain xs where xs: "heap_elems h = x # xs" using len by (cases "heap_elems h") auto
  have N: "mset xs = N" using H(1) xs by (simp add: holds_def)
  show ?thesis
  proof (cases xs rule: rev_cases)
    case Nil
    then have "N = {#}" using N by simp
    with n assms(2) H(1) show ?thesis
      by (auto simp: binaryheap_remove_first_def binaryheap_first_def queue_def holds_def shape_def heap_elems_def heap_from_def same_heap_def)
  next
    case (snoc ys z)
    have m: "bh_size h \<noteq> 1" "nat (bh_size h) = length ys + 2" "bh_size h - 1 = int (length ys + 1)" "nat (bh_size h - 1) = length ys + 1"
      using n N snoc by auto
    from swap_elems [OF H(2), of 0 "length ys + 1"] m(2) obtain h1 where
      h1: "swap_nodes h 0 (bh_size h - 1) = Inr h1" "rearranged h h1" "heap_elems h1 = (x # ys @ [z])[0 := z, length ys + 1 := x]"
      unfolding m(3) using xs snoc by auto
    define h2 where "h2 = h1\<lparr>bh_size := bh_size h1 - 1\<rparr>"
    have e1: "heap_elems h1 = z # ys @ [x]" using h1(3) by simp
    have f1: "bh_size h1 = bh_size h" "bh_space h1 = bh_space h" "bh_compare h1 = bh_compare h" "shape h1"
      "length (bh_nodes h1) = length (bh_nodes h)"
      using rearranged_fields [OF h1(2)] rearranged_shape [OF h1(2) H(2)] h1(2) by (simp_all add: rearranged_def)
    have "heap_elems h2 = take (length ys + 1) (heap_elems h1)" using m f1(1) unfolding heap_elems_def h2_def by simp
    then have e2: "heap_elems h2 = z # ys" using e1 by simp
    have h2: "holds h2 N" "shape h2"
      using H(1) f1 e2 N snoc m(3) by (auto simp: holds_def shape_def h2_def)
    have "heap_but le' 0 0 (heap_elems h2)"
      unfolding e2 using H(3) assms(4) N snoc by (intro heap_but_root [of le x xs]) (auto simp: xs)
    moreover have "grandchildren le' 0 0 (heap_elems h2)" by (simp add: grandchildren_def)
    moreover have "set (heap_elems h2) \<subseteq> set_mset N" using holds_set [OF h2(1)] by simp
    ultimately obtain h' where h': "sift_down arg h2 (int 0) = Inr h'" "rearranged h2 h'" "heap_from le' 0 (heap_elems h')"
      using sift_down_ok [OF h2(2), where arg = arg and S = "set_mset N" and le = le' and j = 0 and k = 0] assms(3) m f1(1,3) by (auto simp: h2_def)
    have "node_at h' (bh_size h') = node_at h1 (int (length ys + 1))"
    proof -
      have "drop (length ys + 1) (bh_nodes h') = drop (length ys + 1) (bh_nodes h1)" "length (bh_nodes h') = length (bh_nodes h1)"
        using h'(2) m(4) f1(1) unfolding rearranged_def h2_def by simp_all
      moreover have "length ys + 1 < length (bh_nodes h1)" using H(2) m f1 by (auto simp: shape_def)
      ultimately have "bh_nodes h' ! (length ys + 1) = bh_nodes h1 ! (length ys + 1)" by (metis hd_drop_conv_nth)
      moreover have "bh_size h' = int (length ys + 1)" using rearranged_fields [OF h'(2)] m(3) f1(1) by (simp add: h2_def)
      ultimately show ?thesis using \<open>length (bh_nodes h') = length (bh_nodes h1)\<close> unfolding node_at_def by (simp only: nat_int)
    qed
    also have "\<dots> = Inr x" using node_at_elem [OF f1(4), of "length ys + 1"] e1 m f1(1) by (simp add: nth_append)
    finally have "binaryheap_remove_first arg h = Inr (x, h')"
      using m(1) h1(1) h'(1) by (simp add: binaryheap_remove_first_def h2_def)
    moreover have "queue le' h' N" "same_heap h h'"
      using rearranged_holds [OF h'(2) h2(1)] h'(3) f1 by (simp_all add: queue_def same_heap_def h2_def)
    ultimately show ?thesis by blast
  qed
qed

section \<open>Sequences of operations\<close>

datatype 'd heap_op = Add_op 'd | First_op | Remove_op | Replace_op 'd

fun heap_step :: "'arg \<Rightarrow> 'd heap_op \<Rightarrow> ('d, 'arg) binaryheap \<Rightarrow> ('d option \<times> ('d, 'arg) binaryheap) result" where
  "heap_step arg (Add_op d) h = bindE (binaryheap_add arg h d) (\<lambda>h1. Inr (None, h1))"
| "heap_step arg First_op h = bindE (binaryheap_first h) (\<lambda>d. Inr (Some d, h))"
| "heap_step arg Remove_op h = bindE (binaryheap_remove_first arg h) (\<lambda>(d, h1). Inr (Some d, h1))"
| "heap_step arg (Replace_op d) h = bindE (binaryheap_replace_first arg h d) (\<lambda>h1. Inr (None, h1))"

fun heap_run :: "'arg \<Rightarrow> 'd heap_op list \<Rightarrow> ('d, 'arg) binaryheap \<Rightarrow> ('d option list \<times> ('d, 'arg) binaryheap) result" where
  "heap_run arg [] h = Inr ([], h)"
| "heap_run arg (op # ops) h =
     bindE (heap_step arg op h) (\<lambda>(out, h1). bindE (heap_run arg ops h1) (\<lambda>(outs, h2). Inr (out # outs, h2)))"

text \<open>A priority queue is a multiset of which a greatest element can be looked at, removed and replaced.\<close>

inductive queue_step :: "('d \<Rightarrow> 'd \<Rightarrow> bool) \<Rightarrow> 'd multiset \<Rightarrow> 'd heap_op \<Rightarrow> 'd option \<Rightarrow> 'd multiset \<Rightarrow> bool" for le where
  "queue_step le M (Add_op d) None (add_mset d M)"
| "\<forall>y \<in># add_mset x N. le y x \<Longrightarrow> queue_step le (add_mset x N) First_op (Some x) (add_mset x N)"
| "\<forall>y \<in># add_mset x N. le y x \<Longrightarrow> queue_step le (add_mset x N) Remove_op (Some x) N"
| "\<forall>y \<in># add_mset x N. le y x \<Longrightarrow> queue_step le (add_mset x N) (Replace_op d) None (add_mset d N)"

inductive queue_run :: "('d \<Rightarrow> 'd \<Rightarrow> bool) \<Rightarrow> 'd multiset \<Rightarrow> 'd heap_op list \<Rightarrow> 'd option list \<Rightarrow> 'd multiset \<Rightarrow> bool" for le where
  "queue_run le M [] [] M"
| "queue_step le M op out M1 \<Longrightarrow> queue_run le M1 ops outs M2 \<Longrightarrow> queue_run le M (op # ops) (out # outs) M2"

text \<open>Sequences that respect the capacity and leave an empty heap alone.\<close>

fun legal :: "nat \<Rightarrow> nat \<Rightarrow> 'd heap_op list \<Rightarrow> bool" where
  "legal c n [] \<longleftrightarrow> True"
| "legal c n (Add_op d # ops) \<longleftrightarrow> n < c \<and> legal c (Suc n) ops"
| "legal c n (Remove_op # ops) \<longleftrightarrow> 0 < n \<and> legal c (n - 1) ops"
| "legal c n (op # ops) \<longleftrightarrow> 0 < n \<and> legal c n ops"

lemma compares_mono: "compares S cmp le \<Longrightarrow> T \<subseteq> S \<Longrightarrow> compares T cmp le"
  unfolding compares_def by (meson subsetD)

lemma heap_step_ok:
  assumes q: "queue le h M" "bh_space h = int c" and cmp: "heap_compares arg h S le" "set_mset M \<subseteq> S" "set_heap_op op \<subseteq> S"
    and "legal c (size M) (op # ops)"
  shows "\<exists>out h' M'. heap_step arg op h = Inr (out, h') \<and> queue_step le M op out M' \<and> queue le h' M' \<and> same_heap h h' \<and>
    set_mset M' \<subseteq> S \<and> legal c (size M') ops"
proof -
  have size: "bh_size h = int (size M)" using q(1) holds_size by (auto simp: queue_def)
  have top: "\<exists>x N. binaryheap_first h = Inr x \<and> M = add_mset x N \<and> (\<forall>y \<in># add_mset x N. le y x)" if "M \<noteq> {#}"
    using first_ok [OF q(1) that compares_mono [OF cmp(1,2)]] by (metis insert_DiffM)
  show ?thesis
  proof (cases op)
    case (Add_op d)
    have "heap_compares arg h (insert d (set_mset M)) le" using cmp Add_op by (intro compares_mono [OF cmp(1)]) simp
    from add_ok [OF q(1) this] show ?thesis using assms(6) q(2) size cmp(2,3) Add_op by (auto simp: subset_iff intro!: exI [of _ "add_mset d M"] queue_step.intros)
  next
    case First_op
    then have "M \<noteq> {#}" using assms(6) by auto
    from top [OF this] show ?thesis using First_op q(1) cmp(2) assms(6) by (auto simp: same_heap_def subset_iff intro!: exI [of _ M] queue_step.intros)
  next
    case Remove_op
    then have "M \<noteq> {#}" using assms(6) by auto
    from top [OF this] obtain x N where x: "binaryheap_first h = Inr x" "M = add_mset x N" "\<forall>y \<in># add_mset x N. le y x" by blast
    have "heap_compares arg h (set_mset N) le" using cmp x(2) by (intro compares_mono [OF cmp(1)]) auto
    from remove_first_ok [OF q(1) [unfolded x(2)] x(1) this] show ?thesis
      using Remove_op x cmp(2,3) assms(6) by (auto simp: subset_iff intro!: exI [of _ N] queue_step.intros)
  next
    case (Replace_op d)
    then have "M \<noteq> {#}" using assms(6) by auto
    from top [OF this] obtain x N where x: "binaryheap_first h = Inr x" "M = add_mset x N" "\<forall>y \<in># add_mset x N. le y x" by blast
    have "heap_compares arg h (insert d (set_mset N)) le" using cmp x(2) Replace_op by (intro compares_mono [OF cmp(1)]) auto
    from replace_first_ok [OF q(1) [unfolded x(2)] x(1) this] show ?thesis
      using Replace_op x cmp(2,3) assms(6) by (auto simp: subset_iff intro!: exI [of _ "add_mset d N"] queue_step.intros)
  qed
qed

lemma heap_run_ok:
  "queue le h M \<Longrightarrow> bh_space h = int c \<Longrightarrow> heap_compares arg h S le \<Longrightarrow> set_mset M \<subseteq> S \<Longrightarrow>
   list_all (\<lambda>op. set_heap_op op \<subseteq> S) ops \<Longrightarrow> legal c (size M) ops \<Longrightarrow>
   \<exists>outs h' M'. heap_run arg ops h = Inr (outs, h') \<and> queue_run le M ops outs M'"
proof (induction ops arbitrary: h M)
  case (Cons op ops)
  from heap_step_ok [OF Cons.prems(1-4) _ Cons.prems(6)] Cons.prems(5) obtain out h1 M1 where
    s: "heap_step arg op h = Inr (out, h1)" "queue_step le M op out M1" "queue le h1 M1" "same_heap h h1" "set_mset M1 \<subseteq> S"
      "legal c (size M1) ops" by auto
  from Cons.IH [OF s(3) _ _ s(5) _ s(6)] s(4) Cons.prems(2,3,5) obtain outs h2 M2 where
    "heap_run arg ops h1 = Inr (outs, h2)" "queue_run le M1 ops outs M2" by (auto simp: same_heap_def)
  with s(1,2) show ?case by (auto intro: queue_run.intros)
qed (auto intro: queue_run.intros)


text \<open>A comparator of integers.\<close>

definition int_compare :: "int \<Rightarrow> int \<Rightarrow> unit \<Rightarrow> int result" where
  "int_compare a b arg = Inr (if a < b then -1 else if a = b then 0 else 1)"

lemma int_compares: "compares S (\<lambda>a b. int_compare a b arg) (\<le>)"
  by (auto simp: compares_def int_compare_def)


text \<open>
  The size of the allocation is kept in an \<^verbatim>\<open>int\<close>.  For a capacity of \<open>2 ^ 29\<close> it wraps around: no room for nodes is allocated, and
  the first node is written behind the end.
\<close>

lemma allocate_wraps:
  "\<exists>h. binaryheap_allocate garbage (2 ^ 29) compare = Inr h \<and> bh_space h = 2 ^ 29 \<and>
    binaryheap_add arg h d = Inl (UB ''node outside of the heap'')"
  by (simp add: binaryheap_allocate_def c_int_def signed_take_bit_int_eq_self take_bit_eq_mod MaxAllocSize_def binaryheap_add_def set_node_def)

end
