(* ===== verification/Gdd.thy ===== *)
theory Gdd
  imports Prelude
begin

text \<open>
  The data structures and operations of the global deadlock detector,
  \<^verbatim>\<open>src/backend/utils/gdd/gdddetector.c\<close> and \<^verbatim>\<open>gdddetectorpriv.h\<close>: one wait-for graph per
  segment, global in and out degrees per transaction, the reduction loop and
  the loop that picks transactions to cancel.

  Objects that C shares through pointers are named: a graph by its position
  in the map of graphs, a vert by its transaction id within its graph, the
  global statistics by the transaction id, an edge by the number of its
  allocation.  The caller's \<^verbatim>\<open>data\<close> pointers are left out, and
  \<^verbatim>\<open>gddVertBindStats\<close> stores pointers that these names make superfluous.
\<close>

section \<open>Data\<close>

type_synonym DistributedTransactionId = uint64

record 'v GddMap =
  capacity :: nat
  pairs :: "(DistributedTransactionId \<times> 'v) list"

record GddEdge =
  eid :: nat
  solid :: bool
  efrom :: DistributedTransactionId
  eto :: DistributedTransactionId

record GddVert =
  vert_id :: DistributedTransactionId
  edgesIn :: "GddEdge list"
  edgesOut :: "GddEdge list"

record GddGraph =
  graph_id :: int
  verts :: "GddVert GddMap"

record GddStat =
  stat_id :: DistributedTransactionId
  indeg :: int
  outdeg :: int

text \<open>\<open>next_edge\<close> numbers the edges that have been allocated.\<close>

record GddCtx =
  topstat :: GddStat
  globals :: "GddStat GddMap"
  graphs :: "GddGraph GddMap"
  next_edge :: nat

section \<open>Maps\<close>

definition gddMapInit :: "'v GddMap" where
  "gddMapInit = \<lparr>capacity = 4, pairs = []\<rparr>"

definition gddMapEnsureCapacity :: "'v GddMap \<Rightarrow> nat \<Rightarrow> 'v GddMap" where
  "gddMapEnsureCapacity m n = (if n \<le> capacity m then m else m\<lparr>capacity := n * 2\<rparr>)"

text \<open>The scan over the pairs; a pair pointer is the position of the pair.\<close>

fun pair_scan :: "(DistributedTransactionId \<times> 'v) list \<Rightarrow> DistributedTransactionId \<Rightarrow> nat \<Rightarrow> nat option" where
  "pair_scan [] key i = None"
| "pair_scan (p # ps) key i = (if fst p = key then Some i else pair_scan ps key (Suc i))"

definition gddMapGetPair :: "'v GddMap \<Rightarrow> DistributedTransactionId \<Rightarrow> nat option" where
  "gddMapGetPair m key = pair_scan (pairs m) key 0"

definition gddMapGet :: "'v GddMap \<Rightarrow> DistributedTransactionId \<Rightarrow> 'v option" where
  "gddMapGet m key =
     (case gddMapGetPair m key of Some i \<Rightarrow> Some (snd (pairs m ! i)) | None \<Rightarrow> None)"

definition gddMapSetUnsafe :: "'v GddMap \<Rightarrow> DistributedTransactionId \<Rightarrow> 'v \<Rightarrow> 'v GddMap" where
  "gddMapSetUnsafe m key ptr =
     (let m1 = gddMapEnsureCapacity m (length (pairs m) + 1)
      in m1\<lparr>pairs := pairs m1 @ [(key, ptr)]\<rparr>)"

text \<open>
  \<^verbatim>\<open>gdd_map_iter_delete\<close>, \<^verbatim>\<open>pairs[pos--] = pairs[--length]\<close>: the last pair takes the place of
  the deleted one, which is then the next to be visited.
\<close>

definition gdd_map_iter_delete :: "'v GddMap \<Rightarrow> nat \<Rightarrow> 'v GddMap" where
  "gdd_map_iter_delete m pos = m\<lparr>pairs := butlast ((pairs m)[pos := last (pairs m)])\<rparr>"

text \<open>A write through the pointer that the map holds for a key.\<close>

definition map_write :: "'v GddMap \<Rightarrow> DistributedTransactionId \<Rightarrow> ('v \<Rightarrow> 'v) \<Rightarrow> 'v GddMap" where
  "map_write m key f = m\<lparr>pairs := map (\<lambda>(k, v). if k = key then (k, f v) else (k, v)) (pairs m)\<rparr>"

section \<open>Constructors\<close>

definition gddStatInit :: "DistributedTransactionId \<Rightarrow> GddStat" where
  "gddStatInit vid = \<lparr>stat_id = vid, indeg = 0, outdeg = 0\<rparr>"

definition gddStatNew :: "DistributedTransactionId \<Rightarrow> GddStat" where
  "gddStatNew vid = gddStatInit vid"

definition GddCtxNew :: GddCtx where
  "GddCtxNew = \<lparr>topstat = gddStatInit 0, globals = gddMapInit, graphs = gddMapInit, next_edge = 0\<rparr>"

definition gddGraphNew :: "int \<Rightarrow> GddGraph" where
  "gddGraphNew i = \<lparr>graph_id = i, verts = gddMapInit\<rparr>"

definition gddVertNew :: "DistributedTransactionId \<Rightarrow> GddVert" where
  "gddVertNew vid = \<lparr>vert_id = vid, edgesIn = [], edgesOut = []\<rparr>"

definition gddEdgeNew :: "nat \<Rightarrow> DistributedTransactionId \<Rightarrow> DistributedTransactionId \<Rightarrow> bool \<Rightarrow> GddEdge" where
  "gddEdgeNew n vfrom vto s = \<lparr>eid = n, solid = s, efrom = vfrom, eto = vto\<rparr>"

section \<open>Access through pointers\<close>

definition graph_at :: "GddCtx \<Rightarrow> nat \<Rightarrow> GddGraph" where
  "graph_at ctx i = snd (pairs (graphs ctx) ! i)"

definition graph_write :: "GddCtx \<Rightarrow> nat \<Rightarrow> (GddGraph \<Rightarrow> GddGraph) \<Rightarrow> GddCtx" where
  "graph_write ctx i f =
     ctx\<lparr>graphs := (graphs ctx)\<lparr>pairs := (pairs (graphs ctx))[i :=
           (fst (pairs (graphs ctx) ! i), f (snd (pairs (graphs ctx) ! i)))]\<rparr>\<rparr>"

definition vert_at :: "GddCtx \<Rightarrow> nat \<Rightarrow> DistributedTransactionId \<Rightarrow> GddVert" where
  "vert_at ctx i vid =
     (case gddMapGet (verts (graph_at ctx i)) vid of Some v \<Rightarrow> v | None \<Rightarrow> gddVertNew vid)"

definition vert_write :: "GddCtx \<Rightarrow> nat \<Rightarrow> DistributedTransactionId \<Rightarrow> (GddVert \<Rightarrow> GddVert) \<Rightarrow> GddCtx" where
  "vert_write ctx i vid f = graph_write ctx i (\<lambda>g. g\<lparr>verts := map_write (verts g) vid f\<rparr>)"

definition global_at :: "GddCtx \<Rightarrow> DistributedTransactionId \<Rightarrow> GddStat" where
  "global_at ctx vid = (case gddMapGet (globals ctx) vid of Some s \<Rightarrow> s | None \<Rightarrow> gddStatNew vid)"

definition global_write :: "GddCtx \<Rightarrow> DistributedTransactionId \<Rightarrow> (GddStat \<Rightarrow> GddStat) \<Rightarrow> GddCtx" where
  "global_write ctx vid f = ctx\<lparr>globals := map_write (globals ctx) vid f\<rparr>"

section \<open>Edges\<close>

definition gddCtxGetGraph :: "GddCtx \<Rightarrow> int \<Rightarrow> nat \<times> GddCtx" where
  "gddCtxGetGraph ctx segid =
     (case gddMapGetPair (graphs ctx) (word_of_int segid) of
        Some i \<Rightarrow> (i, ctx)
      | None \<Rightarrow>
          (length (pairs (graphs ctx)),
           ctx\<lparr>graphs := gddMapSetUnsafe (graphs ctx) (word_of_int segid) (gddGraphNew segid)\<rparr>))"

definition gddCtxGetGlobalStat :: "GddCtx \<Rightarrow> DistributedTransactionId \<Rightarrow> GddCtx" where
  "gddCtxGetGlobalStat ctx vid =
     (case gddMapGet (globals ctx) vid of
        Some _ \<Rightarrow> ctx
      | None \<Rightarrow> ctx\<lparr>globals := gddMapSetUnsafe (globals ctx) vid (gddStatNew vid)\<rparr>)"

definition gddGraphGetVert :: "GddGraph \<Rightarrow> DistributedTransactionId \<Rightarrow> GddGraph" where
  "gddGraphGetVert graph vid =
     (case gddMapGet (verts graph) vid of
        Some _ \<Rightarrow> graph
      | None \<Rightarrow> graph\<lparr>verts := gddMapSetUnsafe (verts graph) vid (gddVertNew vid)\<rparr>)"

definition gddGraphMakeEdge ::
  "GddCtx \<Rightarrow> nat \<Rightarrow> DistributedTransactionId \<Rightarrow> DistributedTransactionId \<Rightarrow> bool \<Rightarrow> GddEdge \<times> GddCtx" where
  "gddGraphMakeEdge ctx i vfrom vto s =
     (let ctx1 = graph_write ctx i (\<lambda>g. gddGraphGetVert (gddGraphGetVert g vfrom) vto)
      in (gddEdgeNew (next_edge ctx1) vfrom vto s, ctx1\<lparr>next_edge := next_edge ctx1 + 1\<rparr>))"

definition gddEdgeLink :: "GddCtx \<Rightarrow> nat \<Rightarrow> GddEdge \<Rightarrow> GddCtx" where
  "gddEdgeLink ctx i edge =
     (let ctx1 = ctx\<lparr>topstat := (topstat ctx)\<lparr>outdeg := outdeg (topstat ctx) + 1\<rparr>\<rparr>;
          ctx2 = ctx1\<lparr>topstat := (topstat ctx1)\<lparr>indeg := indeg (topstat ctx1) + 1\<rparr>\<rparr>;
          ctx3 = global_write ctx2 (efrom edge) (\<lambda>g. g\<lparr>outdeg := outdeg g + 1\<rparr>);
          ctx4 = global_write ctx3 (eto edge) (\<lambda>g. g\<lparr>indeg := indeg g + 1\<rparr>);
          ctx5 = vert_write ctx4 i (efrom edge) (\<lambda>v. v\<lparr>edgesOut := edgesOut v @ [edge]\<rparr>)
      in vert_write ctx5 i (eto edge) (\<lambda>v. v\<lparr>edgesIn := edgesIn v @ [edge]\<rparr>))"

definition GddCtxAddEdge ::
  "GddCtx \<Rightarrow> int \<Rightarrow> DistributedTransactionId \<Rightarrow> DistributedTransactionId \<Rightarrow> bool \<Rightarrow> GddEdge \<times> GddCtx" where
  "GddCtxAddEdge ctx segid vfrom vto s =
     (let (i, ctx1) = gddCtxGetGraph ctx segid;
          (edge, ctx2) = gddGraphMakeEdge ctx1 i vfrom vto s;
          ctx3 = gddCtxGetGlobalStat ctx2 vfrom;
          ctx4 = gddCtxGetGlobalStat ctx3 vto
      in (edge, gddEdgeLink ctx4 i edge))"

text \<open>
  With an iterator the cell under it is deleted, without one the edge is searched; either
  way that one edge leaves the list.
\<close>

definition gddEdgeUnlinkFrom :: "GddCtx \<Rightarrow> nat \<Rightarrow> GddEdge \<Rightarrow> GddCtx" where
  "gddEdgeUnlinkFrom ctx i edge =
     (let ctx1 = ctx\<lparr>topstat := (topstat ctx)\<lparr>outdeg := outdeg (topstat ctx) - 1\<rparr>\<rparr>;
          ctx2 = global_write ctx1 (efrom edge) (\<lambda>g. g\<lparr>outdeg := outdeg g - 1\<rparr>)
      in vert_write ctx2 i (efrom edge) (\<lambda>v. v\<lparr>edgesOut := remove1 edge (edgesOut v)\<rparr>))"

definition gddEdgeUnlinkTo :: "GddCtx \<Rightarrow> nat \<Rightarrow> GddEdge \<Rightarrow> GddCtx" where
  "gddEdgeUnlinkTo ctx i edge =
     (let ctx1 = ctx\<lparr>topstat := (topstat ctx)\<lparr>indeg := indeg (topstat ctx) - 1\<rparr>\<rparr>;
          ctx2 = global_write ctx1 (eto edge) (\<lambda>g. g\<lparr>indeg := indeg g - 1\<rparr>)
      in vert_write ctx2 i (eto edge) (\<lambda>v. v\<lparr>edgesIn := remove1 edge (edgesIn v)\<rparr>))"

definition gddEdgeUnlink :: "GddCtx \<Rightarrow> nat \<Rightarrow> GddEdge \<Rightarrow> GddCtx" where
  "gddEdgeUnlink ctx i edge = gddEdgeUnlinkTo (gddEdgeUnlinkFrom ctx i edge) i edge"

section \<open>Verts\<close>

definition gddVertGetInDegree :: "GddVert \<Rightarrow> nat" where
  "gddVertGetInDegree v = length (edgesIn v)"

definition gddVertGetOutDegree :: "GddVert \<Rightarrow> nat" where
  "gddVertGetOutDegree v = length (edgesOut v)"

text \<open>The loop body \<^verbatim>\<open>gddEdgeUnlink(edge, ...)\<close> for the edges of a list that it empties.\<close>

fun unlink_edges :: "GddCtx \<Rightarrow> nat \<Rightarrow> GddEdge list \<Rightarrow> GddCtx" where
  "unlink_edges ctx i [] = ctx"
| "unlink_edges ctx i (e # es) = unlink_edges (gddEdgeUnlink ctx i e) i es"

definition gddVertUnlinkAll :: "GddCtx \<Rightarrow> nat \<Rightarrow> DistributedTransactionId \<Rightarrow> GddCtx \<times> bool" where
  "gddVertUnlinkAll ctx i vid =
     (let ins = edgesIn (vert_at ctx i vid);
          ctx1 = unlink_edges ctx i ins;
          outs = edgesOut (vert_at ctx1 i vid);
          ctx2 = unlink_edges ctx1 i outs
      in (ctx2, ins \<noteq> [] \<or> outs \<noteq> []))"

definition gddVertReduce :: "GddCtx \<Rightarrow> nat \<Rightarrow> DistributedTransactionId \<Rightarrow> GddCtx \<times> bool" where
  "gddVertReduce ctx i vid =
     (let global = global_at ctx vid in
      if indeg global = 0 \<or> outdeg global = 0 then gddVertUnlinkAll ctx i vid
      else if gddVertGetOutDegree (vert_at ctx i vid) = 0 then
        let dotted = filter (\<lambda>e. \<not> solid e) (edgesIn (vert_at ctx i vid))
        in (unlink_edges ctx i dotted, dotted \<noteq> [])
      else (ctx, False))"

section \<open>The reduction loop\<close>

text \<open>
  The walk over the verts of a graph.  \<open>n\<close> is \<^verbatim>\<open>length - pos\<close>, the number of verts that are
  still to be visited: it drops by one per visit, whether the visit advances or deletes.
\<close>

fun reduce_verts :: "nat \<Rightarrow> nat \<Rightarrow> nat \<Rightarrow> GddCtx \<Rightarrow> bool \<Rightarrow> GddCtx \<times> bool" where
  "reduce_verts 0 pos i ctx dirty = (ctx, dirty)"
| "reduce_verts (Suc n) pos i ctx dirty =
     (let vid = fst (pairs (verts (graph_at ctx i)) ! pos);
          (ctx1, reduced) = gddVertReduce ctx i vid;
          dirty1 = (if reduced then True else dirty);
          vert = vert_at ctx1 i vid
      in if gddVertGetInDegree vert = 0 \<and> gddVertGetOutDegree vert = 0
         then reduce_verts n pos i
                (graph_write ctx1 i (\<lambda>g. g\<lparr>verts := gdd_map_iter_delete (verts g) pos\<rparr>)) dirty1
         else reduce_verts n (pos + 1) i ctx1 dirty1)"

fun reduce_graphs :: "nat list \<Rightarrow> GddCtx \<Rightarrow> bool \<Rightarrow> GddCtx \<times> bool" where
  "reduce_graphs [] ctx dirty = (ctx, dirty)"
| "reduce_graphs (i # is) ctx dirty =
     (case reduce_verts (length (pairs (verts (graph_at ctx i)))) 0 i ctx dirty of
        (ctx1, dirty1) \<Rightarrow> reduce_graphs is ctx1 dirty1)"

text \<open>One iteration of the \<^verbatim>\<open>while (dirty)\<close> loop.\<close>

definition reduce_pass :: "GddCtx \<Rightarrow> GddCtx \<times> bool" where
  "reduce_pass ctx = reduce_graphs [0..<length (pairs (graphs ctx))] ctx False"

partial_function (option) GddCtxReduce :: "GddCtx \<Rightarrow> GddCtx option" where
  "GddCtxReduce ctx =
     (let (ctx1, dirty) = reduce_pass ctx in if dirty then GddCtxReduce ctx1 else Some ctx1)"

section \<open>Breaking deadlocks\<close>

definition GddCtxEmpty :: "GddCtx \<Rightarrow> bool" where
  "GddCtxEmpty ctx \<longleftrightarrow> indeg (topstat ctx) = 0"

text \<open>The scan of a graph for the vert to remove stops at the first match.\<close>

definition gddGraphRemoveVid :: "GddCtx \<Rightarrow> nat \<Rightarrow> DistributedTransactionId \<Rightarrow> GddCtx" where
  "gddGraphRemoveVid ctx i vid =
     (case pair_scan (map (\<lambda>(_, vert). (vert_id vert, vert)) (pairs (verts (graph_at ctx i)))) vid 0 of
        None \<Rightarrow> ctx
      | Some pos \<Rightarrow>
          let ctx1 = fst (gddVertUnlinkAll ctx i vid)
          in graph_write ctx1 i (\<lambda>g. g\<lparr>verts := gdd_map_iter_delete (verts g) pos\<rparr>))"

definition gddCtxRemoveVid :: "GddCtx \<Rightarrow> DistributedTransactionId \<Rightarrow> GddCtx" where
  "gddCtxRemoveVid ctx vid =
     fold (\<lambda>i c. gddGraphRemoveVid c i vid) [0..<length (pairs (graphs ctx))] ctx"

text \<open>
  The maximum is computed as a 64-bit \<^verbatim>\<open>DistributedTransactionId\<close> and returned as an \<^verbatim>\<open>int\<close>, which
  keeps the low 32 bits.
\<close>

definition max_vert :: "DistributedTransactionId \<Rightarrow> GddVert \<Rightarrow> DistributedTransactionId" where
  "max_vert maxvid vert =
     (if gddVertGetInDegree vert \<noteq> 0 \<or> gddVertGetOutDegree vert \<noteq> 0 then max maxvid (vert_id vert)
      else maxvid)"

definition all_verts :: "GddCtx \<Rightarrow> GddVert list" where
  "all_verts ctx = concat (map (\<lambda>(_, g). map snd (pairs (verts g))) (pairs (graphs ctx)))"

definition gddCtxGetMaxVid :: "GddCtx \<Rightarrow> uint32" where
  "gddCtxGetMaxVid ctx = ucast (foldl max_vert 0 (all_verts ctx))"

text \<open>\<^verbatim>\<open>*maxvid = gddCtxGetMaxVid(ctx)\<close> converts the \<^verbatim>\<open>int\<close> back to 64 bits, extending its sign.\<close>

partial_function (option) break_loop ::
  "GddCtx \<Rightarrow> DistributedTransactionId list \<Rightarrow> (GddCtx \<times> DistributedTransactionId list) option" where
  "break_loop ctx vids =
     (if GddCtxEmpty ctx then Some (ctx, vids)
      else
        let maxvid = scast (gddCtxGetMaxVid ctx)
        in Option.bind (GddCtxReduce (gddCtxRemoveVid ctx maxvid))
             (\<lambda>ctx1. break_loop ctx1 (vids @ [maxvid])))"

definition GddCtxBreakDeadLock :: "GddCtx \<Rightarrow> (GddCtx \<times> DistributedTransactionId list) option" where
  "GddCtxBreakDeadLock ctx = break_loop ctx []"

end
