(* ===== verification/GddReduce.thy ===== *)
theory GddReduce
  imports Gdd
begin

text \<open>
  The reduction of the wait-for graph.  A context represents a set of edges (\<open>rep\<close>): the edge
  lists, the degree counters and the maps all agree with it.  Every operation of the detector is
  described by what it does to that set, and the reduction loop is shown to end with the greatest
  subset of the edges from which no rule of the algorithm removes anything.
\<close>

section \<open>Maps as sets of pairs\<close>

lemma pair_scan_None: "pair_scan ps key i = None \<longleftrightarrow> key \<notin> fst ` set ps"
  by (induction ps arbitrary: i) auto

lemma pair_scan_Some:
  "pair_scan ps key i = Some j \<Longrightarrow> i \<le> j \<and> j - i < length ps \<and> fst (ps ! (j - i)) = key"
proof (induction ps arbitrary: i)
  case (Cons p ps)
  show ?case
  proof (cases "fst p = key")
    case False
    with Cons have "Suc i \<le> j \<and> j - Suc i < length ps \<and> fst (ps ! (j - Suc i)) = key" by simp
    then show ?thesis by (auto simp: nth_Cons' Suc_diff_Suc)
  qed (use Cons.prems in auto)
qed simp

lemma GetPair_None: "gddMapGetPair m key = None \<longleftrightarrow> key \<notin> fst ` set (pairs m)"
  by (simp add: gddMapGetPair_def pair_scan_None)

lemma GetPair_Some: "gddMapGetPair m key = Some i \<Longrightarrow> i < length (pairs m) \<and> fst (pairs m ! i) = key"
  using pair_scan_Some [of "pairs m" key 0 i] by (simp add: gddMapGetPair_def)

lemma MapGet_None: "gddMapGet m key = None \<longleftrightarrow> key \<notin> fst ` set (pairs m)"
  using GetPair_None [of m key] by (cases "gddMapGetPair m key") (auto simp: gddMapGet_def)

lemma MapGet_Some:
  assumes "distinct (map fst (pairs m))"
  shows "gddMapGet m key = Some v \<longleftrightarrow> (key, v) \<in> set (pairs m)"
proof
  assume "gddMapGet m key = Some v"
  then obtain i where "gddMapGetPair m key = Some i" "v = snd (pairs m ! i)"
    by (auto simp: gddMapGet_def split: option.splits)
  with GetPair_Some [of m key i] show "(key, v) \<in> set (pairs m)" by (metis nth_mem prod.collapse)
next
  assume kv: "(key, v) \<in> set (pairs m)"
  then have "key \<in> fst ` set (pairs m)" by force
  then have "gddMapGetPair m key \<noteq> None" using GetPair_None by metis
  then obtain i where i: "gddMapGetPair m key = Some i" by blast
  with GetPair_Some [OF i] have "(key, snd (pairs m ! i)) \<in> set (pairs m)" by (metis nth_mem prod.collapse)
  then have "snd (pairs m ! i) = v" using kv assms by (metis eq_key_imp_eq_value)
  with i show "gddMapGet m key = Some v" by (simp add: gddMapGet_def)
qed

definition swap_delete :: "'a list \<Rightarrow> nat \<Rightarrow> 'a list" where
  "swap_delete xs pos = butlast (xs[pos := last xs])"

lemma length_swap_delete [simp]: "length (swap_delete xs pos) = length xs - 1"
  by (simp add: swap_delete_def)

lemma swap_delete_split:
  "swap_delete (as @ x # bs) (length as) = as @ (if bs = [] then [] else last bs # butlast bs)"
  by (cases bs rule: rev_cases) (simp_all add: swap_delete_def list_update_append butlast_append)

lemma map_swap_delete: "pos < length xs \<Longrightarrow> map f (swap_delete xs pos) = swap_delete (map f xs) pos"
  by (cases "xs = []") (auto simp: swap_delete_def map_butlast map_update last_map)

lemma set_swap_delete:
  assumes "distinct xs" and "pos < length xs" and "start \<le> pos"
  shows "set (drop start (swap_delete xs pos)) = set (drop start xs) - {xs ! pos}"
    and "distinct (swap_delete xs pos)"
proof -
  from assms(2) obtain as bs where xs: "xs = as @ xs ! pos # bs" and len: "length as = pos"
    by (metis id_take_nth_drop length_take min_less_iff_conj min.absorb4)
  define x where "x = xs ! pos"
  have del: "swap_delete xs pos = as @ (if bs = [] then [] else last bs # butlast bs)"
    using swap_delete_split [of as x bs] xs len by (simp add: x_def)
  have bs: "set (if bs = [] then [] else last bs # butlast bs) = set bs"
    by (cases bs rule: rev_cases) auto
  have d: "distinct (as @ x # bs)" using assms(1) xs by (simp add: x_def)
  have start: "drop start xs = drop start as @ x # bs"
    using assms(3) len xs by (metis drop_append diff_is_0_eq drop0 x_def)
  have "set (drop start (swap_delete xs pos)) = set (drop start as) \<union> set bs"
    using assms(3) len bs by (simp add: del)
  also have "\<dots> = set (drop start xs) - {x}"
    using d set_drop_subset [of start as] by (auto simp: start)
  finally show "set (drop start (swap_delete xs pos)) = set (drop start xs) - {xs ! pos}" by (simp add: x_def)
  have "distinct (if bs = [] then [] else last bs # butlast bs)"
    using d by (cases bs rule: rev_cases) auto
  with d show "distinct (swap_delete xs pos)" unfolding del distinct_append bs by auto
qed

lemma map_write_pairs:
  "(k, v) \<in> set (pairs (map_write m key f)) \<longleftrightarrow>
     (\<exists>u. (k, u) \<in> set (pairs m) \<and> v = (if k = key then f u else u))"
proof -
  have "(k, v) \<in> (\<lambda>(k, v). if k = key then (k, f v) else (k, v)) ` S \<longleftrightarrow>
      (\<exists>u. (k, u) \<in> S \<and> v = (if k = key then f u else u))" for S
    by (auto simp: image_iff Bex_def split: if_splits)
  then show ?thesis by (simp add: map_write_def)
qed

lemma map_write_keys [simp]: "map fst (pairs (map_write m key f)) = map fst (pairs m)"
  by (auto simp: map_write_def)

lemma SetUnsafe_pairs [simp]: "pairs (gddMapSetUnsafe m key v) = pairs m @ [(key, v)]"
  by (simp add: gddMapSetUnsafe_def gddMapEnsureCapacity_def Let_def)

lemma iter_delete_pairs [simp]: "pairs (gdd_map_iter_delete m pos) = swap_delete (pairs m) pos"
  by (simp add: gdd_map_iter_delete_def swap_delete_def)

section \<open>The edges that a context represents\<close>

text \<open>
  An edge of the context is a pair of a graph position and an edge.  \<open>rep ctx A\<close>: the context
  is well-formed and \<open>A\<close> is the set of its edges; every list, degree counter and map is
  consistent with \<open>A\<close>.
\<close>

type_synonym edges = "(nat \<times> GddEdge) set"

definition in_edges :: "edges \<Rightarrow> DistributedTransactionId \<Rightarrow> edges" where
  "in_edges A k = {x \<in> A. eto (snd x) = k}"

definition out_edges :: "edges \<Rightarrow> DistributedTransactionId \<Rightarrow> edges" where
  "out_edges A k = {x \<in> A. efrom (snd x) = k}"

definition vert_pairs :: "GddCtx \<Rightarrow> nat \<Rightarrow> (DistributedTransactionId \<times> GddVert) list" where
  "vert_pairs ctx i = pairs (verts (graph_at ctx i))"

definition graph_count :: "GddCtx \<Rightarrow> nat" where
  "graph_count ctx = length (pairs (graphs ctx))"

definition vert_ok :: "edges \<Rightarrow> nat \<Rightarrow> DistributedTransactionId \<times> GddVert \<Rightarrow> bool" where
  "vert_ok A i p \<longleftrightarrow>
     vert_id (snd p) = fst p \<and> distinct (edgesIn (snd p)) \<and> distinct (edgesOut (snd p)) \<and>
     set (edgesIn (snd p)) = {e. (i, e) \<in> A \<and> eto e = fst p} \<and>
     set (edgesOut (snd p)) = {e. (i, e) \<in> A \<and> efrom e = fst p}"

definition stat_ok :: "edges \<Rightarrow> DistributedTransactionId \<times> GddStat \<Rightarrow> bool" where
  "stat_ok A p \<longleftrightarrow>
     indeg (snd p) = int (card (in_edges A (fst p))) \<and> outdeg (snd p) = int (card (out_edges A (fst p)))"

definition edge_ok :: "GddCtx \<Rightarrow> nat \<times> GddEdge \<Rightarrow> bool" where
  "edge_ok ctx x \<longleftrightarrow>
     fst x < graph_count ctx \<and> eid (snd x) < next_edge ctx \<and>
     {efrom (snd x), eto (snd x)} \<subseteq> fst ` set (vert_pairs ctx (fst x)) \<and>
     {efrom (snd x), eto (snd x)} \<subseteq> fst ` set (pairs (globals ctx))"

definition rep :: "GddCtx \<Rightarrow> edges \<Rightarrow> bool" where
  "rep ctx A \<longleftrightarrow>
     finite A \<and> distinct (map fst (pairs (globals ctx))) \<and> distinct (map fst (pairs (graphs ctx))) \<and>
     (\<forall>i < graph_count ctx. distinct (map fst (vert_pairs ctx i)) \<and> (\<forall>p \<in> set (vert_pairs ctx i). vert_ok A i p)) \<and>
     (\<forall>x \<in> A. edge_ok ctx x) \<and> (\<forall>p \<in> set (pairs (globals ctx)). stat_ok A p) \<and>
     indeg (topstat ctx) = int (card A) \<and> outdeg (topstat ctx) = int (card A)"

text \<open>Two contexts with the same maps up to the contents behind their pointers.\<close>

definition same_shape :: "GddCtx \<Rightarrow> GddCtx \<Rightarrow> bool" where
  "same_shape ctx ctx' \<longleftrightarrow>
     map fst (pairs (graphs ctx')) = map fst (pairs (graphs ctx)) \<and>
     map fst (pairs (globals ctx')) = map fst (pairs (globals ctx)) \<and> next_edge ctx' = next_edge ctx \<and>
     (\<forall>i < graph_count ctx. map fst (vert_pairs ctx' i) = map fst (vert_pairs ctx i))"

lemma same_shape_refl [simp]: "same_shape ctx ctx"
  by (simp add: same_shape_def)

lemma same_shape_count: "same_shape ctx ctx' \<Longrightarrow> graph_count ctx' = graph_count ctx"
  by (simp add: same_shape_def graph_count_def) (metis length_map)

lemma same_shape_trans: "same_shape ctx ctx' \<Longrightarrow> same_shape ctx' ctx'' \<Longrightarrow> same_shape ctx ctx''"
  using same_shape_count [of ctx ctx'] by (simp add: same_shape_def)

lemma same_shape_keys:
  "same_shape ctx ctx' \<Longrightarrow> i < graph_count ctx \<Longrightarrow> fst ` set (vert_pairs ctx' i) = fst ` set (vert_pairs ctx i)"
  by (simp add: same_shape_def flip: set_map)

lemma same_shape_edge_ok: "same_shape ctx ctx' \<Longrightarrow> edge_ok ctx' x = edge_ok ctx x"
proof -
  assume s: "same_shape ctx ctx'"
  then have "fst ` set (pairs (globals ctx')) = fst ` set (pairs (globals ctx))"
    by (simp add: same_shape_def flip: set_map)
  with s same_shape_count [OF s] same_shape_keys [OF s, of "fst x"] show ?thesis
    by (auto simp: edge_ok_def same_shape_def)
qed

lemma graph_write_simps [gdd_simps]:
  "topstat (graph_write ctx i f) = topstat ctx" "globals (graph_write ctx i f) = globals ctx"
  "next_edge (graph_write ctx i f) = next_edge ctx" "graph_count (graph_write ctx i f) = graph_count ctx"
  "map fst (pairs (graphs (graph_write ctx i f))) = map fst (pairs (graphs ctx))"
  by (simp_all add: graph_write_def graph_count_def map_update) (metis list_update_id map_update)

lemma graph_at_write:
  "i < graph_count ctx \<Longrightarrow> graph_at (graph_write ctx i f) j = (if j = i then f (graph_at ctx i) else graph_at ctx j)"
  by (simp add: graph_at_def graph_write_def graph_count_def)

lemma vert_write_simps [gdd_simps]:
  "topstat (vert_write ctx i k f) = topstat ctx" "globals (vert_write ctx i k f) = globals ctx"
  "next_edge (vert_write ctx i k f) = next_edge ctx" "graph_count (vert_write ctx i k f) = graph_count ctx"
  by (simp_all add: vert_write_def gdd_simps)

lemma vert_write_shape: "i < graph_count ctx \<Longrightarrow> same_shape ctx (vert_write ctx i k f)"
  by (simp add: same_shape_def vert_write_def gdd_simps vert_pairs_def graph_at_write)

lemma vert_write_pairs:
  "i < graph_count ctx \<Longrightarrow> (k, v) \<in> set (vert_pairs (vert_write ctx i key f) j) \<longleftrightarrow>
     (\<exists>u. (k, u) \<in> set (vert_pairs ctx j) \<and> v = (if j = i \<and> k = key then f u else u))"
  by (auto simp: vert_pairs_def vert_write_def graph_at_write map_write_pairs)

lemma global_write_simps [gdd_simps]:
  "topstat (global_write ctx k f) = topstat ctx" "graphs (global_write ctx k f) = graphs ctx"
  "next_edge (global_write ctx k f) = next_edge ctx" "graph_count (global_write ctx k f) = graph_count ctx"
  "graph_at (global_write ctx k f) i = graph_at ctx i" "vert_pairs (global_write ctx k f) i = vert_pairs ctx i"
  by (simp_all add: global_write_def graph_count_def graph_at_def vert_pairs_def)

lemma global_write_shape: "same_shape ctx (global_write ctx k f)"
  by (simp add: same_shape_def gdd_simps) (simp add: global_write_def)

lemma global_write_pairs:
  "(k, s) \<in> set (pairs (globals (global_write ctx key f))) \<longleftrightarrow>
     (\<exists>t. (k, t) \<in> set (pairs (globals ctx)) \<and> s = (if k = key then f t else t))"
  by (simp add: global_write_def map_write_pairs)

lemma topstat_simps [gdd_simps]:
  "graphs (ctx\<lparr>topstat := t\<rparr>) = graphs ctx" "globals (ctx\<lparr>topstat := t\<rparr>) = globals ctx"
  "graph_count (ctx\<lparr>topstat := t\<rparr>) = graph_count ctx" "graph_at (ctx\<lparr>topstat := t\<rparr>) i = graph_at ctx i"
  "vert_pairs (ctx\<lparr>topstat := t\<rparr>) i = vert_pairs ctx i"
  by (simp_all add: graph_count_def graph_at_def vert_pairs_def)

lemma topstat_shape: "same_shape ctx (ctx\<lparr>topstat := t\<rparr>)"
  by (simp add: same_shape_def gdd_simps)

section \<open>Removing edges\<close>

lemma write_shape:
  assumes "i < graph_count ctx"
  shows "same_shape ctx (vert_write (global_write (ctx\<lparr>topstat := t\<rparr>) k f) i l g)"
proof -
  have "same_shape ctx (global_write (ctx\<lparr>topstat := t\<rparr>) k f)"
    by (rule same_shape_trans [OF topstat_shape global_write_shape])
  moreover have "i < graph_count (global_write (ctx\<lparr>topstat := t\<rparr>) k f)" using assms by (simp add: gdd_simps)
  ultimately show ?thesis by (blast intro: same_shape_trans vert_write_shape)
qed

lemma unlink_shape: "i < graph_count ctx \<Longrightarrow> same_shape ctx (gddEdgeUnlink ctx i e)"
proof -
  assume i: "i < graph_count ctx"
  have "same_shape ctx (gddEdgeUnlinkFrom ctx i e)"
    unfolding gddEdgeUnlinkFrom_def Let_def by (rule write_shape [OF i])
  moreover from this i have "i < graph_count (gddEdgeUnlinkFrom ctx i e)" by (simp add: same_shape_count)
  then have "same_shape (gddEdgeUnlinkFrom ctx i e) (gddEdgeUnlink ctx i e)"
    unfolding gddEdgeUnlink_def gddEdgeUnlinkTo_def Let_def by (rule write_shape)
  ultimately show ?thesis by (rule same_shape_trans)
qed

lemma unlink_verts:
  assumes "i < graph_count ctx"
  shows "(k, v) \<in> set (vert_pairs (gddEdgeUnlink ctx i e) j) \<longleftrightarrow>
    (\<exists>u. (k, u) \<in> set (vert_pairs ctx j) \<and>
       v = u\<lparr>edgesOut := (if j = i \<and> k = efrom e then remove1 e (edgesOut u) else edgesOut u),
              edgesIn := (if j = i \<and> k = eto e then remove1 e (edgesIn u) else edgesIn u)\<rparr>)"
proof -
  have from_pairs: "(k, v) \<in> set (vert_pairs (gddEdgeUnlinkFrom ctx i e) j) \<longleftrightarrow>
      (\<exists>u. (k, u) \<in> set (vert_pairs ctx j) \<and>
         v = (if j = i \<and> k = efrom e then u\<lparr>edgesOut := remove1 e (edgesOut u)\<rparr> else u))" for v
    unfolding gddEdgeUnlinkFrom_def Let_def using assms by (subst vert_write_pairs) (simp_all add: gdd_simps)
  have "i < graph_count (gddEdgeUnlinkFrom ctx i e)" using assms by (simp add: gddEdgeUnlinkFrom_def gdd_simps)
  then have "(k, v) \<in> set (vert_pairs (gddEdgeUnlink ctx i e) j) \<longleftrightarrow>
      (\<exists>u. (k, u) \<in> set (vert_pairs (gddEdgeUnlinkFrom ctx i e) j) \<and>
         v = (if j = i \<and> k = eto e then u\<lparr>edgesIn := remove1 e (edgesIn u)\<rparr> else u))"
    unfolding gddEdgeUnlink_def gddEdgeUnlinkTo_def Let_def by (subst vert_write_pairs) (simp_all add: gdd_simps)
  then show ?thesis unfolding from_pairs
    by (cases "j = i \<and> k = efrom e"; cases "j = i \<and> k = eto e") auto
qed

lemma unlink_globals:
  "(k, s) \<in> set (pairs (globals (gddEdgeUnlink ctx i e))) \<longleftrightarrow>
    (\<exists>t. (k, t) \<in> set (pairs (globals ctx)) \<and>
       s = t\<lparr>outdeg := (if k = efrom e then outdeg t - 1 else outdeg t),
              indeg := (if k = eto e then indeg t - 1 else indeg t)\<rparr>)"
proof -
  have "(k, s) \<in> set (pairs (globals (gddEdgeUnlink ctx i e))) \<longleftrightarrow>
      (\<exists>u. (\<exists>t. (k, t) \<in> set (pairs (globals ctx)) \<and>
              u = (if k = efrom e then t\<lparr>outdeg := outdeg t - 1\<rparr> else t)) \<and>
           s = (if k = eto e then u\<lparr>indeg := indeg u - 1\<rparr> else u))"
    by (simp only: gddEdgeUnlink_def gddEdgeUnlinkFrom_def gddEdgeUnlinkTo_def Let_def gdd_simps global_write_pairs)
  then show ?thesis by (cases "k = efrom e"; cases "k = eto e") auto
qed

lemma unlink_topstat:
  "indeg (topstat (gddEdgeUnlink ctx i e)) = indeg (topstat ctx) - 1"
  "outdeg (topstat (gddEdgeUnlink ctx i e)) = outdeg (topstat ctx) - 1"
  by (simp_all add: gddEdgeUnlink_def gddEdgeUnlinkFrom_def gddEdgeUnlinkTo_def Let_def gdd_simps)

lemma card_in_edges_remove:
  assumes "finite A" and "x \<in> A"
  shows "int (card (in_edges (A - {x}) k)) = int (card (in_edges A k)) - (if eto (snd x) = k then 1 else 0)"
    and "int (card (out_edges (A - {x}) k)) = int (card (out_edges A k)) - (if efrom (snd x) = k then 1 else 0)"
proof -
  have eq: "in_edges (A - {x}) k = in_edges A k - {x}" "out_edges (A - {x}) k = out_edges A k - {x}"
    by (auto simp: in_edges_def out_edges_def)
  have fin: "finite (in_edges A k)" "finite (out_edges A k)" using assms(1) by (auto simp: in_edges_def out_edges_def)
  have mem: "x \<in> in_edges A k \<longleftrightarrow> eto (snd x) = k" "x \<in> out_edges A k \<longleftrightarrow> efrom (snd x) = k"
    using assms(2) by (auto simp: in_edges_def out_edges_def)
  have diff: "int (card (S - {x})) = int (card S) - (if x \<in> S then 1 else 0)" if "finite S" for S
  proof (cases "x \<in> S")
    case True
    with that have "0 < card S" by (auto simp: card_gt_0_iff)
    with True that show ?thesis by (simp add: card_Diff_singleton of_nat_diff)
  qed simp
  show "int (card (in_edges (A - {x}) k)) = int (card (in_edges A k)) - (if eto (snd x) = k then 1 else 0)"
    using diff [OF fin(1)] by (simp only: eq mem)
  show "int (card (out_edges (A - {x}) k)) = int (card (out_edges A k)) - (if efrom (snd x) = k then 1 else 0)"
    using diff [OF fin(2)] by (simp only: eq mem)
qed

lemma rep_unlink:
  assumes "rep ctx A" and "(i, e) \<in> A"
  shows "rep (gddEdgeUnlink ctx i e) (A - {(i, e)})"
proof -
  let ?ctx = "gddEdgeUnlink ctx i e" and ?A = "A - {(i, e)}"
  have fin: "finite A" and i: "i < graph_count ctx"
    using assms by (auto simp: rep_def edge_ok_def)
  note shape = unlink_shape [OF i, of e]
  have verts: "vert_ok ?A j (k, v)" if j: "j < graph_count ctx" and "(k, v) \<in> set (vert_pairs ?ctx j)" for j k v
  proof -
    from that(2) obtain u where u: "(k, u) \<in> set (vert_pairs ctx j)"
      "v = u\<lparr>edgesOut := (if j = i \<and> k = efrom e then remove1 e (edgesOut u) else edgesOut u),
              edgesIn := (if j = i \<and> k = eto e then remove1 e (edgesIn u) else edgesIn u)\<rparr>"
      unfolding unlink_verts [OF i] by blast
    from u(1) j assms(1) have "vert_ok A j (k, u)" by (auto simp: rep_def)
    with u(2) show ?thesis by (auto simp: vert_ok_def)
  qed
  have stats: "stat_ok ?A (k, s)" if "(k, s) \<in> set (pairs (globals ?ctx))" for k s
  proof -
    from that obtain t where t: "(k, t) \<in> set (pairs (globals ctx))"
      "s = t\<lparr>outdeg := (if k = efrom e then outdeg t - 1 else outdeg t),
              indeg := (if k = eto e then indeg t - 1 else indeg t)\<rparr>"
      unfolding unlink_globals by blast
    from t(1) assms(1) have "stat_ok A (k, t)" by (auto simp: rep_def)
    with t(2) show ?thesis by (simp add: stat_ok_def card_in_edges_remove [OF fin assms(2)])
  qed
  have "0 < card A" using fin assms(2) by (auto simp: card_gt_0_iff)
  with assms fin verts stats shape same_shape_count [OF shape] same_shape_edge_ok [OF shape] show ?thesis
    by (auto simp: rep_def unlink_topstat card_Diff_singleton of_nat_diff same_shape_def)
qed

lemma rep_unlink_edges:
  "rep ctx A \<Longrightarrow> distinct es \<Longrightarrow> set es \<subseteq> {e. (i, e) \<in> A} \<Longrightarrow> i < graph_count ctx \<Longrightarrow>
   rep (unlink_edges ctx i es) (A - Pair i ` set es) \<and> same_shape ctx (unlink_edges ctx i es)"
proof (induction es arbitrary: ctx A)
  case (Cons e es)
  let ?ctx = "gddEdgeUnlink ctx i e"
  have "rep ?ctx (A - {(i, e)})" using Cons.prems by (intro rep_unlink) auto
  moreover have shape: "same_shape ctx ?ctx" using Cons.prems(4) by (rule unlink_shape)
  moreover have "set es \<subseteq> {e'. (i, e') \<in> A - {(i, e)}}" using Cons.prems by auto
  moreover have "A - {(i, e)} - Pair i ` set es = A - Pair i ` set (e # es)" by auto
  ultimately show ?case
    using Cons.IH [of ?ctx "A - {(i, e)}"] Cons.prems(2,4) same_shape_count [OF shape]
      same_shape_trans [OF shape, of "unlink_edges ?ctx i es"] by auto
qed simp

section \<open>What a vert's reduction removes\<close>

definition touching :: "edges \<Rightarrow> nat \<Rightarrow> DistributedTransactionId \<Rightarrow> edges" where
  "touching A i k = {x \<in> A. fst x = i \<and> (eto (snd x) = k \<or> efrom (snd x) = k)}"

definition removed :: "edges \<Rightarrow> nat \<Rightarrow> DistributedTransactionId \<Rightarrow> edges" where
  "removed A i k =
     (if in_edges A k = {} \<or> out_edges A k = {} then touching A i k
      else if {x \<in> out_edges A k. fst x = i} = {} then {x \<in> in_edges A k. fst x = i \<and> \<not> solid (snd x)}
      else {})"

lemma removed_cases:
  "in_edges A k = {} \<or> out_edges A k = {} \<Longrightarrow> removed A i k = touching A i k"
  "\<not> (in_edges A k = {} \<or> out_edges A k = {}) \<Longrightarrow> {x \<in> out_edges A k. fst x = i} = {} \<Longrightarrow>
     removed A i k = {x \<in> in_edges A k. fst x = i \<and> \<not> solid (snd x)}"
  "\<not> (in_edges A k = {} \<or> out_edges A k = {}) \<Longrightarrow> {x \<in> out_edges A k. fst x = i} \<noteq> {} \<Longrightarrow> removed A i k = {}"
  by (simp_all only: removed_def simp_thms if_True if_False)

lemma rep_vert_at:
  assumes "rep ctx A" and "i < graph_count ctx" and "k \<in> fst ` set (vert_pairs ctx i)"
  shows "vert_ok A i (k, vert_at ctx i k)"
proof -
  from assms(3) obtain v where v: "(k, v) \<in> set (vert_pairs ctx i)" by auto
  have "distinct (map fst (vert_pairs ctx i))" using assms(1,2) by (auto simp: rep_def)
  with v have "gddMapGet (verts (graph_at ctx i)) k = Some v" by (simp add: MapGet_Some vert_pairs_def)
  with v assms(1,2) show ?thesis by (auto simp: vert_at_def rep_def)
qed

lemma rep_global_at:
  assumes "rep ctx A"
  shows "indeg (global_at ctx k) = 0 \<longleftrightarrow> in_edges A k = {}" and "outdeg (global_at ctx k) = 0 \<longleftrightarrow> out_edges A k = {}"
proof -
  have fin: "finite (in_edges A k)" "finite (out_edges A k)"
    using assms by (auto simp: rep_def in_edges_def out_edges_def)
  have d: "distinct (map fst (pairs (globals ctx)))" using assms by (simp add: rep_def)
  have "(indeg (global_at ctx k) = 0 \<longleftrightarrow> in_edges A k = {}) \<and> (outdeg (global_at ctx k) = 0 \<longleftrightarrow> out_edges A k = {})"
  proof (cases "gddMapGet (globals ctx) k")
    case None
    then have "k \<notin> fst ` set (pairs (globals ctx))" by (rule MapGet_None [THEN iffD1])
    moreover have "edge_ok ctx x" if "x \<in> A" for x using assms that by (simp add: rep_def)
    ultimately have "in_edges A k = {}" "out_edges A k = {}"
      unfolding in_edges_def out_edges_def edge_ok_def by blast+
    with None show ?thesis by (simp add: global_at_def gddStatNew_def gddStatInit_def)
  next
    case (Some s)
    with d have "(k, s) \<in> set (pairs (globals ctx))" by (simp add: MapGet_Some)
    with assms have "stat_ok A (k, s)" by (auto simp: rep_def)
    with Some fin show ?thesis by (simp add: global_at_def stat_ok_def)
  qed
  then show "indeg (global_at ctx k) = 0 \<longleftrightarrow> in_edges A k = {}" "outdeg (global_at ctx k) = 0 \<longleftrightarrow> out_edges A k = {}"
    by blast+
qed

lemma UnlinkAll_rep:
  assumes "rep ctx A" and "i < graph_count ctx" and "k \<in> fst ` set (vert_pairs ctx i)"
  shows "rep (fst (gddVertUnlinkAll ctx i k)) (A - touching A i k)"
    and "same_shape ctx (fst (gddVertUnlinkAll ctx i k))"
    and "snd (gddVertUnlinkAll ctx i k) \<longleftrightarrow> touching A i k \<noteq> {}"
proof -
  let ?ins = "edgesIn (vert_at ctx i k)"
  let ?ctx1 = "unlink_edges ctx i ?ins"
  let ?A1 = "A - Pair i ` set ?ins"
  let ?outs = "edgesOut (vert_at ?ctx1 i k)"
  have ins: "distinct ?ins" "set ?ins = {e. (i, e) \<in> A \<and> eto e = k}"
    using rep_vert_at [OF assms] by (auto simp: vert_ok_def)
  have 1: "rep ?ctx1 ?A1" "same_shape ctx ?ctx1"
    using rep_unlink_edges [OF assms(1) ins(1), of i] ins(2) assms(2) by auto
  have "i < graph_count ?ctx1" "k \<in> fst ` set (vert_pairs ?ctx1 i)"
    using 1(2) assms(2,3) by (simp_all add: same_shape_count same_shape_keys)
  note vert1 = rep_vert_at [OF 1(1) this]
  have outs: "distinct ?outs" "set ?outs = {e. (i, e) \<in> ?A1 \<and> efrom e = k}"
    using vert1 by (auto simp: vert_ok_def)
  have 2: "rep (unlink_edges ?ctx1 i ?outs) (?A1 - Pair i ` set ?outs)"
    "same_shape ?ctx1 (unlink_edges ?ctx1 i ?outs)"
    using rep_unlink_edges [OF 1(1) outs(1), of i] outs(2) \<open>i < graph_count ?ctx1\<close> by auto
  have "?A1 - Pair i ` set ?outs = A - touching A i k"
    unfolding outs(2) ins(2) touching_def by auto
  with 2 show "rep (fst (gddVertUnlinkAll ctx i k)) (A - touching A i k)"
    by (simp add: gddVertUnlinkAll_def Let_def)
  show "same_shape ctx (fst (gddVertUnlinkAll ctx i k))"
    using same_shape_trans [OF 1(2) 2(2)] by (simp add: gddVertUnlinkAll_def Let_def)
  have "touching A i k = {} \<longleftrightarrow> set ?ins = {} \<and> set ?outs = {}"
    unfolding outs(2) ins(2) touching_def by auto
  then show "snd (gddVertUnlinkAll ctx i k) \<longleftrightarrow> touching A i k \<noteq> {}"
    by (simp add: gddVertUnlinkAll_def Let_def)
qed

lemma VertReduce_rep:
  assumes "rep ctx A" and "i < graph_count ctx" and "k \<in> fst ` set (vert_pairs ctx i)"
  shows "rep (fst (gddVertReduce ctx i k)) (A - removed A i k)"
    and "same_shape ctx (fst (gddVertReduce ctx i k))"
    and "snd (gddVertReduce ctx i k) \<longleftrightarrow> removed A i k \<noteq> {}"
proof -
  note vert = rep_vert_at [OF assms] and glob = rep_global_at [OF assms(1), of k]
  have "rep (fst (gddVertReduce ctx i k)) (A - removed A i k) \<and> same_shape ctx (fst (gddVertReduce ctx i k)) \<and>
      (snd (gddVertReduce ctx i k) \<longleftrightarrow> removed A i k \<noteq> {})"
  proof (cases "in_edges A k = {} \<or> out_edges A k = {}")
    case True
    then show ?thesis using UnlinkAll_rep [OF assms] glob by (simp add: gddVertReduce_def Let_def removed_def)
  next
    case False
    have outs: "gddVertGetOutDegree (vert_at ctx i k) = 0 \<longleftrightarrow> {x \<in> out_edges A k. fst x = i} = {}"
      using vert by (auto simp: vert_ok_def gddVertGetOutDegree_def out_edges_def simp flip: set_empty)
    show ?thesis
    proof (cases "{x \<in> out_edges A k. fst x = i} = {}")
      case True
      let ?dotted = "filter (\<lambda>e. \<not> solid e) (edgesIn (vert_at ctx i k))"
      have d: "distinct ?dotted" "set ?dotted = {e. (i, e) \<in> A \<and> eto e = k \<and> \<not> solid e}"
        using vert by (auto simp: vert_ok_def)
      then have im: "Pair i ` set ?dotted = removed A i k"
        using False True by (auto simp: removed_def in_edges_def)
      then have "?dotted \<noteq> [] \<longleftrightarrow> removed A i k \<noteq> {}" by (metis image_is_empty set_empty)
      moreover have "gddVertReduce ctx i k = (unlink_edges ctx i ?dotted, ?dotted \<noteq> [])"
        using False True outs glob by (simp add: gddVertReduce_def Let_def)
      moreover have "set ?dotted \<subseteq> {e. (i, e) \<in> A}" using d(2) by auto
      ultimately show ?thesis using rep_unlink_edges [OF assms(1) d(1) _ assms(2)] im by simp
    next
      case nonempty: False
      then have "gddVertGetOutDegree (vert_at ctx i k) \<noteq> 0" using outs by blast
      then have "gddVertReduce ctx i k = (ctx, False)"
        using False glob by (simp add: gddVertReduce_def Let_def)
      moreover have "removed A i k = {}" using False nonempty by (rule removed_cases(3))
      ultimately show ?thesis using assms(1) by simp
    qed
  qed
  then show "rep (fst (gddVertReduce ctx i k)) (A - removed A i k)"
    "same_shape ctx (fst (gddVertReduce ctx i k))" "snd (gddVertReduce ctx i k) \<longleftrightarrow> removed A i k \<noteq> {}"
    by blast+
qed

section \<open>Stable sets of edges\<close>

text \<open>
  The edges that the reduction cannot remove: the waiting transaction of each is itself
  waited for somewhere, the one it waits for waits somewhere, and the target of a dotted edge
  waits on the same segment.  A union of stable sets is stable, so every set of edges has a
  greatest stable subset.
\<close>

definition stable :: "edges \<Rightarrow> bool" where
  "stable A \<longleftrightarrow> (\<forall>x \<in> A. in_edges A (efrom (snd x)) \<noteq> {} \<and> out_edges A (eto (snd x)) \<noteq> {} \<and>
     (solid (snd x) \<or> {y \<in> out_edges A (eto (snd x)). fst y = fst x} \<noteq> {}))"

definition greatest_sub :: "('a set \<Rightarrow> bool) \<Rightarrow> 'a set \<Rightarrow> 'a set" where
  "greatest_sub P A = \<Union> {B. B \<subseteq> A \<and> P B}"

locale union_closed =
  fixes P :: "'a set \<Rightarrow> bool"
  assumes P_Union: "(\<And>B. B \<in> F \<Longrightarrow> P B) \<Longrightarrow> P (\<Union> F)"
begin

lemma sub_P: "P (greatest_sub P A)"
  unfolding greatest_sub_def by (rule P_Union) blast

lemma sub_subset: "greatest_sub P A \<subseteq> A"
  unfolding greatest_sub_def by blast

lemma sub_greatest: "P B \<Longrightarrow> B \<subseteq> A \<Longrightarrow> B \<subseteq> greatest_sub P A"
  unfolding greatest_sub_def by blast

lemma sub_unique: "P B \<Longrightarrow> B \<subseteq> A \<Longrightarrow> (\<And>C. P C \<Longrightarrow> C \<subseteq> A \<Longrightarrow> C \<subseteq> B) \<Longrightarrow> greatest_sub P A = B"
  by (intro equalityI sub_greatest) (simp_all add: sub_P sub_subset)

lemma sub_id: "P A \<Longrightarrow> greatest_sub P A = A"
  by (rule sub_unique) auto

lemma sub_mono: "A \<subseteq> B \<Longrightarrow> greatest_sub P A \<subseteq> greatest_sub P B"
  by (intro sub_greatest sub_P order_trans [OF sub_subset])

end

lemma stable_Union: "(\<And>B. B \<in> F \<Longrightarrow> stable B) \<Longrightarrow> stable (\<Union> F)"
  unfolding stable_def in_edges_def out_edges_def by blast

interpretation core: union_closed stable
  by unfold_locales (rule stable_Union)

abbreviation stable_core :: "edges \<Rightarrow> edges" where
  "stable_core \<equiv> greatest_sub stable"

lemma stable_not_removed:
  assumes "stable B" and "B \<subseteq> A"
  shows "B \<subseteq> A - removed A i k"
proof
  fix x
  assume x: "x \<in> B"
  have 1: "in_edges A (efrom (snd x)) \<noteq> {}" "out_edges A (eto (snd x)) \<noteq> {}"
    "solid (snd x) \<or> {y \<in> out_edges A (eto (snd x)). fst y = fst x} \<noteq> {}"
    using assms x unfolding stable_def in_edges_def out_edges_def by blast+
  have 2: "in_edges A (eto (snd x)) \<noteq> {}" "out_edges A (efrom (snd x)) \<noteq> {}"
    using assms(2) x unfolding in_edges_def out_edges_def by blast+
  have "x \<notin> removed A i k"
  proof (cases "in_edges A k = {} \<or> out_edges A k = {}")
    case True
    then have "removed A i k = touching A i k" by (rule removed_cases(1))
    moreover have "eto (snd x) \<noteq> k" "efrom (snd x) \<noteq> k" using True 1(1,2) 2 by auto
    ultimately show ?thesis by (simp add: touching_def)
  next
    case ends: False
    show ?thesis
    proof (cases "{x \<in> out_edges A k. fst x = i} = {}")
      case True
      with ends have "removed A i k = {x \<in> in_edges A k. fst x = i \<and> \<not> solid (snd x)}"
        by (rule removed_cases(2))
      moreover have "solid (snd x)" if "eto (snd x) = k" "fst x = i" using True 1(3) that by simp
      ultimately show ?thesis by (auto simp: in_edges_def)
    next
      case False
      with ends have "removed A i k = {}" by (rule removed_cases(3))
      then show ?thesis by simp
    qed
  qed
  with x assms(2) show "x \<in> A - removed A i k" by blast
qed

lemma unremovable_stable:
  assumes "\<And>x. x \<in> A \<Longrightarrow> removed A (fst x) (efrom (snd x)) = {} \<and> removed A (fst x) (eto (snd x)) = {}"
  shows "stable A"
  unfolding stable_def
proof (intro ballI conjI)
  fix x
  assume x: "x \<in> A"
  have touch: "touching A (fst x) (efrom (snd x)) \<noteq> {}" "touching A (fst x) (eto (snd x)) \<noteq> {}"
    using x unfolding touching_def by blast+
  show ins: "in_edges A (efrom (snd x)) \<noteq> {}" and outs: "out_edges A (eto (snd x)) \<noteq> {}"
    using assms [OF x] touch removed_cases(1) by metis+
  show "solid (snd x) \<or> {y \<in> out_edges A (eto (snd x)). fst y = fst x} \<noteq> {}"
  proof (rule ccontr)
    assume neg: "\<not> (solid (snd x) \<or> {y \<in> out_edges A (eto (snd x)). fst y = fst x} \<noteq> {})"
    have xin: "x \<in> in_edges A (eto (snd x))" using x by (simp add: in_edges_def)
    then have "removed A (fst x) (eto (snd x)) =
        {y \<in> in_edges A (eto (snd x)). fst y = fst x \<and> \<not> solid (snd y)}"
      using neg outs by (intro removed_cases(2)) blast+
    with xin neg assms [OF x] show False by blast
  qed
qed

section \<open>The reduction computes the greatest stable subset\<close>

lemma touching_vert:
  assumes "rep ctx A" and "i < graph_count ctx" and "k \<in> fst ` set (vert_pairs ctx i)"
  shows "gddVertGetInDegree (vert_at ctx i k) = 0 \<and> gddVertGetOutDegree (vert_at ctx i k) = 0 \<longleftrightarrow> touching A i k = {}"
  using rep_vert_at [OF assms]
  by (auto simp: vert_ok_def gddVertGetInDegree_def gddVertGetOutDegree_def touching_def simp flip: set_empty)

definition delete_vert :: "GddCtx \<Rightarrow> nat \<Rightarrow> nat \<Rightarrow> GddCtx" where
  "delete_vert ctx i pos = graph_write ctx i (\<lambda>g. g\<lparr>verts := gdd_map_iter_delete (verts g) pos\<rparr>)"

lemma delete_vert_pairs:
  "i < graph_count ctx \<Longrightarrow>
     vert_pairs (delete_vert ctx i pos) j = (if j = i then swap_delete (vert_pairs ctx i) pos else vert_pairs ctx j)"
  by (simp add: delete_vert_def vert_pairs_def graph_at_write)

lemma delete_vert_simps [gdd_simps]:
  "topstat (delete_vert ctx i pos) = topstat ctx" "globals (delete_vert ctx i pos) = globals ctx"
  "next_edge (delete_vert ctx i pos) = next_edge ctx" "graph_count (delete_vert ctx i pos) = graph_count ctx"
  "map fst (pairs (graphs (delete_vert ctx i pos))) = map fst (pairs (graphs ctx))"
  by (simp_all add: delete_vert_def gdd_simps)

lemma rep_delete_vert:
  assumes "rep ctx A" and "i < graph_count ctx" and "pos < length (vert_pairs ctx i)"
    and "touching A i (fst (vert_pairs ctx i ! pos)) = {}"
  shows "rep (delete_vert ctx i pos) A"
proof -
  let ?ps = "vert_pairs ctx i" and ?ctx = "delete_vert ctx i pos"
  let ?k = "fst (?ps ! pos)"
  have d: "distinct (map fst ?ps)" using assms(1,2) by (auto simp: rep_def)
  then have del: "set (swap_delete ?ps pos) = set ?ps - {?ps ! pos}"
    and d': "distinct (map fst (swap_delete ?ps pos))"
    using set_swap_delete [of ?ps pos 0] set_swap_delete(2) [of "map fst ?ps" pos] assms(3)
    by (auto simp: map_swap_delete distinct_map)
  have keys: "fst ` set (swap_delete ?ps pos) = fst ` set ?ps - {?k}"
    using set_swap_delete(1) [of "map fst ?ps" pos 0] d assms(3) by (simp add: map_swap_delete flip: set_map)
  have "edge_ok ?ctx x" if "x \<in> A" for x
  proof -
    have ok: "edge_ok ctx x" using assms(1) that by (simp add: rep_def)
    moreover have "efrom (snd x) \<noteq> ?k" "eto (snd x) \<noteq> ?k" if "fst x = i"
      using assms(4) \<open>x \<in> A\<close> that unfolding touching_def by blast+
    ultimately show ?thesis
      using keys by (auto simp: edge_ok_def gdd_simps delete_vert_pairs [OF assms(2)])
  qed
  with assms(1) d' del show ?thesis
    by (auto simp: rep_def gdd_simps delete_vert_pairs [OF assms(2)])
qed

text \<open>What a part of a pass has done to the edges when it turned \<open>A\<close> into \<open>A'\<close>.\<close>

definition pruned :: "edges \<Rightarrow> edges \<Rightarrow> bool \<Rightarrow> bool \<Rightarrow> bool" where
  "pruned A A' d d' \<longleftrightarrow> A' \<subseteq> A \<and> (\<forall>B. stable B \<and> B \<subseteq> A \<longrightarrow> B \<subseteq> A') \<and> (d' \<longleftrightarrow> d \<or> A' \<noteq> A)"

lemma pruned_trans: "pruned A B d e \<Longrightarrow> pruned B C e f \<Longrightarrow> pruned A C d f"
  unfolding pruned_def by (metis order_trans subset_antisym)

lemma pruned_removed: "pruned A (A - removed A i k) d (if removed A i k \<noteq> {} then True else d)"
proof -
  have "removed A i k \<subseteq> A" by (auto simp: removed_def touching_def in_edges_def split: if_splits)
  then show ?thesis using stable_not_removed [of _ A i k] unfolding pruned_def by auto
qed

lemma keys_drop: "fst ` set (drop pos ps) = set (drop pos (map fst ps))"
  by (simp add: drop_map)

lemma pruned_step:
  assumes pr: "pruned A (A - removed A i k0) d d1" and A': "pruned (A - removed A i k0) A' d1 d'"
    and rest: "A' = A - removed A i k0 \<longrightarrow> (\<forall>k \<in> K2. removed (A - removed A i k0) i k = {})"
    and sub: "K \<subseteq> insert k0 K2"
  shows "pruned A A' d d' \<and> (A' = A \<longrightarrow> (\<forall>k \<in> K. removed A i k = {}))"
proof (intro conjI impI ballI)
  fix k
  assume "A' = A" and "k \<in> K"
  have eq: "A - removed A i k0 = A" using \<open>A' = A\<close> A' unfolding pruned_def by blast
  moreover have "removed A i k0 \<subseteq> A" by (auto simp: removed_def touching_def in_edges_def split: if_splits)
  ultimately have r0: "removed A i k0 = {}" by blast
  have "A' = A - removed A i k0" using \<open>A' = A\<close> eq by simp
  then have r2: "\<forall>k \<in> K2. removed A i k = {}" using rest unfolding eq by (rule rev_mp)
  have "k = k0 \<or> k \<in> K2" using sub \<open>k \<in> K\<close> by (meson insertE subsetD)
  with r0 r2 show "removed A i k = {}" by (elim disjE) (simp, rule bspec)
qed (rule pruned_trans [OF pr A'])

lemma reduce_verts_rep:
  "rep ctx A \<Longrightarrow> i < graph_count ctx \<Longrightarrow> pos + n = length (vert_pairs ctx i) \<Longrightarrow>
   reduce_verts n pos i ctx d = (ctx', d') \<Longrightarrow>
   \<exists>A'. rep ctx' A' \<and> pruned A A' d d' \<and> graph_count ctx' = graph_count ctx \<and>
     (A' = A \<longrightarrow> (\<forall>k \<in> fst ` set (drop pos (vert_pairs ctx i)). removed A i k = {}))"
proof (induction n arbitrary: pos ctx A d)
  case 0
  then show ?case by (auto simp: pruned_def intro!: exI [of _ A])
next
  case (Suc n)
  let ?ps = "vert_pairs ctx i"
  let ?k = "fst (?ps ! pos)"
  let ?A1 = "A - removed A i ?k"
  obtain ctx1 r where red: "gddVertReduce ctx i ?k = (ctx1, r)" by force
  have pos: "pos < length ?ps" using Suc.prems(3) by simp
  then have key: "?k \<in> fst ` set ?ps" by simp
  note VR = VertReduce_rep [OF Suc.prems(1,2) key]
  have r1: "rep ctx1 ?A1" and shape: "same_shape ctx ctx1" and r: "r \<longleftrightarrow> removed A i ?k \<noteq> {}"
    using VR red by simp_all
  have cnt: "graph_count ctx1 = graph_count ctx" using shape by (rule same_shape_count)
  have keys: "map fst (vert_pairs ctx1 i) = map fst ?ps" using shape Suc.prems(2) by (simp add: same_shape_def)
  then have len: "length (vert_pairs ctx1 i) = length ?ps" by (metis length_map)
  have key1: "fst (vert_pairs ctx1 i ! pos) = ?k" using keys pos len by (metis nth_map)
  have dist: "distinct (map fst ?ps)" using Suc.prems(1,2) by (auto simp: rep_def)
  define d1 where "d1 = (if r then True else d)"
  have pr: "pruned A ?A1 d d1" using pruned_removed [of A i ?k d] r by (simp add: d1_def)
  have dropk: "set (drop pos (map fst ?ps)) = insert ?k (set (drop (Suc pos) (map fst ?ps)))"
    using pos by (metis Cons_nth_drop_Suc length_map list.simps(15) nth_map)
  have step: "\<exists>A'. rep ctx' A' \<and> pruned A A' d d' \<and> graph_count ctx' = graph_count ctx \<and>
      (A' = A \<longrightarrow> (\<forall>k \<in> fst ` set (drop pos ?ps). removed A i k = {}))"
    if "rep ctx2 ?A1" "graph_count ctx2 = graph_count ctx" "pos2 + n = length (vert_pairs ctx2 i)"
      "reduce_verts n pos2 i ctx2 d1 = (ctx', d')"
      "fst ` set (drop pos ?ps) \<subseteq> insert ?k (fst ` set (drop pos2 (vert_pairs ctx2 i)))" for ctx2 pos2
  proof -
    from Suc.IH [OF that(1) _ that(3,4)] that(2) Suc.prems(2) obtain A' where
      A': "rep ctx' A'" "pruned ?A1 A' d1 d'" "graph_count ctx' = graph_count ctx"
        "A' = ?A1 \<longrightarrow> (\<forall>k \<in> fst ` set (drop pos2 (vert_pairs ctx2 i)). removed ?A1 i k = {})" by auto
    with pruned_step [OF pr A'(2,4) that(5)] show ?thesis by blast
  qed
  show ?case
  proof (cases "gddVertGetInDegree (vert_at ctx1 i ?k) = 0 \<and> gddVertGetOutDegree (vert_at ctx1 i ?k) = 0")
    case True
    have "touching ?A1 i ?k = {}"
      using True touching_vert [OF r1, of i ?k] cnt Suc.prems(2) key keys by (simp flip: set_map)
    with r1 cnt Suc.prems(2) pos len key1 have "rep (delete_vert ctx1 i pos) ?A1"
      by (intro rep_delete_vert) simp_all
    moreover have "reduce_verts n pos i (delete_vert ctx1 i pos) d1 = (ctx', d')"
      using Suc.prems(4) red True by (simp add: d1_def delete_vert_def vert_pairs_def Let_def)
    moreover have "fst ` set (drop pos (vert_pairs (delete_vert ctx1 i pos) i)) = set (drop pos (map fst ?ps)) - {?k}"
      using cnt Suc.prems(2) pos len keys set_swap_delete(1) [of "map fst ?ps" pos pos] dist
      by (simp add: delete_vert_pairs keys_drop map_swap_delete)
    ultimately show ?thesis
      using cnt Suc.prems(2,3) len
      by (intro step [of "delete_vert ctx1 i pos" pos]) (auto simp: gdd_simps delete_vert_pairs keys_drop)
  next
    case False
    then have "reduce_verts n (Suc pos) i ctx1 d1 = (ctx', d')"
      using Suc.prems(4) red by (auto simp: d1_def vert_pairs_def Let_def)
    then show ?thesis
      using r1 cnt Suc.prems(3) len dropk keys by (intro step [of ctx1 "Suc pos"]) (simp_all add: keys_drop)
  qed
qed

lemma reduce_graphs_rep:
  "rep ctx A \<Longrightarrow> set is \<subseteq> {..<graph_count ctx} \<Longrightarrow> reduce_graphs is ctx d = (ctx', d') \<Longrightarrow>
   \<exists>A'. rep ctx' A' \<and> pruned A A' d d' \<and>
     (A' = A \<longrightarrow> (\<forall>x \<in> A. fst x \<in> set is \<longrightarrow>
        removed A (fst x) (efrom (snd x)) = {} \<and> removed A (fst x) (eto (snd x)) = {}))"
proof (induction "is" arbitrary: ctx A d)
  case Nil
  then show ?case by (auto simp: pruned_def intro!: exI [of _ A])
next
  case (Cons i "is")
  obtain ctx1 d1 where 1: "reduce_verts (length (vert_pairs ctx i)) 0 i ctx d = (ctx1, d1)" by force
  have i: "i < graph_count ctx" using Cons.prems(2) by simp
  from reduce_verts_rep [OF Cons.prems(1) i _ 1] obtain A1 where
    A1: "rep ctx1 A1" "pruned A A1 d d1" "graph_count ctx1 = graph_count ctx"
      "A1 = A \<longrightarrow> (\<forall>k \<in> fst ` set (vert_pairs ctx i). removed A i k = {})" by auto
  have "reduce_graphs is ctx1 d1 = (ctx', d')" using Cons.prems(3) 1 by (simp add: vert_pairs_def)
  from Cons.IH [OF A1(1) _ this] Cons.prems(2) A1(3) obtain A' where
    A': "rep ctx' A'" "pruned A1 A' d1 d'"
      "A' = A1 \<longrightarrow> (\<forall>x \<in> A1. fst x \<in> set is \<longrightarrow>
         removed A1 (fst x) (efrom (snd x)) = {} \<and> removed A1 (fst x) (eto (snd x)) = {})" by auto
  have "removed A (fst x) (efrom (snd x)) = {} \<and> removed A (fst x) (eto (snd x)) = {}"
    if "A' = A" "x \<in> A" "fst x \<in> set (i # is)" for x
  proof -
    have "A1 = A" using that(1) A1(2) A'(2) unfolding pruned_def by blast
    moreover have "edge_ok ctx x" using Cons.prems(1) that(2) by (simp add: rep_def)
    ultimately show ?thesis using A1(4) A'(3) that by (auto simp: edge_ok_def)
  qed
  with A'(1) pruned_trans [OF A1(2) A'(2)] show ?case by blast
qed

lemma reduce_pass_rep:
  assumes "rep ctx A" and "reduce_pass ctx = (ctx', d)"
  shows "\<exists>A'. rep ctx' A' \<and> A' \<subseteq> A \<and> stable_core A' = stable_core A \<and> (d \<longleftrightarrow> A' \<noteq> A) \<and> (A' = A \<longrightarrow> stable A)"
proof -
  have "set [0..<graph_count ctx] \<subseteq> {..<graph_count ctx}" by auto
  moreover have "reduce_graphs [0..<graph_count ctx] ctx False = (ctx', d)"
    using assms(2) by (simp add: reduce_pass_def graph_count_def)
  ultimately obtain A' where A': "rep ctx' A'" "pruned A A' False d"
      "A' = A \<longrightarrow> (\<forall>x \<in> A. fst x \<in> set [0..<graph_count ctx] \<longrightarrow>
        removed A (fst x) (efrom (snd x)) = {} \<and> removed A (fst x) (eto (snd x)) = {})"
    using reduce_graphs_rep [OF assms(1)] by blast
  have "stable A" if "A' = A"
  proof (rule unremovable_stable)
    fix x
    assume "x \<in> A"
    moreover from this assms(1) have "fst x \<in> set [0..<graph_count ctx]" by (auto simp: rep_def edge_ok_def)
    ultimately show "removed A (fst x) (efrom (snd x)) = {} \<and> removed A (fst x) (eto (snd x)) = {}"
      using A'(3) that by blast
  qed
  moreover have "stable_core A' = stable_core A"
  proof
    show "stable_core A' \<subseteq> stable_core A" using A'(2) by (intro core.sub_mono) (simp add: pruned_def)
    show "stable_core A \<subseteq> stable_core A'"
      using A'(2) core.sub_P core.sub_subset unfolding pruned_def by (intro core.sub_greatest) blast+
  qed
  ultimately show ?thesis using A'(1,2) unfolding pruned_def by blast
qed

lemma Reduce_rep: "rep ctx A \<Longrightarrow> \<exists>ctx'. GddCtxReduce ctx = Some ctx' \<and> rep ctx' (stable_core A)"
proof (induction "card A" arbitrary: ctx A rule: less_induct)
  case less
  obtain ctx1 d where 1: "reduce_pass ctx = (ctx1, d)" by force
  from reduce_pass_rep [OF less.prems 1] obtain A' where
    A': "rep ctx1 A'" "A' \<subseteq> A" "stable_core A' = stable_core A" "d \<longleftrightarrow> A' \<noteq> A" "A' = A \<longrightarrow> stable A" by blast
  show ?case
  proof (cases d)
    case True
    with A' less.prems have "card A' < card A" by (auto simp: rep_def intro: psubset_card_mono)
    from less.hyps [OF this A'(1)] True 1 A'(3) show ?thesis by (subst GddCtxReduce.simps) simp
  next
    case False
    with A' have "stable_core A = A" by (intro core.sub_id) simp
    with False 1 A'(1,4) show ?thesis by (subst GddCtxReduce.simps) simp
  qed
qed

section \<open>Building a context\<close>

lemma rep_New: "rep GddCtxNew {}"
  by (simp add: rep_def GddCtxNew_def gddStatInit_def gddMapInit_def graph_count_def)

lemma rep_no_vert:
  assumes "rep ctx A" and "k \<notin> fst ` set (vert_pairs ctx i)"
  shows "{e. (i, e) \<in> A \<and> eto e = k} = {}" and "{e. (i, e) \<in> A \<and> efrom e = k} = {}"
proof -
  have "edge_ok ctx x" if "x \<in> A" for x using assms(1) that by (simp add: rep_def)
  then have "eto e \<noteq> k \<and> efrom e \<noteq> k" if "(i, e) \<in> A" for e
    using assms(2) that by (fastforce simp: edge_ok_def)
  then show "{e. (i, e) \<in> A \<and> eto e = k} = {}" "{e. (i, e) \<in> A \<and> efrom e = k} = {}" by auto
qed

lemma rep_no_global:
  assumes "rep ctx A" and "k \<notin> fst ` set (pairs (globals ctx))"
  shows "in_edges A k = {}" and "out_edges A k = {}"
proof -
  have "edge_ok ctx x" if "x \<in> A" for x using assms(1) that by (simp add: rep_def)
  then have "eto (snd x) \<noteq> k \<and> efrom (snd x) \<noteq> k" if "x \<in> A" for x
    using assms(2) that by (fastforce simp: edge_ok_def)
  then show "in_edges A k = {}" "out_edges A k = {}" unfolding in_edges_def out_edges_def by blast+
qed

lemma rep_GetGraph:
  assumes "rep ctx A" and "gddCtxGetGraph ctx segid = (i, ctx')"
  shows "rep ctx' A" and "i < graph_count ctx'" and "fst (pairs (graphs ctx') ! i) = word_of_int segid"
proof -
  have "rep ctx' A \<and> i < graph_count ctx' \<and> fst (pairs (graphs ctx') ! i) = word_of_int segid"
  proof (cases "gddMapGetPair (graphs ctx) (word_of_int segid)")
    case None
    then have new: "word_of_int segid \<notin> fst ` set (pairs (graphs ctx))" by (rule GetPair_None [THEN iffD1])
    have ctx': "ctx' = ctx\<lparr>graphs := gddMapSetUnsafe (graphs ctx) (word_of_int segid) (gddGraphNew segid)\<rparr>"
      and i: "i = graph_count ctx" using assms(2) None by (auto simp: gddCtxGetGraph_def graph_count_def)
    have cnt: "graph_count ctx' = Suc (graph_count ctx)" by (simp add: ctx' graph_count_def)
    have vp: "vert_pairs ctx' j = (if j < graph_count ctx then vert_pairs ctx j else [])" if "j < graph_count ctx'" for j
      using that by (auto simp: ctx' vert_pairs_def graph_at_def graph_count_def nth_append gddGraphNew_def gddMapInit_def)
    have "edge_ok ctx' x" if "x \<in> A" for x
    proof -
      have "edge_ok ctx x" using assms(1) that by (simp add: rep_def)
      then show ?thesis using vp [of "fst x"] cnt by (simp add: edge_ok_def ctx')
    qed
    moreover have "distinct (map fst (pairs (graphs ctx')))" using assms(1) new by (simp add: rep_def ctx')
    ultimately have "rep ctx' A" using assms(1) vp cnt by (simp add: rep_def ctx')
    then show ?thesis using cnt i by (simp add: ctx' graph_count_def nth_append)
  next
    case (Some j)
    with assms GetPair_Some [OF Some] show ?thesis by (auto simp: gddCtxGetGraph_def graph_count_def)
  qed
  then show "rep ctx' A" "i < graph_count ctx'" "fst (pairs (graphs ctx') ! i) = word_of_int segid" by blast+
qed

lemma GetVert_pairs:
  "pairs (verts (gddGraphGetVert g k)) =
     (if k \<in> fst ` set (pairs (verts g)) then pairs (verts g) else pairs (verts g) @ [(k, gddVertNew k)])"
  using MapGet_None [of "verts g" k]
  by (cases "gddMapGet (verts g) k") (auto simp: gddGraphGetVert_def)

lemma rep_GetVert:
  assumes "rep ctx A" and "i < graph_count ctx"
  shows "rep (graph_write ctx i (\<lambda>g. gddGraphGetVert g k)) A"
proof (cases "k \<in> fst ` set (vert_pairs ctx i)")
  case True
  let ?ctx = "graph_write ctx i (\<lambda>g. gddGraphGetVert g k)"
  have vp: "vert_pairs ?ctx j = vert_pairs ctx j" for j
    using True assms(2) by (simp add: vert_pairs_def graph_at_write GetVert_pairs)
  then show ?thesis using assms(1) by (simp add: rep_def edge_ok_def gdd_simps)
next
  case False
  let ?ctx = "graph_write ctx i (\<lambda>g. gddGraphGetVert g k)"
  have vp: "vert_pairs ?ctx j = (if j = i then vert_pairs ctx i @ [(k, gddVertNew k)] else vert_pairs ctx j)" for j
    using False assms(2) by (simp add: vert_pairs_def graph_at_write GetVert_pairs)
  have "vert_ok A i (k, gddVertNew k)"
    using rep_no_vert [OF assms(1) False] by (simp add: vert_ok_def gddVertNew_def)
  moreover have "edge_ok ?ctx x" if "edge_ok ctx x" for x
    using that by (auto simp: edge_ok_def gdd_simps vp)
  ultimately show ?thesis using assms(1) False by (simp add: rep_def gdd_simps vp)
qed

lemma rep_next_edge: "rep ctx A \<Longrightarrow> rep (ctx\<lparr>next_edge := Suc (next_edge ctx)\<rparr>) A"
  by (auto simp: rep_def edge_ok_def graph_count_def vert_pairs_def graph_at_def less_Suc_eq)

lemma GetGlobalStat_simps [gdd_simps]:
  "graphs (gddCtxGetGlobalStat ctx k) = graphs ctx" "topstat (gddCtxGetGlobalStat ctx k) = topstat ctx"
  "next_edge (gddCtxGetGlobalStat ctx k) = next_edge ctx" "graph_count (gddCtxGetGlobalStat ctx k) = graph_count ctx"
  "vert_pairs (gddCtxGetGlobalStat ctx k) i = vert_pairs ctx i"
  by (simp_all add: gddCtxGetGlobalStat_def graph_count_def vert_pairs_def graph_at_def split: option.split)

lemma GetGlobalStat_keys:
  "fst ` set (pairs (globals (gddCtxGetGlobalStat ctx k))) = insert k (fst ` set (pairs (globals ctx)))"
  using MapGet_None [of "globals ctx" k]
  by (cases "gddMapGet (globals ctx) k") (auto simp: gddCtxGetGlobalStat_def)

lemma rep_GetGlobalStat:
  assumes "rep ctx A"
  shows "rep (gddCtxGetGlobalStat ctx k) A"
proof (cases "gddMapGet (globals ctx) k")
  case None
  then have new: "k \<notin> fst ` set (pairs (globals ctx))" by (rule MapGet_None [THEN iffD1])
  have g: "pairs (globals (gddCtxGetGlobalStat ctx k)) = pairs (globals ctx) @ [(k, gddStatNew k)]"
    using None by (simp add: gddCtxGetGlobalStat_def)
  have "stat_ok A (k, gddStatNew k)"
    using rep_no_global [OF assms new] by (simp add: stat_ok_def gddStatNew_def gddStatInit_def)
  moreover have "edge_ok (gddCtxGetGlobalStat ctx k) x" if "edge_ok ctx x" for x
    using that by (auto simp: edge_ok_def gdd_simps GetGlobalStat_keys)
  ultimately show ?thesis using assms new by (simp add: rep_def gdd_simps g)
qed (use assms in \<open>simp add: gddCtxGetGlobalStat_def\<close>)

lemma link_verts:
  assumes "i < graph_count ctx"
  shows "(k, v) \<in> set (vert_pairs (gddEdgeLink ctx i e) j) \<longleftrightarrow>
    (\<exists>u. (k, u) \<in> set (vert_pairs ctx j) \<and>
       v = u\<lparr>edgesOut := (if j = i \<and> k = efrom e then edgesOut u @ [e] else edgesOut u),
              edgesIn := (if j = i \<and> k = eto e then edgesIn u @ [e] else edgesIn u)\<rparr>)"
proof -
  have "(k, v) \<in> set (vert_pairs (gddEdgeLink ctx i e) j) \<longleftrightarrow>
      (\<exists>w. (\<exists>u. (k, u) \<in> set (vert_pairs ctx j) \<and>
               w = (if j = i \<and> k = efrom e then u\<lparr>edgesOut := edgesOut u @ [e]\<rparr> else u)) \<and>
           v = (if j = i \<and> k = eto e then w\<lparr>edgesIn := edgesIn w @ [e]\<rparr> else w))"
    unfolding gddEdgeLink_def Let_def using assms
    by (subst vert_write_pairs, simp add: gdd_simps, subst vert_write_pairs) (simp_all add: gdd_simps)
  then show ?thesis by (cases "j = i \<and> k = efrom e"; cases "j = i \<and> k = eto e") auto
qed

lemma link_globals:
  "(k, s) \<in> set (pairs (globals (gddEdgeLink ctx i e))) \<longleftrightarrow>
    (\<exists>t. (k, t) \<in> set (pairs (globals ctx)) \<and>
       s = t\<lparr>outdeg := (if k = efrom e then outdeg t + 1 else outdeg t),
              indeg := (if k = eto e then indeg t + 1 else indeg t)\<rparr>)"
proof -
  have "(k, s) \<in> set (pairs (globals (gddEdgeLink ctx i e))) \<longleftrightarrow>
      (\<exists>u. (\<exists>t. (k, t) \<in> set (pairs (globals ctx)) \<and>
              u = (if k = efrom e then t\<lparr>outdeg := outdeg t + 1\<rparr> else t)) \<and>
           s = (if k = eto e then u\<lparr>indeg := indeg u + 1\<rparr> else u))"
    by (simp only: gddEdgeLink_def Let_def gdd_simps global_write_pairs)
  then show ?thesis by (cases "k = efrom e"; cases "k = eto e") auto
qed

lemma link_topstat:
  "indeg (topstat (gddEdgeLink ctx i e)) = indeg (topstat ctx) + 1"
  "outdeg (topstat (gddEdgeLink ctx i e)) = outdeg (topstat ctx) + 1"
  by (simp_all add: gddEdgeLink_def Let_def gdd_simps)

lemma link_shape:
  assumes "i < graph_count ctx"
  shows "same_shape ctx (gddEdgeLink ctx i e)"
proof -
  let ?t = "(topstat ctx)\<lparr>outdeg := outdeg (topstat ctx) + 1\<rparr>"
  define ctx2 where "ctx2 = ctx\<lparr>topstat := ?t\<lparr>indeg := indeg ?t + 1\<rparr>\<rparr>"
  define ctx4 where "ctx4 = global_write (global_write ctx2 (efrom e) (\<lambda>g. g\<lparr>outdeg := outdeg g + 1\<rparr>))
    (eto e) (\<lambda>g. g\<lparr>indeg := indeg g + 1\<rparr>)"
  define ctx5 where "ctx5 = vert_write ctx4 i (efrom e) (\<lambda>v. v\<lparr>edgesOut := edgesOut v @ [e]\<rparr>)"
  have "same_shape ctx ctx2" unfolding ctx2_def by (rule topstat_shape)
  moreover have "same_shape ctx2 ctx4"
    unfolding ctx4_def by (rule same_shape_trans [OF global_write_shape global_write_shape])
  ultimately have 4: "same_shape ctx ctx4" by (rule same_shape_trans)
  then have "i < graph_count ctx4" using assms by (simp add: same_shape_count)
  then have "same_shape ctx4 ctx5" unfolding ctx5_def by (rule vert_write_shape)
  with 4 have 5: "same_shape ctx ctx5" by (rule same_shape_trans)
  then have "i < graph_count ctx5" using assms by (simp add: same_shape_count)
  from same_shape_trans [OF 5 vert_write_shape [OF this]] show ?thesis
    by (simp add: gddEdgeLink_def Let_def ctx2_def ctx4_def ctx5_def)
qed

lemma card_in_edges_insert:
  assumes "finite A" and "x \<notin> A"
  shows "int (card (in_edges (insert x A) k)) = int (card (in_edges A k)) + (if eto (snd x) = k then 1 else 0)"
    and "int (card (out_edges (insert x A) k)) = int (card (out_edges A k)) + (if efrom (snd x) = k then 1 else 0)"
proof -
  have "insert x A - {x} = A" using assms(2) by simp
  then show "int (card (in_edges (insert x A) k)) = int (card (in_edges A k)) + (if eto (snd x) = k then 1 else 0)"
    and "int (card (out_edges (insert x A) k)) = int (card (out_edges A k)) + (if efrom (snd x) = k then 1 else 0)"
    using card_in_edges_remove [of "insert x A" x k] assms(1) by simp_all
qed

lemma rep_link:
  assumes "rep ctx A" and "(i, e) \<notin> A" and "edge_ok ctx (i, e)"
  shows "rep (gddEdgeLink ctx i e) (insert (i, e) A)"
proof -
  let ?ctx = "gddEdgeLink ctx i e" and ?A = "insert (i, e) A"
  have fin: "finite A" and i: "i < graph_count ctx" using assms by (auto simp: rep_def edge_ok_def)
  note shape = link_shape [OF i, of e]
  have verts: "vert_ok ?A j (k, v)" if j: "j < graph_count ctx" and "(k, v) \<in> set (vert_pairs ?ctx j)" for j k v
  proof -
    from that(2) obtain u where u: "(k, u) \<in> set (vert_pairs ctx j)"
      "v = u\<lparr>edgesOut := (if j = i \<and> k = efrom e then edgesOut u @ [e] else edgesOut u),
              edgesIn := (if j = i \<and> k = eto e then edgesIn u @ [e] else edgesIn u)\<rparr>"
      unfolding link_verts [OF i] by blast
    from u(1) j assms(1) have "vert_ok A j (k, u)" by (auto simp: rep_def)
    with u(2) assms(2) show ?thesis by (auto simp: vert_ok_def)
  qed
  have stats: "stat_ok ?A (k, s)" if "(k, s) \<in> set (pairs (globals ?ctx))" for k s
  proof -
    from that obtain t where t: "(k, t) \<in> set (pairs (globals ctx))"
      "s = t\<lparr>outdeg := (if k = efrom e then outdeg t + 1 else outdeg t),
              indeg := (if k = eto e then indeg t + 1 else indeg t)\<rparr>"
      unfolding link_globals by blast
    from t(1) assms(1) have "stat_ok A (k, t)" by (auto simp: rep_def)
    with t(2) show ?thesis by (simp add: stat_ok_def card_in_edges_insert [OF fin assms(2)])
  qed
  from assms fin verts stats shape same_shape_count [OF shape] same_shape_edge_ok [OF shape] show ?thesis
    by (auto simp: rep_def link_topstat same_shape_def)
qed

lemma GetVert_keys:
  "i < graph_count ctx \<Longrightarrow>
   fst ` set (vert_pairs (graph_write ctx i (\<lambda>g. gddGraphGetVert g k)) i) = insert k (fst ` set (vert_pairs ctx i))"
  by (auto simp: vert_pairs_def graph_at_write GetVert_pairs)

lemma graph_write_graph_write:
  "i < graph_count ctx \<Longrightarrow> graph_write (graph_write ctx i f) i g = graph_write ctx i (\<lambda>x. g (f x))"
  by (simp add: graph_write_def graph_count_def)

lemma AddEdge_rep:
  assumes "rep ctx A" and "GddCtxAddEdge ctx segid u v s = (e, ctx')"
  shows "\<exists>i. rep ctx' (insert (i, e) A) \<and> (i, e) \<notin> A \<and> efrom e = u \<and> eto e = v \<and> solid e = s \<and>
    fst (pairs (graphs ctx') ! i) = word_of_int segid \<and>
    take (graph_count ctx) (map fst (pairs (graphs ctx'))) = map fst (pairs (graphs ctx))"
proof -
  obtain i ctx1 where 1: "gddCtxGetGraph ctx segid = (i, ctx1)" by force
  note G = rep_GetGraph [OF assms(1) 1]
  define c2 where "c2 = graph_write ctx1 i (\<lambda>g. gddGraphGetVert g u)"
  define c3 where "c3 = graph_write c2 i (\<lambda>g. gddGraphGetVert g v)"
  define c4 where "c4 = c3\<lparr>next_edge := Suc (next_edge c3)\<rparr>"
  define c6 where "c6 = gddCtxGetGlobalStat (gddCtxGetGlobalStat c4 u) v"
  have i: "i < graph_count c2" "i < graph_count c3" using G(2) by (simp_all add: c2_def c3_def gdd_simps)
  have "rep c2 A" unfolding c2_def by (rule rep_GetVert [OF G(1,2)])
  then have r3: "rep c3 A" unfolding c3_def using i(1) by (rule rep_GetVert)
  then have "rep c4 A" unfolding c4_def by (rule rep_next_edge)
  then have r6: "rep c6 A" unfolding c6_def by (intro rep_GetGlobalStat)
  have c3: "c3 = graph_write ctx1 i (\<lambda>g. gddGraphGetVert (gddGraphGetVert g u) v)"
    unfolding c3_def c2_def by (rule graph_write_graph_write [OF G(2)])
  have e: "e = gddEdgeNew (next_edge c3) u v s" and ctx': "ctx' = gddEdgeLink c6 i e"
    using assms(2) 1 by (auto simp: GddCtxAddEdge_def gddGraphMakeEdge_def Let_def c3 [symmetric] c4_def c6_def)
  have ce: "efrom e = u" "eto e = v" "solid e = s" "eid e = next_edge c3" by (simp_all add: e gddEdgeNew_def)
  have c4p: "vert_pairs c4 i = vert_pairs c3 i" "graph_count c4 = graph_count c3" "graphs c4 = graphs c3"
    by (simp_all add: c4_def vert_pairs_def graph_at_def graph_count_def)
  have keys: "{u, v} \<subseteq> fst ` set (vert_pairs c3 i)"
    using GetVert_keys [OF i(1), of v] GetVert_keys [OF G(2), of u] by (simp add: c3_def c2_def)
  have "edge_ok c6 (i, e)"
    using i(2) keys by (simp add: edge_ok_def ce c6_def gdd_simps GetGlobalStat_keys c4p) (simp add: c4_def)
  moreover have new: "(i, e) \<notin> A"
  proof
    assume "(i, e) \<in> A"
    with r3 have "eid e < next_edge c3" by (auto simp: rep_def edge_ok_def)
    with ce show False by simp
  qed
  ultimately have "rep ctx' (insert (i, e) A)" unfolding ctx' using r6 by (intro rep_link)
  moreover have keys': "map fst (pairs (graphs ctx')) = map fst (pairs (graphs ctx1))"
    using link_shape [of i c6 e] i(2)
    by (simp add: ctx' same_shape_def c6_def gdd_simps c4p) (simp add: c3 gdd_simps)
  then have "fst (pairs (graphs ctx') ! i) = word_of_int segid"
    using G(2,3) by (metis graph_count_def length_map nth_map)
  moreover have "take (graph_count ctx) (map fst (pairs (graphs ctx'))) = map fst (pairs (graphs ctx))"
    using 1 unfolding keys' by (auto simp: gddCtxGetGraph_def graph_count_def split: option.splits)
  ultimately show ?thesis using new ce by blast
qed

end
