(* ===== verification/GddBreak.thy ===== *)
theory GddBreak
  imports GddReduce
begin

text \<open>
  Breaking deadlocks: removing a transaction from every graph, choosing the youngest one, the loop
  that repeats both until no edge is left, and the contexts that the detector can reach.
\<close>

section \<open>Removing a transaction\<close>

definition without :: "edges \<Rightarrow> DistributedTransactionId set \<Rightarrow> edges" where
  "without A V = {x \<in> A. efrom (snd x) \<notin> V \<and> eto (snd x) \<notin> V}"

definition endpoints :: "edges \<Rightarrow> DistributedTransactionId set" where
  "endpoints A = (\<lambda>x. efrom (snd x)) ` A \<union> (\<lambda>x. eto (snd x)) ` A"

lemma without_mono: "A \<subseteq> B \<Longrightarrow> without A V \<subseteq> without B V"
  by (auto simp: without_def)

lemma without_without: "without (without A V) W = without A (V \<union> W)"
  by (auto simp: without_def)

lemma endpoints_mono: "A \<subseteq> B \<Longrightarrow> endpoints A \<subseteq> endpoints B"
  by (auto simp: endpoints_def)

lemma endpoints_without: "endpoints (without A V) \<inter> V = {}"
  by (auto simp: endpoints_def without_def)

lemma without_less: "k \<in> endpoints A \<Longrightarrow> without A {k} \<subset> A"
  by (auto simp: endpoints_def without_def)

lemma rep_vert_ids:
  assumes "rep ctx A" and "i < graph_count ctx"
  shows "map (\<lambda>p. vert_id (snd p)) (vert_pairs ctx i) = map fst (vert_pairs ctx i)"
proof (rule map_cong [OF refl])
  fix p assume "p \<in> set (vert_pairs ctx i)"
  with assms have "vert_ok A i p" by (simp add: rep_def)
  then show "vert_id (snd p) = fst p" by (simp add: vert_ok_def)
qed

lemma pair_scan_keys: "map fst ps = map fst qs \<Longrightarrow> pair_scan ps k i = pair_scan qs k i"
proof (induction ps arbitrary: qs i)
  case (Cons p ps)
  then show ?case by (cases qs) auto
qed simp

lemma GraphRemoveVid_rep:
  assumes "rep ctx A" and "i < graph_count ctx"
  shows "rep (gddGraphRemoveVid ctx i k) (A - touching A i k)"
    and "graph_count (gddGraphRemoveVid ctx i k) = graph_count ctx"
proof -
  let ?vs = "verts (graph_at ctx i)"
  have "map fst (map (\<lambda>(_, vert). (vert_id vert, vert)) (pairs ?vs)) = map fst (pairs ?vs)"
    using rep_vert_ids [OF assms] by (simp add: vert_pairs_def comp_def case_prod_beta)
  then have scan: "pair_scan (map (\<lambda>(_, vert). (vert_id vert, vert)) (pairs ?vs)) k 0 = gddMapGetPair ?vs k"
    unfolding gddMapGetPair_def by (rule pair_scan_keys)
  have "rep (gddGraphRemoveVid ctx i k) (A - touching A i k) \<and> graph_count (gddGraphRemoveVid ctx i k) = graph_count ctx"
  proof (cases "gddMapGetPair ?vs k")
    case None
    then have "k \<notin> fst ` set (vert_pairs ctx i)" by (simp add: GetPair_None vert_pairs_def)
    moreover have "edge_ok ctx x" if "x \<in> A" for x using assms(1) that by (simp add: rep_def)
    ultimately have "touching A i k = {}" unfolding touching_def edge_ok_def by blast
    with None assms(1) show ?thesis by (simp add: gddGraphRemoveVid_def scan)
  next
    case (Some pos)
    then have pos: "pos < length (vert_pairs ctx i)" "fst (vert_pairs ctx i ! pos) = k"
      by (auto dest: GetPair_Some simp: vert_pairs_def)
    then have "k \<in> fst ` set (vert_pairs ctx i)" by auto
    note U = UnlinkAll_rep [OF assms this]
    let ?ctx1 = "fst (gddVertUnlinkAll ctx i k)"
    have i1: "i < graph_count ?ctx1" using U(2) assms(2) by (simp add: same_shape_count)
    have keys: "map fst (vert_pairs ?ctx1 i) = map fst (vert_pairs ctx i)"
      using U(2) assms(2) by (simp add: same_shape_def)
    then have len: "length (vert_pairs ?ctx1 i) = length (vert_pairs ctx i)" by (metis length_map)
    with keys pos have "fst (vert_pairs ?ctx1 i ! pos) = k" by (metis nth_map)
    moreover have "touching (A - touching A i k) i k = {}" by (auto simp: touching_def)
    ultimately have "rep (delete_vert ?ctx1 i pos) (A - touching A i k)"
      using U(1) i1 pos(1) len by (intro rep_delete_vert) simp_all
    with Some U(2) show ?thesis
      by (simp add: gddGraphRemoveVid_def scan Let_def flip: delete_vert_def) (simp add: gdd_simps same_shape_count)
  qed
  then show "rep (gddGraphRemoveVid ctx i k) (A - touching A i k)"
    and "graph_count (gddGraphRemoveVid ctx i k) = graph_count ctx" by blast+
qed

lemma fold_RemoveVid_rep:
  "rep ctx A \<Longrightarrow> \<forall>i \<in> set is. i < graph_count ctx \<Longrightarrow>
   rep (fold (\<lambda>i c. gddGraphRemoveVid c i k) is ctx) (A - (\<Union>i \<in> set is. touching A i k))"
proof (induction "is" arbitrary: ctx A)
  case (Cons i js)
  have i: "i < graph_count ctx" using Cons.prems(2) by simp
  note R = GraphRemoveVid_rep [OF Cons.prems(1) i, of k]
  have "A - touching A i k - (\<Union>j \<in> set js. touching (A - touching A i k) j k) =
      A - (\<Union>j \<in> set (i # js). touching A j k)"
    by (auto simp: touching_def)
  with Cons.IH [OF R(1)] Cons.prems(2) R(2) show ?case by simp
qed simp

lemma RemoveVid_rep:
  assumes "rep ctx A"
  shows "rep (gddCtxRemoveVid ctx k) (without A {k})"
proof -
  have "edge_ok ctx x" if "x \<in> A" for x using assms that by (simp add: rep_def)
  then have "A - (\<Union>i \<in> set [0..<graph_count ctx]. touching A i k) = without A {k}"
    by (auto simp: touching_def without_def edge_ok_def)
  with fold_RemoveVid_rep [OF assms, of "[0..<graph_count ctx]" k] show ?thesis
    by (simp add: gddCtxRemoveVid_def graph_count_def)
qed

section \<open>The youngest transaction\<close>

lemma max_vert_foldl:
  "m \<le> foldl max_vert m vs" (is ?above)
  "v \<in> set vs \<Longrightarrow> gddVertGetInDegree v \<noteq> 0 \<or> gddVertGetOutDegree v \<noteq> 0 \<Longrightarrow> vert_id v \<le> foldl max_vert m vs"
  "foldl max_vert m vs = m \<or>
   (\<exists>v \<in> set vs. (gddVertGetInDegree v \<noteq> 0 \<or> gddVertGetOutDegree v \<noteq> 0) \<and> foldl max_vert m vs = vert_id v)"
proof -
  have above: "m \<le> foldl max_vert m vs" for m vs
  proof (induction vs arbitrary: m)
    case (Cons v vs)
    have "m \<le> max_vert m v" by (simp add: max_vert_def)
    also have "\<dots> \<le> foldl max_vert (max_vert m v) vs" by (rule Cons.IH)
    finally show ?case by simp
  qed simp
  then show ?above .
  show "vert_id v \<le> foldl max_vert m vs"
    if "v \<in> set vs" "gddVertGetInDegree v \<noteq> 0 \<or> gddVertGetOutDegree v \<noteq> 0"
    using that
  proof (induction vs arbitrary: m)
    case (Cons u vs)
    show ?case
    proof (cases "v = u")
      case True
      then have "vert_id v \<le> max_vert m u" using Cons.prems by (auto simp: max_vert_def)
      also have "\<dots> \<le> foldl max_vert (max_vert m u) vs" by (rule above)
      finally show ?thesis by simp
    qed (use Cons in simp)
  qed simp
  show "foldl max_vert m vs = m \<or>
    (\<exists>v \<in> set vs. (gddVertGetInDegree v \<noteq> 0 \<or> gddVertGetOutDegree v \<noteq> 0) \<and> foldl max_vert m vs = vert_id v)"
  proof (induction vs arbitrary: m)
    case (Cons u vs)
    have "max_vert m u = m \<or> (gddVertGetInDegree u \<noteq> 0 \<or> gddVertGetOutDegree u \<noteq> 0) \<and> max_vert m u = vert_id u"
      by (auto simp: max_vert_def max_def)
    with Cons.IH [of "max_vert m u"] show ?case by auto
  qed simp
qed

lemma set_all_verts: "v \<in> set (all_verts ctx) \<longleftrightarrow> (\<exists>i < graph_count ctx. v \<in> snd ` set (vert_pairs ctx i))"
proof -
  have "set (all_verts ctx) = (\<Union>p \<in> set (pairs (graphs ctx)). snd ` set (pairs (verts (snd p))))"
    by (simp add: all_verts_def case_prod_beta)
  then show ?thesis
    unfolding vert_pairs_def graph_at_def graph_count_def set_conv_nth [of "pairs (graphs ctx)"] by blast
qed

lemma rep_endpoints:
  assumes "rep ctx A"
  shows "k \<in> endpoints A \<longleftrightarrow>
    (\<exists>v \<in> set (all_verts ctx). (gddVertGetInDegree v \<noteq> 0 \<or> gddVertGetOutDegree v \<noteq> 0) \<and> vert_id v = k)"
    (is "_ \<longleftrightarrow> ?rhs")
proof
  assume "k \<in> endpoints A"
  then obtain i e where e: "(i, e) \<in> A" "efrom e = k \<or> eto e = k" by (auto simp: endpoints_def)
  with assms have "edge_ok ctx (i, e)" by (simp add: rep_def)
  with e(2) have i: "i < graph_count ctx" and "k \<in> fst ` set (vert_pairs ctx i)" by (auto simp: edge_ok_def)
  then obtain v where v: "(k, v) \<in> set (vert_pairs ctx i)" by auto
  with assms i have "vert_ok A i (k, v)" by (auto simp: rep_def)
  with e have "(e \<in> set (edgesIn v) \<or> e \<in> set (edgesOut v)) \<and> vert_id v = k" by (auto simp: vert_ok_def)
  moreover have "v \<in> set (all_verts ctx)" unfolding set_all_verts using i v by force
  ultimately show ?rhs
    by (intro bexI [of _ v]) (auto simp: gddVertGetInDegree_def gddVertGetOutDegree_def)
next
  assume ?rhs
  then obtain v where v: "v \<in> set (all_verts ctx)" "edgesIn v \<noteq> [] \<or> edgesOut v \<noteq> []" "vert_id v = k"
    by (auto simp: gddVertGetInDegree_def gddVertGetOutDegree_def)
  then obtain i l where i: "i < graph_count ctx" "(l, v) \<in> set (vert_pairs ctx i)" by (auto simp: set_all_verts)
  with assms have ok: "vert_ok A i (l, v)" by (auto simp: rep_def)
  from v(2) obtain e where "e \<in> set (edgesIn v) \<or> e \<in> set (edgesOut v)" by (metis list.set_sel(1))
  with ok v(3) have "(i, e) \<in> A \<and> (eto e = k \<or> efrom e = k)" by (auto simp: vert_ok_def)
  then show "k \<in> endpoints A" by (force simp: endpoints_def)
qed

lemma max_endpoint:
  assumes "rep ctx A" and "A \<noteq> {}"
  shows "foldl max_vert 0 (all_verts ctx) \<in> endpoints A"
    and "k \<in> endpoints A \<Longrightarrow> k \<le> foldl max_vert 0 (all_verts ctx)"
proof -
  let ?m = "foldl max_vert 0 (all_verts ctx)"
  show le: "k \<le> ?m" if "k \<in> endpoints A" for k
    using that max_vert_foldl(2) [of _ "all_verts ctx" 0] unfolding rep_endpoints [OF assms(1)] by blast
  from assms(2) obtain k where k: "k \<in> endpoints A" by (auto simp: endpoints_def)
  from max_vert_foldl(3) [of 0 "all_verts ctx"] show "?m \<in> endpoints A"
  proof
    assume "?m = 0"
    with le [OF k] k show ?thesis by simp
  next
    assume "\<exists>v \<in> set (all_verts ctx). (gddVertGetInDegree v \<noteq> 0 \<or> gddVertGetOutDegree v \<noteq> 0) \<and> ?m = vert_id v"
    then show ?thesis unfolding rep_endpoints [OF assms(1)] by metis
  qed
qed

lemma int_roundtrip:
  fixes m :: uint64
  assumes "m < 2 ^ 31"
  shows "scast (ucast m :: uint32) = m"
proof (rule bit_word_eqI)
  fix n assume n: "n < LENGTH(64)"
  have "unat m < 2 ^ 31" using assms by (simp add: word_less_nat_alt)
  then have "take_bit 31 m = m" by (simp add: word_unat_eq_iff unsigned_take_bit_eq take_bit_nat_eq_self)
  then have high: "\<not> bit m j" if "31 \<le> j" for j
    using that bit_take_bit_iff [of 31 m j] by simp
  show "bit (scast (ucast m :: uint32) :: uint64) n = bit m n"
    using n high [of n] high [of 31] by (auto simp: bit_signed_iff bit_unsigned_iff min_def)
qed

section \<open>The loop that picks the transactions to cancel\<close>

lemma rep_Empty: "rep ctx A \<Longrightarrow> GddCtxEmpty ctx \<longleftrightarrow> A = {}"
  by (auto simp: GddCtxEmpty_def rep_def)

lemma core_without:
  assumes "stable_core (without (stable_core (without A V)) W) = {}"
  shows "stable_core (without A (V \<union> W)) = {}"
proof -
  let ?C = "stable_core (without A (V \<union> W))"
  have C: "?C \<subseteq> without A (V \<union> W)" by (rule core.sub_subset)
  then have "?C \<subseteq> without A V" by (auto simp: without_def)
  then have "?C \<subseteq> stable_core (without A V)" by (rule core.sub_greatest [OF core.sub_P])
  with C have "?C \<subseteq> without (stable_core (without A V)) W" by (auto simp: without_def)
  then have "?C \<subseteq> stable_core (without (stable_core (without A V)) W)" by (rule core.sub_greatest [OF core.sub_P])
  with assms show ?thesis by simp
qed

text \<open>What the victims \<open>vs\<close> are for the edges \<open>A\<close>.\<close>

definition breaks :: "edges \<Rightarrow> DistributedTransactionId list \<Rightarrow> bool" where
  "breaks A vs \<longleftrightarrow>
     sorted_wrt (>) vs \<and> set vs \<subseteq> endpoints A \<and> stable_core (without A (set vs)) = {} \<and>
     (A \<noteq> {} \<longrightarrow> vs \<noteq> [] \<and> hd vs \<in> endpoints A \<and> (\<forall>k \<in> endpoints A. k \<le> hd vs))"

lemma breaks_empty: "breaks {} []"
proof -
  have "stable_core (without {} {}) \<subseteq> {}" using core.sub_subset [of "without {} {}"] by (simp add: without_def)
  then show ?thesis by (simp add: breaks_def endpoints_def)
qed

lemma breaks_step:
  assumes "m \<in> endpoints A" and "\<forall>k \<in> endpoints A. k \<le> m" and "breaks (stable_core (without A {m})) vs"
  shows "breaks A (m # vs)"
proof -
  have "stable_core (without A {m}) \<subseteq> without A {m}" by (rule core.sub_subset)
  then have "endpoints (stable_core (without A {m})) \<subseteq> endpoints (without A {m})" by (rule endpoints_mono)
  then have vs: "set vs \<subseteq> endpoints (without A {m})" using assms(3) by (auto simp: breaks_def)
  moreover have "endpoints (without A {m}) \<subseteq> endpoints A - {m}"
    using endpoints_mono [of "without A {m}" A] endpoints_without [of A "{m}"] by (auto simp: without_def)
  ultimately have "set vs \<subseteq> endpoints A - {m}" by blast
  then have "\<forall>k \<in> set vs. k < m" using assms(2) by (auto simp: order.strict_iff_order)
  moreover have "stable_core (without A ({m} \<union> set vs)) = {}"
    using assms(3) by (intro core_without) (simp add: breaks_def)
  ultimately show ?thesis
    using assms \<open>set vs \<subseteq> endpoints A - {m}\<close> by (auto simp: breaks_def)
qed

lemma break_loop_rep:
  assumes "rep ctx A" and "\<forall>k \<in> endpoints A. k < 2 ^ 31"
  shows "\<exists>ctx' vs. break_loop ctx vids = Some (ctx', vids @ vs) \<and> rep ctx' {} \<and> breaks A vs"
  using assms
proof (induction "card A" arbitrary: ctx A vids rule: less_induct)
  case less
  show ?case
  proof (cases "A = {}")
    case True
    with less.prems(1) have "break_loop ctx vids = Some (ctx, vids @ [])"
      by (simp add: break_loop.simps rep_Empty)
    with less.prems(1) True breaks_empty show ?thesis by blast
  next
    case False
    define m where "m = foldl max_vert 0 (all_verts ctx)"
    have m: "m \<in> endpoints A" "\<forall>k \<in> endpoints A. k \<le> m"
      using max_endpoint [OF less.prems(1) False] by (auto simp: m_def)
    then have "m < 2 ^ 31" using less.prems(2) by blast
    then have max: "scast (gddCtxGetMaxVid ctx) = m" by (simp add: gddCtxGetMaxVid_def int_roundtrip flip: m_def)
    let ?A1 = "stable_core (without A {m})"
    obtain ctx1 where 1: "GddCtxReduce (gddCtxRemoveVid ctx m) = Some ctx1" "rep ctx1 ?A1"
      using Reduce_rep [OF RemoveVid_rep [OF less.prems(1)]] by blast
    have step: "break_loop ctx vids = break_loop ctx1 (vids @ [m])"
      using False less.prems(1) by (subst break_loop.simps) (simp add: rep_Empty max 1(1))
    have sub: "?A1 \<subseteq> without A {m}" by (rule core.sub_subset)
    with without_less [OF m(1)] have "?A1 \<subset> A" by blast
    moreover have "finite A" using less.prems(1) by (simp add: rep_def)
    ultimately have "card ?A1 < card A" by (simp add: psubset_card_mono)
    moreover have "\<forall>k \<in> endpoints ?A1. k < 2 ^ 31"
      using endpoints_mono [of ?A1 A] \<open>?A1 \<subset> A\<close> less.prems(2) by blast
    ultimately obtain ctx' vs where
      "break_loop ctx1 (vids @ [m]) = Some (ctx', (vids @ [m]) @ vs)" "rep ctx' {}" "breaks ?A1 vs"
      using less.hyps [OF _ 1(2)] by blast
    with step breaks_step [OF m] have
      "break_loop ctx vids = Some (ctx', vids @ (m # vs)) \<and> rep ctx' {} \<and> breaks A (m # vs)"
      by simp
    then show ?thesis by blast
  qed
qed

section \<open>Transaction ids that do not fit an \<^verbatim>\<open>int\<close>\<close>

lemma int_sign_extends:
  fixes m k :: uint64
  assumes "2 ^ 31 \<le> m" and "m < 2 ^ 32" and "k < 2 ^ 32"
  shows "scast (ucast m :: uint32) \<noteq> k"
proof -
  have m: "2 ^ 31 \<le> unat m" "unat m < 2 ^ 32" and k: "unat k < 2 ^ 32"
    using assms by (simp_all add: word_less_nat_alt word_le_nat_alt)
  then have "unat m div 2 ^ 31 = 1" by simp
  then have "bit (unat m) 31" by (simp add: bit_iff_odd)
  then have "bit m 31" by (simp add: bit_unsigned_iff)
  then have high: "bit (scast (ucast m :: uint32) :: uint64) 63" by (simp add: bit_signed_iff bit_unsigned_iff)
  have "take_bit 32 k = k" using k by (simp add: word_unat_eq_iff unsigned_take_bit_eq take_bit_nat_eq_self)
  then have "\<not> bit k 63" using bit_take_bit_iff [of 32 k 63] by simp
  with high show ?thesis by blast
qed

lemma break_loop_diverges:
  assumes "rep ctx A" and "stable A" and "A \<noteq> {}" and "\<forall>k \<in> endpoints A. 2 ^ 31 \<le> k \<and> k < 2 ^ 32"
  shows "break_loop ctx vids = None"
proof (rule ccontr)
  have step: "\<not> rep ctx A"
    if IH: "\<And>ctx vids r. f ctx vids = Some r \<Longrightarrow> \<not> rep ctx A"
      and body: "(if GddCtxEmpty ctx then Some (ctx, vids)
        else let maxvid = scast (gddCtxGetMaxVid ctx)
          in Option.bind (GddCtxReduce (gddCtxRemoveVid ctx maxvid)) (\<lambda>ctx1. f ctx1 (vids @ [maxvid]))) = Some r"
    for f ctx vids r
  proof
    assume r: "rep ctx A"
    define m where "m = foldl max_vert 0 (all_verts ctx)"
    define k :: uint64 where "k = scast (gddCtxGetMaxVid ctx)"
    have m: "m \<in> endpoints A" using max_endpoint [OF r assms(3)] by (simp add: m_def)
    have "k \<notin> endpoints A"
      using int_sign_extends [of m] m assms(4) by (force simp: k_def gddCtxGetMaxVid_def simp flip: m_def)
    then have "without A {k} = A" by (auto simp: without_def endpoints_def)
    with RemoveVid_rep [OF r, of k] have "rep (gddCtxRemoveVid ctx k) A" by simp
    from Reduce_rep [OF this] obtain ctx1 where 1:
      "GddCtxReduce (gddCtxRemoveVid ctx k) = Some ctx1" "rep ctx1 A"
      using core.sub_id [OF assms(2)] by auto
    from 1(1) body have "f ctx1 (vids @ [k]) = Some r"
      using rep_Empty [OF r] assms(3) by (simp add: Let_def flip: k_def)
    with IH 1(2) show False by blast
  qed
  assume "break_loop ctx vids \<noteq> None"
  then obtain r where "break_loop ctx vids = Some r" by blast
  then have "\<not> rep ctx A"
    by (rule break_loop.raw_induct [of "\<lambda>ctx _ _. \<not> rep ctx A", rotated]) (rule step, assumption, assumption)
  with assms(1) show False by blast
qed

section \<open>Reachable contexts\<close>

text \<open>The contexts that the calls of the detector's interface produce.\<close>

inductive gdd_reachable :: "GddCtx \<Rightarrow> bool" where
  reach_New: "gdd_reachable GddCtxNew"
| reach_AddEdge: "gdd_reachable ctx \<Longrightarrow> GddCtxAddEdge ctx segid vfrom vto s = (e, ctx') \<Longrightarrow> gdd_reachable ctx'"
| reach_Reduce: "gdd_reachable ctx \<Longrightarrow> GddCtxReduce ctx = Some ctx' \<Longrightarrow> gdd_reachable ctx'"
| reach_RemoveVid: "gdd_reachable ctx \<Longrightarrow> gdd_reachable (gddCtxRemoveVid ctx vid)"

definition ctx_edges :: "GddCtx \<Rightarrow> edges" where
  "ctx_edges ctx = {(i, e). i < graph_count ctx \<and> (\<exists>p \<in> set (vert_pairs ctx i). e \<in> set (edgesOut (snd p)))}"

lemma rep_ctx_edges: "rep ctx A \<Longrightarrow> ctx_edges ctx = A"
proof -
  assume r: "rep ctx A"
  have ok: "vert_ok A i p" if "i < graph_count ctx" "p \<in> set (vert_pairs ctx i)" for i p
    using r that by (simp add: rep_def)
  have "(i, e) \<in> ctx_edges ctx \<longleftrightarrow> (i, e) \<in> A" for i e
  proof
    assume "(i, e) \<in> ctx_edges ctx"
    then obtain p where "i < graph_count ctx" "p \<in> set (vert_pairs ctx i)" "e \<in> set (edgesOut (snd p))"
      by (auto simp: ctx_edges_def)
    with ok [of i p] show "(i, e) \<in> A" by (auto simp: vert_ok_def)
  next
    assume A: "(i, e) \<in> A"
    with r have "edge_ok ctx (i, e)" by (simp add: rep_def)
    then obtain p where p: "i < graph_count ctx" "p \<in> set (vert_pairs ctx i)" "fst p = efrom e"
      by (auto simp: edge_ok_def)
    with ok [of i p] A have "e \<in> set (edgesOut (snd p))" by (simp add: vert_ok_def)
    with p show "(i, e) \<in> ctx_edges ctx" by (auto simp: ctx_edges_def)
  qed
  then show ?thesis by auto
qed

lemma reachable_rep: "gdd_reachable ctx \<Longrightarrow> rep ctx (ctx_edges ctx)"
proof (induction rule: gdd_reachable.induct)
  case reach_New
  then show ?case using rep_New rep_ctx_edges [OF rep_New] by simp
next
  case (reach_AddEdge ctx segid vfrom vto s e ctx')
  from AddEdge_rep [OF reach_AddEdge.IH reach_AddEdge.hyps(2)] obtain i where
    "rep ctx' (insert (i, e) (ctx_edges ctx))" by blast
  with rep_ctx_edges [OF this] show ?case by simp
next
  case (reach_Reduce ctx ctx')
  with Reduce_rep [OF reach_Reduce.IH] have "rep ctx' (stable_core (ctx_edges ctx))" by auto
  with rep_ctx_edges [OF this] show ?case by simp
next
  case (reach_RemoveVid ctx vid)
  from RemoveVid_rep [OF this(2), of vid] show ?case using rep_ctx_edges by metis
qed

text \<open>A context with the two waits of a deadlock between the transactions 5 and 7 on two segments.\<close>

definition deadlock57 :: GddCtx where
  "deadlock57 = snd (GddCtxAddEdge (snd (GddCtxAddEdge GddCtxNew 0 5 7 True)) 1 7 5 True)"

lemma deadlock57_reachable: "gdd_reachable deadlock57"
proof -
  obtain e ctx where 1: "GddCtxAddEdge GddCtxNew 0 5 7 True = (e, ctx)" by force
  then have "gdd_reachable ctx" by (rule reach_AddEdge [OF reach_New])
  then show ?thesis using reach_AddEdge [of ctx] 1 unfolding deadlock57_def by (metis prod.collapse snd_conv)
qed

text \<open>
  C14: in every context that the detector's operations can produce, the bookkeeping is exact: keys are
  unique, each edge is in the out list of its origin and the in list of its target exactly once, and
  the in and out degrees of every transaction over all segments, and of the whole context, count
  those edges.
\<close>

theorem gdd_bookkeeping_exact:
  "gdd_reachable ctx \<Longrightarrow> rep ctx (ctx_edges ctx)"
  by (rule reachable_rep)

theorem gdd_bookkeeping_exact_witness: "rep deadlock57 (ctx_edges deadlock57)"
  by (rule gdd_bookkeeping_exact [OF deadlock57_reachable])

text \<open>
  C6: the reduction always returns, and what it leaves is the greatest stable set of edges: nothing
  that is left can be removed by a rule of the algorithm, and every stable subset of the edges has
  survived, whatever the order in which graphs, verts and edges are visited.
\<close>

theorem GddCtxReduce_greatest:
  assumes "gdd_reachable ctx"
  shows "\<exists>ctx'. GddCtxReduce ctx = Some ctx' \<and> ctx_edges ctx' \<subseteq> ctx_edges ctx \<and> stable (ctx_edges ctx') \<and>
    (\<forall>B. stable B \<and> B \<subseteq> ctx_edges ctx \<longrightarrow> B \<subseteq> ctx_edges ctx')"
proof -
  let ?A = "ctx_edges ctx"
  obtain ctx' where "GddCtxReduce ctx = Some ctx'" "rep ctx' (stable_core ?A)"
    using Reduce_rep [OF reachable_rep [OF assms]] by blast
  moreover from this(2) have "ctx_edges ctx' = stable_core ?A" by (rule rep_ctx_edges)
  ultimately show ?thesis using core.sub_P core.sub_subset core.sub_greatest by auto
qed

theorem GddCtxReduce_greatest_witness:
  "\<exists>ctx'. GddCtxReduce deadlock57 = Some ctx' \<and> ctx_edges ctx' \<subseteq> ctx_edges deadlock57 \<and> stable (ctx_edges ctx') \<and>
    (\<forall>B. stable B \<and> B \<subseteq> ctx_edges deadlock57 \<longrightarrow> B \<subseteq> ctx_edges ctx')"
  by (rule GddCtxReduce_greatest [OF deadlock57_reachable])

end
