(* ===== verification/GddBackend.thy ===== *)
theory GddBackend
  imports GddBreak
begin

text \<open>
  The background worker of the global deadlock detector, \<^verbatim>\<open>src/backend/utils/gdd/gddbackend.c\<close>:
  building the wait-for graph from the rows of \<^verbatim>\<open>gp_dist_wait_status()\<close>, one round of the detector,
  the cancellation of the victims and the dump of the graph for the log.  The SPI interface, the
  list of running transactions, the lookup of a backend's pid and the outcome of cancelling it are
  arguments.

  A round is described over the rows alone.  \<open>stuck\<close> is the abstract notion of a deadlock: a set of
  waits in which everybody who waits is waited for, everybody waited for is waiting, and a dotted
  wait (one that ends before the end of the holder's transaction) has its holder waiting on the same
  segment.
\<close>

section \<open>Rows and satellite data\<close>

record VertSatelliteData =
  pid :: int
  sessionid :: int

record EdgeSatelliteData =
  lockmode :: string
  locktype :: string

text \<open>The columns of \<^verbatim>\<open>gp_dist_wait_status()\<close> in their order.\<close>

record wait_row =
  segid :: int
  waiter_xid :: DistributedTransactionId
  holder_xid :: DistributedTransactionId
  solidedge :: bool
  waiter_lpid :: int
  holder_lpid :: int
  row_lockmode :: string
  row_locktype :: string
  waiter_sessionid :: int
  holder_sessionid :: int

text \<open>
  The context with the \<^verbatim>\<open>data\<close> pointers of its verts and edges.  A vert is named by the position of
  its graph and its id, an edge by its number.  Every vert and edge gets its data when it is created.
\<close>

record wait_graph =
  wg_ctx :: GddCtx
  vert_data :: "nat \<times> DistributedTransactionId \<Rightarrow> VertSatelliteData"
  edge_data :: "nat \<Rightarrow> EdgeSatelliteData"

definition RET_STATUS_OK :: int where "RET_STATUS_OK = 0"

definition RET_STATUS_ERROR :: int where "RET_STATUS_ERROR = 1"

section \<open>Building the graph\<close>

fun IsValidGxid :: "DistributedTransactionId list \<Rightarrow> DistributedTransactionId \<Rightarrow> bool" where
  "IsValidGxid [] check_gxid = False"
| "IsValidGxid (gxid # gxids) check_gxid = (if gxid = check_gxid then True else IsValidGxid gxids check_gxid)"

text \<open>The body of the loop over the rows.\<close>

definition add_row :: "DistributedTransactionId list \<Rightarrow> wait_row \<Rightarrow> wait_graph \<Rightarrow> wait_graph" where
  "add_row gxids row wg =
     (if \<not> IsValidGxid gxids (waiter_xid row) \<or> \<not> IsValidGxid gxids (holder_xid row) then wg
      else
        let i = fst (gddCtxGetGraph (wg_ctx wg) (segid row));
            (edge, ctx) = GddCtxAddEdge (wg_ctx wg) (segid row) (waiter_xid row) (holder_xid row) (solidedge row)
        in \<lparr>wg_ctx = ctx,
            vert_data = (vert_data wg)
              ((i, efrom edge) := \<lparr>pid = waiter_lpid row, sessionid = waiter_sessionid row\<rparr>,
               (i, eto edge) := \<lparr>pid = holder_lpid row, sessionid = holder_sessionid row\<rparr>),
            edge_data = (edge_data wg)
              (eid edge := \<lparr>lockmode = row_lockmode row, locktype = row_locktype row\<rparr>)\<rparr>)"

text \<open>
  \<open>connected\<close> says whether \<^verbatim>\<open>SPI_connect\<close> succeeded and \<open>spi\<close> what \<^verbatim>\<open>SPI_execute\<close> did: raise an error,
  return without a table of rows (\<open>None\<close>), or return rows.
\<close>

definition buildWaitGraph ::
  "bool \<Rightarrow> wait_row list option result \<Rightarrow> DistributedTransactionId list \<Rightarrow> wait_graph \<Rightarrow> wait_graph result" where
  "buildWaitGraph connected spi gxids wg =
     (if \<not> connected then Inl (ERROR ''unable to connect to execute internal query'')
      else case spi of
        Inl err \<Rightarrow> Inl err
      | Inr None \<Rightarrow> Inr wg
      | Inr (Some rows) \<Rightarrow> Inr (fold (add_row gxids) rows wg))"

section \<open>Cancelling the victims\<close>

text \<open>
  The loop over the victims: the pids that are cancelled, in order, and whether a call of
  \<^verbatim>\<open>pg_cancel_backend_msg\<close> raised an error, which ends the loop.
\<close>

fun cancel_loop :: "(DistributedTransactionId \<Rightarrow> int) \<Rightarrow> (int \<Rightarrow> bool) \<Rightarrow> DistributedTransactionId list \<Rightarrow> int list \<times> bool" where
  "cancel_loop GetPidByGxid raises [] = ([], False)"
| "cancel_loop GetPidByGxid raises (xid # xids) =
     (if raises (GetPidByGxid xid) then ([], True)
      else case cancel_loop GetPidByGxid raises xids of (ps, err) \<Rightarrow> (GetPidByGxid xid # ps, err))"

definition breakDeadLock ::
  "(DistributedTransactionId \<Rightarrow> int) \<Rightarrow> (int \<Rightarrow> bool) \<Rightarrow> GddCtx \<Rightarrow> (int list \<times> bool) option" where
  "breakDeadLock GetPidByGxid raises ctx =
     Option.bind (GddCtxBreakDeadLock ctx) (\<lambda>(ctx1, xids). Some (cancel_loop GetPidByGxid raises xids))"

text \<open>
  A round of the detector: the status and the pids that were cancelled; \<open>None\<close> when it does not
  return.  What it writes to the log is left out.
\<close>

definition doDeadLockCheck ::
  "bool \<Rightarrow> wait_row list option result \<Rightarrow> DistributedTransactionId list \<Rightarrow>
   (DistributedTransactionId \<Rightarrow> int) \<Rightarrow> (int \<Rightarrow> bool) \<Rightarrow> (int \<times> int list) option" where
  "doDeadLockCheck connected spi gxids GetPidByGxid raises =
     (let wg = \<lparr>wg_ctx = GddCtxNew, vert_data = (\<lambda>_. \<lparr>pid = 0, sessionid = 0\<rparr>),
                edge_data = (\<lambda>_. \<lparr>lockmode = [], locktype = []\<rparr>)\<rparr>
      in case buildWaitGraph connected spi gxids wg of
        Inl err \<Rightarrow> Some (RET_STATUS_ERROR, [])
      | Inr wg1 \<Rightarrow>
          Option.bind (GddCtxReduce (wg_ctx wg1))
            (\<lambda>ctx. if GddCtxEmpty ctx then Some (RET_STATUS_OK, [])
                   else Option.bind (breakDeadLock GetPidByGxid raises ctx)
                     (\<lambda>(pids, err). Some (if err then RET_STATUS_ERROR else RET_STATUS_OK, pids))))"

section \<open>Dumping the graph\<close>

definition dumpCancelResult :: "(DistributedTransactionId \<Rightarrow> int) \<Rightarrow> DistributedTransactionId list \<Rightarrow> string" where
  "dumpCancelResult GetPidByGxid xids =
     concat (map (\<lambda>(n, xid). fmt_u64 xid @ ''(Coordinator Pid: '' @ fmt_d (GetPidByGxid xid) @ '')'' @
                             (if n + 1 < length xids then '','' else []))
                 (enumerate 0 xids))"

definition dumpGddEdge :: "wait_graph \<Rightarrow> nat \<Rightarrow> GddEdge \<Rightarrow> string" where
  "dumpGddEdge wg i edge =
     (let from = vert_data wg (i, efrom edge);
          to = vert_data wg (i, eto edge);
          edat = edge_data wg (eid edge)
      in [CHR 0x22] @ ''p'' @ fmt_d (pid from) @ '' of dtx'' @ fmt_u64 (efrom edge) @ '' con'' @
         fmt_d (sessionid from) @ '' waits for a '' @ locktype edat @ '' lock on '' @ lockmode edat @
         '' mode, '' @ ''blocked by p'' @ fmt_d (pid to) @ '' of dtx'' @ fmt_u64 (eto edge) @ '' con'' @
         fmt_d (sessionid from) @ [CHR 0x22])"

text \<open>The flag \<^verbatim>\<open>first\<close> of the loop: no comma before the first edge.\<close>

fun dump_edges :: "wait_graph \<Rightarrow> nat \<Rightarrow> bool \<Rightarrow> GddEdge list \<Rightarrow> string" where
  "dump_edges wg i first [] = []"
| "dump_edges wg i first (e # es) =
     (if first then [] else '','') @ dumpGddEdge wg i e @ dump_edges wg i False es"

definition dumpGddGraph :: "wait_graph \<Rightarrow> nat \<Rightarrow> string" where
  "dumpGddGraph wg i =
     (let graph = graph_at (wg_ctx wg) i
      in [CHR 0x22] @ ''seg'' @ fmt_d (graph_id graph) @ [CHR 0x22] @ '': ['' @
         dump_edges wg i True (concat (map (\<lambda>(_, v). edgesOut v) (pairs (verts graph)))) @ '']'')"

definition dumpGddCtx :: "wait_graph \<Rightarrow> string" where
  "dumpGddCtx wg =
     ''{'' @ concat (map (\<lambda>i. dumpGddGraph wg i @ (if i + 1 < length (pairs (graphs (wg_ctx wg))) then '','' else []))
                        [0..<length (pairs (graphs (wg_ctx wg)))]) @ ''}''"

section \<open>Deadlocks as sets of waits\<close>

text \<open>A wait: the segment, who waits, for whom, and whether until the end of the transaction.\<close>

type_synonym wait = "uint64 \<times> DistributedTransactionId \<times> DistributedTransactionId \<times> bool"

definition row_wait :: "wait_row \<Rightarrow> wait" where
  "row_wait row = (word_of_int (segid row), waiter_xid row, holder_xid row, solidedge row)"

definition valid_row :: "DistributedTransactionId list \<Rightarrow> wait_row \<Rightarrow> bool" where
  "valid_row gxids row \<longleftrightarrow> {waiter_xid row, holder_xid row} \<subseteq> set gxids"

definition wait_set :: "DistributedTransactionId list \<Rightarrow> wait_row list \<Rightarrow> wait set" where
  "wait_set gxids rows = row_wait ` {row \<in> set rows. valid_row gxids row}"

definition stuck :: "wait set \<Rightarrow> bool" where
  "stuck W \<longleftrightarrow> (\<forall>(s, u, v, b) \<in> W.
     (\<exists>(s', u', v', b') \<in> W. v' = u) \<and> (\<exists>(s', u', v', b') \<in> W. u' = v) \<and>
     (b \<or> (\<exists>(s', u', v', b') \<in> W. u' = v \<and> s' = s)))"

abbreviation deadlock :: "wait set \<Rightarrow> wait set" where
  "deadlock \<equiv> greatest_sub stuck"

definition members :: "wait set \<Rightarrow> DistributedTransactionId set" where
  "members W = (\<Union>(s, u, v, b) \<in> W. {u, v})"

definition cancelled :: "DistributedTransactionId set \<Rightarrow> wait set \<Rightarrow> wait set" where
  "cancelled V W = {(s, u, v, b) \<in> W. u \<notin> V \<and> v \<notin> V}"

lemma stuck_Union: "(\<And>B. B \<in> F \<Longrightarrow> stuck B) \<Longrightarrow> stuck (\<Union> F)"
  unfolding stuck_def by fast

interpretation waiting: union_closed stuck
  by unfold_locales (rule stuck_Union)

text \<open>The wait that an edge of a context stands for.\<close>

definition edge_wait :: "GddCtx \<Rightarrow> nat \<times> GddEdge \<Rightarrow> wait" where
  "edge_wait ctx x = (fst (pairs (graphs ctx) ! fst x), efrom (snd x), eto (snd x), solid (snd x))"

lemma edge_wait_seg:
  assumes "rep ctx A" and "x \<in> A" and "y \<in> A"
  shows "fst (edge_wait ctx x) = fst (edge_wait ctx y) \<longleftrightarrow> fst x = fst y"
proof -
  have "distinct (map fst (pairs (graphs ctx)))" using assms(1) by (simp add: rep_def)
  moreover have "edge_ok ctx x" "edge_ok ctx y" using assms by (simp_all add: rep_def)
  then have "fst x < length (pairs (graphs ctx))" "fst y < length (pairs (graphs ctx))"
    by (simp_all add: edge_ok_def graph_count_def)
  ultimately show ?thesis using nth_eq_iff_index_eq [of "map fst (pairs (graphs ctx))" "fst x" "fst y"]
    by (simp add: edge_wait_def)
qed

lemma stuck_edge_wait:
  assumes "rep ctx A" and "B \<subseteq> A"
  shows "stuck (edge_wait ctx ` B) \<longleftrightarrow> stable B"
proof -
  have seg: "(\<exists>y \<in> B. efrom (snd y) = k \<and> fst (edge_wait ctx y) = fst (edge_wait ctx x)) \<longleftrightarrow>
      (\<exists>y \<in> B. efrom (snd y) = k \<and> fst y = fst x)" if "x \<in> B" for x k
    using edge_wait_seg [OF assms(1), of _ x] that assms(2) by blast
  have "stuck (edge_wait ctx ` B) \<longleftrightarrow> (\<forall>x \<in> B. (\<exists>y \<in> B. eto (snd y) = efrom (snd x)) \<and>
      (\<exists>y \<in> B. efrom (snd y) = eto (snd x)) \<and>
      (solid (snd x) \<or> (\<exists>y \<in> B. efrom (snd y) = eto (snd x) \<and> fst (edge_wait ctx y) = fst (edge_wait ctx x))))"
    by (simp add: stuck_def edge_wait_def)
  also have "\<dots> \<longleftrightarrow> (\<forall>x \<in> B. (\<exists>y \<in> B. eto (snd y) = efrom (snd x)) \<and>
      (\<exists>y \<in> B. efrom (snd y) = eto (snd x)) \<and>
      (solid (snd x) \<or> (\<exists>y \<in> B. efrom (snd y) = eto (snd x) \<and> fst y = fst x)))"
    by (rule ball_cong [OF refl]) (simp only: seg)
  also have "\<dots> \<longleftrightarrow> stable B"
    unfolding stable_def in_edges_def out_edges_def by (rule ball_cong [OF refl]) blast
  finally show ?thesis .
qed

lemma deadlock_edge_wait:
  assumes "rep ctx A" and "B \<subseteq> A"
  shows "deadlock (edge_wait ctx ` B) = edge_wait ctx ` stable_core B"
proof (rule waiting.sub_unique)
  have sub: "stable_core B \<subseteq> B" by (rule core.sub_subset)
  with assms have "stable_core B \<subseteq> A" by blast
  from stuck_edge_wait [OF assms(1) this] show "stuck (edge_wait ctx ` stable_core B)" by (simp add: core.sub_P)
  from sub show "edge_wait ctx ` stable_core B \<subseteq> edge_wait ctx ` B" by blast
  fix W assume W: "stuck W" "W \<subseteq> edge_wait ctx ` B"
  define D where "D = {x \<in> B. edge_wait ctx x \<in> W}"
  have D: "edge_wait ctx ` D = W" "D \<subseteq> B" using W(2) by (auto simp: D_def)
  with assms(2) stuck_edge_wait [OF assms(1), of D] W(1) have "stable D" by simp
  then have "D \<subseteq> stable_core B" using D(2) by (rule core.sub_greatest)
  with D(1) show "W \<subseteq> edge_wait ctx ` stable_core B" by blast
qed

lemma members_edge_wait: "members (edge_wait ctx ` B) = endpoints B"
  by (auto simp: members_def endpoints_def edge_wait_def)

lemma cancelled_edge_wait: "cancelled V (edge_wait ctx ` B) = edge_wait ctx ` without B V"
  by (auto simp: cancelled_def without_def edge_wait_def)

section \<open>What a round does\<close>

lemma IsValidGxid_set: "IsValidGxid gxids x \<longleftrightarrow> x \<in> set gxids"
  by (induction gxids) auto

lemma add_row_rep:
  assumes "rep (wg_ctx wg) A"
  shows "\<exists>B. rep (wg_ctx (add_row gxids row wg)) B \<and>
    edge_wait (wg_ctx (add_row gxids row wg)) ` B =
    edge_wait (wg_ctx wg) ` A \<union> row_wait ` {r. r = row \<and> valid_row gxids r}"
proof (cases "valid_row gxids row")
  case True
  let ?ctx = "wg_ctx wg"
  obtain e ctx' where e: "GddCtxAddEdge ?ctx (segid row) (waiter_xid row) (holder_xid row) (solidedge row) = (e, ctx')"
    by force
  from AddEdge_rep [OF assms e] obtain i where i: "rep ctx' (insert (i, e) A)"
    "efrom e = waiter_xid row" "eto e = holder_xid row" "solid e = solidedge row"
    "fst (pairs (graphs ctx') ! i) = word_of_int (segid row)"
    "take (graph_count ?ctx) (map fst (pairs (graphs ctx'))) = map fst (pairs (graphs ?ctx))" by blast
  have "edge_wait ctx' x = edge_wait ?ctx x" if "x \<in> A" for x
  proof -
    have "edge_ok ?ctx x" using assms that by (simp add: rep_def)
    then have x: "fst x < graph_count ?ctx" by (simp add: edge_ok_def)
    have "graph_count ?ctx \<le> length (map fst (pairs (graphs ctx')))"
      using arg_cong [OF i(6), of length] by (simp add: graph_count_def)
    then have "map fst (pairs (graphs ctx')) ! fst x = map fst (pairs (graphs ?ctx)) ! fst x"
      using x by (simp flip: i(6))
    with x show ?thesis using \<open>graph_count ?ctx \<le> _\<close> by (simp add: edge_wait_def graph_count_def)
  qed
  moreover have "edge_wait ctx' (i, e) = row_wait row" using i by (simp add: edge_wait_def row_wait_def)
  ultimately have "edge_wait ctx' ` insert (i, e) A =
      edge_wait ?ctx ` A \<union> row_wait ` {r. r = row \<and> valid_row gxids r}"
    using True by auto
  moreover have "wg_ctx (add_row gxids row wg) = ctx'"
    using True e by (simp add: add_row_def IsValidGxid_set valid_row_def Let_def)
  ultimately show ?thesis using i(1) by metis
next
  case False
  then have "add_row gxids row wg = wg" by (auto simp: add_row_def IsValidGxid_set valid_row_def)
  with assms False show ?thesis by auto
qed

lemma add_rows_rep:
  "rep (wg_ctx wg) A \<Longrightarrow> \<exists>B. rep (wg_ctx (fold (add_row gxids) rows wg)) B \<and>
    edge_wait (wg_ctx (fold (add_row gxids) rows wg)) ` B = edge_wait (wg_ctx wg) ` A \<union> wait_set gxids rows"
proof (induction rows arbitrary: wg A)
  case (Cons row rows)
  from add_row_rep [OF Cons.prems] obtain B where B: "rep (wg_ctx (add_row gxids row wg)) B"
    "edge_wait (wg_ctx (add_row gxids row wg)) ` B =
     edge_wait (wg_ctx wg) ` A \<union> row_wait ` {r. r = row \<and> valid_row gxids r}" by blast
  have "wait_set gxids (row # rows) = row_wait ` {r. r = row \<and> valid_row gxids r} \<union> wait_set gxids rows"
    by (auto simp: wait_set_def)
  with Cons.IH [OF B(1)] B(2) show ?case by (simp add: Un_assoc)
qed (auto simp: wait_set_def)

lemma cancel_loop_ok: "(\<forall>x \<in> set xids. \<not> raises (f x)) \<Longrightarrow> cancel_loop f raises xids = (map f xids, False)"
  by (induction xids) auto

text \<open>The victims of a round for a set of waits, and that they are the right ones.\<close>

definition resolves :: "wait set \<Rightarrow> DistributedTransactionId list \<Rightarrow> bool" where
  "resolves W xids \<longleftrightarrow>
     (xids = [] \<longleftrightarrow> deadlock W = {}) \<and> sorted_wrt (>) xids \<and> set xids \<subseteq> members (deadlock W) \<and>
     deadlock (cancelled (set xids) W) = {}"

lemma breaks_resolves:
  assumes "rep ctx A" and "breaks (stable_core A) vs"
  shows "resolves (edge_wait ctx ` A) vs"
proof -
  have core: "deadlock (edge_wait ctx ` A) = edge_wait ctx ` stable_core A"
    by (rule deadlock_edge_wait [OF assms(1) subset_refl])
  have "stable_core A = {} \<Longrightarrow> vs = []" using assms(2) by (auto simp: breaks_def endpoints_def)
  moreover have "stable_core A \<noteq> {} \<Longrightarrow> vs \<noteq> []" using assms(2) by (auto simp: breaks_def)
  moreover have "without A (set vs) \<subseteq> A" by (auto simp: without_def)
  note gone = deadlock_edge_wait [OF assms(1) this]
  have "stable_core (without A ({} \<union> set vs)) = {}"
    using assms(2) by (intro core_without) (simp add: breaks_def without_def)
  ultimately show ?thesis
    using assms(2) gone by (auto simp: resolves_def core members_edge_wait cancelled_edge_wait breaks_def)
qed


lemma wait_set_edges:
  "\<exists>wg A. buildWaitGraph True (Inr (Some rows)) gxids
      \<lparr>wg_ctx = GddCtxNew, vert_data = (\<lambda>_. \<lparr>pid = 0, sessionid = 0\<rparr>), edge_data = (\<lambda>_. \<lparr>lockmode = [], locktype = []\<rparr>)\<rparr> =
      Inr wg \<and> rep (wg_ctx wg) A \<and> edge_wait (wg_ctx wg) ` A = wait_set gxids rows"
  using add_rows_rep [of "\<lparr>wg_ctx = GddCtxNew, vert_data = (\<lambda>_. \<lparr>pid = 0, sessionid = 0\<rparr>),
      edge_data = (\<lambda>_. \<lparr>lockmode = [], locktype = []\<rparr>)\<rparr>" "{}" gxids rows]
  by (simp add: buildWaitGraph_def rep_New)

text \<open>The graph of a round after its first reduction.\<close>

lemma doDeadLockCheck_reduced:
  "\<exists>ctx B. rep ctx B \<and> stable B \<and> (B = {} \<longleftrightarrow> deadlock (wait_set gxids rows) = {}) \<and>
     endpoints B = members (deadlock (wait_set gxids rows)) \<and>
     (\<forall>vs. breaks B vs \<longrightarrow> resolves (wait_set gxids rows) vs) \<and>
     doDeadLockCheck True (Inr (Some rows)) gxids f raises =
       (if GddCtxEmpty ctx then Some (RET_STATUS_OK, [])
        else Option.bind (breakDeadLock f raises ctx)
          (\<lambda>(pids, err). Some (if err then RET_STATUS_ERROR else RET_STATUS_OK, pids)))"
proof -
  obtain wg A where wg: "buildWaitGraph True (Inr (Some rows)) gxids
      \<lparr>wg_ctx = GddCtxNew, vert_data = (\<lambda>_. \<lparr>pid = 0, sessionid = 0\<rparr>), edge_data = (\<lambda>_. \<lparr>lockmode = [], locktype = []\<rparr>)\<rparr> =
      Inr wg" and A: "rep (wg_ctx wg) A" "edge_wait (wg_ctx wg) ` A = wait_set gxids rows"
    using wait_set_edges by blast
  from Reduce_rep [OF A(1)] obtain ctx where
    ctx: "GddCtxReduce (wg_ctx wg) = Some ctx" "rep ctx (stable_core A)" by blast
  have core: "deadlock (wait_set gxids rows) = edge_wait (wg_ctx wg) ` stable_core A"
    using deadlock_edge_wait [OF A(1) subset_refl] A(2) by simp
  show ?thesis
    using ctx breaks_resolves [OF A(1)] A(2) core.sub_P [of A]
    by (intro exI [of _ ctx] exI [of _ "stable_core A"])
      (simp add: core members_edge_wait doDeadLockCheck_def wg)
qed

lemma doDeadLockCheck_resolves:
  assumes "\<forall>row \<in> set rows. waiter_xid row < 2 ^ 31 \<and> holder_xid row < 2 ^ 31" and "\<forall>p. \<not> raises p"
  shows "\<exists>xids. doDeadLockCheck True (Inr (Some rows)) gxids f raises = Some (RET_STATUS_OK, map f xids) \<and>
    resolves (wait_set gxids rows) xids"
proof -
  let ?W = "wait_set gxids rows"
  obtain ctx B where B: "rep ctx B" "endpoints B = members (deadlock ?W)" "\<And>vs. breaks B vs \<Longrightarrow> resolves ?W vs"
    and run: "doDeadLockCheck True (Inr (Some rows)) gxids f raises =
       (if GddCtxEmpty ctx then Some (RET_STATUS_OK, [])
        else Option.bind (breakDeadLock f raises ctx)
          (\<lambda>(pids, err). Some (if err then RET_STATUS_ERROR else RET_STATUS_OK, pids)))"
    using doDeadLockCheck_reduced [of gxids rows f raises] by blast
  have "deadlock ?W \<subseteq> ?W" by (rule waiting.sub_subset)
  then have "\<forall>k \<in> endpoints B. k < 2 ^ 31"
    using assms(1) by (auto simp: B(2) members_def wait_set_def row_wait_def)
  from break_loop_rep [OF B(1) this, of "[]"] obtain ctx' vs where
    vs: "GddCtxBreakDeadLock ctx = Some (ctx', vs)" "breaks B vs" by (auto simp: GddCtxBreakDeadLock_def)
  moreover have "vs = []" if "GddCtxEmpty ctx"
    using that vs(2) rep_Empty [OF B(1)] by (auto simp: breaks_def endpoints_def)
  ultimately show ?thesis
    using B(3) assms(2) by (intro exI [of _ vs]) (simp add: run breakDeadLock_def cancel_loop_ok)
qed

lemma stuck_cycle:
  assumes "stuck W" and "finite W" and "W \<noteq> {}"
  shows "\<not> acyclic ((\<lambda>(s, u, v, b). (u, v)) ` W)"
proof
  let ?R = "(\<lambda>(s, u, v, b). (u, v)) ` W"
  let ?V = "(\<lambda>(s, u, v, b). v) ` W"
  assume "acyclic ?R"
  with assms(2) have "wf (?R\<inverse>)" by (simp add: finite_acyclic_wf_converse)
  moreover from assms(3) obtain w where "w \<in> ?V" by blast
  ultimately obtain k where k: "k \<in> ?V" "\<And>l. (l, k) \<in> ?R\<inverse> \<Longrightarrow> l \<notin> ?V" by (rule wfE_min) blast
  then obtain s u b where "(s, u, k, b) \<in> W" by auto
  with assms(1) obtain s' l b' where "(s', k, l, b') \<in> W" by (fastforce simp: stuck_def)
  then have "(l, k) \<in> ?R\<inverse>" "l \<in> ?V" by force+
  with k(2) show False by blast
qed

section \<open>Cycles of waits\<close>

definition follows :: "wait \<Rightarrow> wait \<Rightarrow> bool" where
  "follows = (\<lambda>(s, u, v, b) (s', u', v', b'). v = u' \<and> (b \<or> s = s'))"

definition wait_cycle :: "wait list \<Rightarrow> bool" where
  "wait_cycle ws \<longleftrightarrow> ws \<noteq> [] \<and> list_all2 follows ws (rotate1 ws)"

lemma wait_cycle_stuck: "wait_cycle ws \<Longrightarrow> stuck (set ws)"
proof -
  assume "wait_cycle ws"
  then have f: "\<And>x y. (x, y) \<in> set (zip ws (rotate1 ws)) \<Longrightarrow> follows x y" by (auto simp: wait_cycle_def list_all2_iff)
  have next_wait: "\<exists>y \<in> set ws. follows x y" if "x \<in> set ws" for x
  proof -
    from that obtain i where "i < length ws" "ws ! i = x" by (auto simp: in_set_conv_nth)
    then have "(x, rotate1 ws ! i) \<in> set (zip ws (rotate1 ws))" by (auto simp: set_zip)
    moreover from this have "rotate1 ws ! i \<in> set ws" by (auto dest: set_zip_rightD)
    ultimately show ?thesis using f by blast
  qed
  have prev_wait: "\<exists>x \<in> set ws. follows x y" if "y \<in> set ws" for y
  proof -
    from that have "y \<in> set (rotate1 ws)" by simp
    then obtain i where "i < length ws" "rotate1 ws ! i = y" by (metis in_set_conv_nth length_rotate1)
    then have "(ws ! i, y) \<in> set (zip ws (rotate1 ws))" by (auto simp: set_zip)
    moreover from this have "ws ! i \<in> set ws" by (auto dest: set_zip_leftD)
    ultimately show ?thesis using f by blast
  qed
  show ?thesis unfolding stuck_def
  proof safe
    fix s u v b assume w: "(s, u, v, b) \<in> set ws"
    from prev_wait [OF w] show "\<exists>(s', u', v', b') \<in> set ws. v' = u" by (auto simp: follows_def)
    from next_wait [OF w] show "\<exists>(s', u', v', b') \<in> set ws. u' = v" by (auto simp: follows_def)
    assume "\<not> (\<exists>(s', u', v', b') \<in> set ws. u' = v \<and> s' = s)"
    with next_wait [OF w] show b by (auto simp: follows_def)
  qed
qed

section \<open>Correctness of a round\<close>

text \<open>Rows for the examples: who waits for whom on which segment.\<close>

definition example_row :: "int \<Rightarrow> DistributedTransactionId \<Rightarrow> DistributedTransactionId \<Rightarrow> bool \<Rightarrow> wait_row" where
  "example_row s u v b = \<lparr>segid = s, waiter_xid = u, holder_xid = v, solidedge = b, waiter_lpid = 10, holder_lpid = 20,
     row_lockmode = ''ShareLock'', row_locktype = ''transactionid'', waiter_sessionid = 1, holder_sessionid = 2\<rparr>"

definition example_graph :: wait_graph where
  "example_graph = add_row [5, 7] (example_row 0 5 7 True)
     \<lparr>wg_ctx = GddCtxNew, vert_data = (\<lambda>_. \<lparr>pid = 0, sessionid = 0\<rparr>), edge_data = (\<lambda>_. \<lparr>lockmode = [], locktype = []\<rparr>)\<rparr>"

lemma example_row_sel:
  "segid (example_row s u v b) = s" "waiter_xid (example_row s u v b) = u"
  "holder_xid (example_row s u v b) = v" "solidedge (example_row s u v b) = b"
  by (simp_all add: example_row_def)

lemma wait_set_list: "wait_set gxids rows = set (map row_wait (filter (valid_row gxids) rows))"
  by (simp add: wait_set_def)

text \<open>
  C1: when the transaction ids fit an \<^verbatim>\<open>int\<close>, a round of the detector returns.  It cancels nobody
  exactly when there is no deadlock among the waits of running transactions; the transactions it
  cancels are distinct, youngest first, all of them members of the deadlock, and without them no
  deadlock is left.
\<close>

theorem doDeadLockCheck_correct:
  assumes "\<forall>row \<in> set rows. waiter_xid row < 2 ^ 31 \<and> holder_xid row < 2 ^ 31" and "\<forall>p. \<not> raises p"
  shows "\<exists>xids. doDeadLockCheck True (Inr (Some rows)) gxids GetPidByGxid raises = Some (RET_STATUS_OK, map GetPidByGxid xids) \<and>
    (xids = [] \<longleftrightarrow> deadlock (wait_set gxids rows) = {}) \<and> sorted_wrt (>) xids \<and>
    set xids \<subseteq> members (deadlock (wait_set gxids rows)) \<and>
    deadlock (cancelled (set xids) (wait_set gxids rows)) = {}"
  using doDeadLockCheck_resolves [OF assms, of gxids GetPidByGxid] unfolding resolves_def by blast

theorem doDeadLockCheck_correct_witness:
  "\<exists>xids. doDeadLockCheck True (Inr (Some [example_row 0 5 7 True, example_row 1 7 5 True])) [5, 7]
      (\<lambda>x. if x = 5 then 105 else 107) (\<lambda>_. False) = Some (RET_STATUS_OK, map (\<lambda>x. if x = 5 then 105 else 107) xids) \<and>
    (xids = [] \<longleftrightarrow> deadlock (wait_set [5, 7] [example_row 0 5 7 True, example_row 1 7 5 True]) = {}) \<and> sorted_wrt (>) xids \<and>
    set xids \<subseteq> members (deadlock (wait_set [5, 7] [example_row 0 5 7 True, example_row 1 7 5 True])) \<and>
    deadlock (cancelled (set xids) (wait_set [5, 7] [example_row 0 5 7 True, example_row 1 7 5 True])) = {}"
  by (rule doDeadLockCheck_correct) (simp_all add: example_row_sel)

text \<open>
  C13: no false alarm, for transaction ids of any size: when no transaction waits for itself through
  a chain of waits over all segments, a round returns without cancelling anybody.
\<close>

theorem doDeadLockCheck_no_false_alarm:
  assumes "acyclic ((\<lambda>(s, u, v, b). (u, v)) ` wait_set gxids rows)"
  shows "doDeadLockCheck True (Inr (Some rows)) gxids GetPidByGxid raises = Some (RET_STATUS_OK, [])"
proof -
  let ?W = "wait_set gxids rows"
  have sub: "deadlock ?W \<subseteq> ?W" by (rule waiting.sub_subset)
  then have "acyclic ((\<lambda>(s, u, v, b). (u, v)) ` deadlock ?W)" by (intro acyclic_subset [OF assms] image_mono)
  moreover have "finite (deadlock ?W)" using sub by (rule finite_subset) (simp add: wait_set_def)
  ultimately have "deadlock ?W = {}" using stuck_cycle [OF waiting.sub_P] by blast
  with doDeadLockCheck_reduced [of gxids rows GetPidByGxid raises] show ?thesis
    by (auto simp: rep_Empty)
qed

lemma acyclic_less: "acyclic {(x, y). x < (y :: uint64)}"
proof -
  have "(x, y) \<in> {(x, y). x < (y :: uint64)}\<^sup>+ \<Longrightarrow> x < y" for x y
    by (induction rule: trancl.induct) auto
  then show ?thesis by (auto simp: acyclic_def)
qed

theorem doDeadLockCheck_no_false_alarm_witness:
  "doDeadLockCheck True (Inr (Some [example_row 0 5 7 True, example_row 1 7 9 True])) [5, 7, 9] (\<lambda>_. 100) (\<lambda>_. False) =
     Some (RET_STATUS_OK, [])"
proof (rule doDeadLockCheck_no_false_alarm)
  have "(\<lambda>(s, u, v, b). (u, v)) ` wait_set [5, 7, 9] [example_row 0 5 7 True, example_row 1 7 9 True] = {(5, 7), (7, 9)}"
    by (simp add: wait_set_list valid_row_def row_wait_def example_row_sel)
  moreover have "{(5, 7), (7, 9)} \<subseteq> {(x, y). x < (y :: uint64)}" by auto
  then have "acyclic {(5, 7), (7, 9 :: uint64)}"
    by (rule acyclic_subset [rotated]) (rule acyclic_less)
  ultimately show "acyclic ((\<lambda>(s, u, v, b). (u, v)) ` wait_set [5, 7, 9] [example_row 0 5 7 True, example_row 1 7 9 True])"
    by simp
qed



text \<open>
  C37: with a deadlock among transactions whose ids lie between \<open>2^31\<close> and \<open>2^32\<close> a round never
  returns: the id of the victim goes through an \<^verbatim>\<open>int\<close>, comes back negative, matches no vert, and
  the loop that breaks the deadlock removes nothing.
\<close>

theorem doDeadLockCheck_diverges:
  assumes "deadlock (wait_set gxids rows) \<noteq> {}"
    and "\<forall>k \<in> members (deadlock (wait_set gxids rows)). 2 ^ 31 \<le> k \<and> k < 2 ^ 32"
  shows "doDeadLockCheck True (Inr (Some rows)) gxids GetPidByGxid raises = None"
proof -
  obtain ctx B where B: "rep ctx B" "stable B" "B \<noteq> {}" "endpoints B = members (deadlock (wait_set gxids rows))"
    and run: "doDeadLockCheck True (Inr (Some rows)) gxids GetPidByGxid raises =
       (if GddCtxEmpty ctx then Some (RET_STATUS_OK, [])
        else Option.bind (breakDeadLock GetPidByGxid raises ctx)
          (\<lambda>(pids, err). Some (if err then RET_STATUS_ERROR else RET_STATUS_OK, pids)))"
    using doDeadLockCheck_reduced [of gxids rows GetPidByGxid raises] assms(1) by blast
  with break_loop_diverges [OF B(1,2,3)] assms(2) show ?thesis
    by (simp add: rep_Empty breakDeadLock_def GddCtxBreakDeadLock_def)
qed

theorem doDeadLockCheck_diverges_witness:
  "doDeadLockCheck True (Inr (Some [example_row 0 3000000000 3000000001 True, example_row 1 3000000001 3000000000 True]))
     [3000000000, 3000000001] (\<lambda>_. 100) (\<lambda>_. False) = None"
proof (rule doDeadLockCheck_diverges)
  let ?W = "wait_set [3000000000, 3000000001]
    [example_row 0 3000000000 3000000001 True, example_row 1 3000000001 3000000000 True]"
  have W: "?W = {(0, 3000000000, 3000000001, True), (1, 3000000001, 3000000000, True)}"
    by (simp add: wait_set_list valid_row_def row_wait_def example_row_sel)
  then have "stuck ?W" by (simp add: stuck_def)
  then have "deadlock ?W = ?W" by (rule waiting.sub_id)
  with W show "deadlock ?W \<noteq> {}" "\<forall>k \<in> members (deadlock ?W). 2 ^ 31 \<le> k \<and> k < 2 ^ 32"
    by (simp_all add: members_def)
qed


text \<open>
  The dump of an edge does not show the session of the transaction that blocks: changing that
  session id changes nothing, since the session of the waiting transaction is printed twice.
\<close>

theorem dumpGddEdge_holder_session:
  assumes "efrom edge \<noteq> eto edge"
  shows "dumpGddEdge (wg\<lparr>vert_data := (vert_data wg)((i, eto edge) := (vert_data wg (i, eto edge))\<lparr>sessionid := n\<rparr>)\<rparr>) i edge =
    dumpGddEdge wg i edge"
  using assms by (simp add: dumpGddEdge_def)

end
