(* ===== verification/Fts.thy ===== *)
theory Fts
  imports Bitmapset
begin

text \<open>
  The segment prober of the fault tolerance service, \<^verbatim>\<open>src/backend/fts/ftsprobe.c\<close>, with the catalog
  updates of \<^verbatim>\<open>fts.c\<close>: per primary-mirror pair a state machine that connects, sends a message,
  receives the response, retries, and decides what to write to the configuration and whether to
  promote the mirror.

  What libpq, \<^verbatim>\<open>poll()\<close>, the clock and the flag behind \<^verbatim>\<open>FtsIsActive()\<close> do is an input of every
  round.  The catalogs, the shared status array, the set \<^verbatim>\<open>failedContentIds\<close> (a bitmapset) and the
  signals to the postmaster form one record of shared state.  Dereferencing a null pointer is \<open>UB\<close>.
  Log messages appear only where evaluating their arguments dereferences a pointer that may be null.
  Messages are not translated.
\<close>

section \<open>Configuration\<close>

record GpSegConfigEntry =
  dbid :: int
  segindex :: int
  role :: char
  mode :: char
  status :: char
  port :: int
  hostip :: "string option"

definition GP_SEGMENT_CONFIGURATION_ROLE_PRIMARY :: char where "GP_SEGMENT_CONFIGURATION_ROLE_PRIMARY = CHR ''p''"

definition GP_SEGMENT_CONFIGURATION_ROLE_MIRROR :: char where "GP_SEGMENT_CONFIGURATION_ROLE_MIRROR = CHR ''m''"

definition GP_SEGMENT_CONFIGURATION_STATUS_UP :: char where "GP_SEGMENT_CONFIGURATION_STATUS_UP = CHR ''u''"

definition GP_SEGMENT_CONFIGURATION_STATUS_DOWN :: char where "GP_SEGMENT_CONFIGURATION_STATUS_DOWN = CHR ''d''"

definition GP_SEGMENT_CONFIGURATION_MODE_INSYNC :: char where "GP_SEGMENT_CONFIGURATION_MODE_INSYNC = CHR ''s''"

definition GP_SEGMENT_CONFIGURATION_MODE_NOTINSYNC :: char where
  "GP_SEGMENT_CONFIGURATION_MODE_NOTINSYNC = CHR ''n''"

definition SEGMENT_IS_ACTIVE_PRIMARY :: "GpSegConfigEntry \<Rightarrow> bool" where
  "SEGMENT_IS_ACTIVE_PRIMARY p \<longleftrightarrow> role p = GP_SEGMENT_CONFIGURATION_ROLE_PRIMARY"

definition SEGMENT_IS_ALIVE :: "GpSegConfigEntry \<Rightarrow> bool" where
  "SEGMENT_IS_ALIVE p \<longleftrightarrow> status p = GP_SEGMENT_CONFIGURATION_STATUS_UP"

definition SEGMENT_IS_IN_SYNC :: "GpSegConfigEntry \<Rightarrow> bool" where
  "SEGMENT_IS_IN_SYNC p \<longleftrightarrow> mode p = GP_SEGMENT_CONFIGURATION_MODE_INSYNC"

record CdbComponentDatabases =
  segment_db_info :: "GpSegConfigEntry list"
  total_segments :: nat

text \<open>The settings the prober reads; \<open>log_on\<close> is whether messages of the levels \<^verbatim>\<open>LOG\<close> and \<^verbatim>\<open>WARNING\<close> are written.\<close>

record fts_gucs =
  gp_fts_probe_retries :: int
  gp_fts_probe_timeout :: int
  gp_log_fts_verbose :: bool
  log_on :: bool

section \<open>The interface of libpq\<close>

datatype ConnStatusType = CONNECTION_OK | CONNECTION_BAD | CONNECTION_IN_PROGRESS

datatype PostgresPollingStatusType =
  PGRES_POLLING_FAILED | PGRES_POLLING_READING | PGRES_POLLING_WRITING | PGRES_POLLING_OK | PGRES_POLLING_ACTIVE

record PGconn =
  conn_status :: ConnStatusType
  async_idle :: bool
  errorMessage :: string

text \<open>A result: whether its status is \<^verbatim>\<open>PGRES_TUPLES_OK\<close>, its size, and the fields of its first row.\<close>

record PGresult =
  tuples_ok :: bool
  ntuples :: int
  nfields :: int
  PQgetvalue :: "nat \<Rightarrow> string"

text \<open>What the calls made for one segment during a round do.\<close>

record seg_env =
  PQconnectStart :: "string \<Rightarrow> PGconn option"
  PQconnectPoll :: "PGconn \<Rightarrow> PostgresPollingStatusType \<times> PGconn"
  PQsendQuery :: "PGconn \<Rightarrow> string \<Rightarrow> bool \<times> PGconn"
  PQconsumeInput :: "PGconn \<Rightarrow> bool \<times> PGconn"
  PQisBusy :: "PGconn \<Rightarrow> bool \<times> PGconn"
  PQgetResult :: "PGconn \<Rightarrow> PGresult option \<times> PGconn"
  connect_time :: int

text \<open>
  What happens during a round: per segment, what \<^verbatim>\<open>poll()\<close> returns with the events by position in
  \<^verbatim>\<open>PollFds\<close>, the time after it, the time of the retry step, whether the prober is active when the
  loop of \<^verbatim>\<open>processResponse\<close> reaches a segment, and whether it is when the round begins.
\<close>

record round_env =
  seg_envs :: "nat \<Rightarrow> seg_env"
  poll_nready :: int
  poll_eintr :: bool
  poll_ready :: "nat \<Rightarrow> uint16"
  poll_time :: int
  retry_time :: int
  active_at :: "nat \<Rightarrow> bool"
  active :: bool

definition PQstatus :: "PGconn option \<Rightarrow> ConnStatusType" where
  "PQstatus c = (case c of None \<Rightarrow> CONNECTION_BAD | Some c \<Rightarrow> conn_status c)"

definition POLLIN :: uint16 where "POLLIN = 1"

definition POLLOUT :: uint16 where "POLLOUT = 4"

definition POLLERR :: uint16 where "POLLERR = 8"

definition POLLHUP :: uint16 where "POLLHUP = 16"

definition POLLNVAL :: uint16 where "POLLNVAL = 32"

text \<open>
  The \<^verbatim>\<open>revents\<close> that \<^verbatim>\<open>poll()\<close> stores for a descriptor: of the events that occurred, those that were
  asked for and the error conditions, and none when no descriptor was ready or the call failed.
\<close>

definition poll_result :: "int \<Rightarrow> uint16 \<Rightarrow> uint16 \<Rightarrow> uint16" where
  "poll_result nready events occurred =
     (if nready > 0 then occurred AND (events OR POLLERR OR POLLHUP OR POLLNVAL) else 0)"

section \<open>State of the prober\<close>

datatype FtsMessageState =
  FTS_PROBE_SEGMENT | FTS_SYNCREP_OFF_SEGMENT | FTS_PROMOTE_SEGMENT
| FTS_PROBE_RETRY_WAIT | FTS_SYNCREP_OFF_RETRY_WAIT | FTS_PROMOTE_RETRY_WAIT
| FTS_PROBE_SUCCESS | FTS_SYNCREP_OFF_SUCCESS | FTS_PROMOTE_SUCCESS
| FTS_PROBE_FAILED | FTS_SYNCREP_OFF_FAILED | FTS_PROMOTE_FAILED
| FTS_RESPONSE_PROCESSED

datatype PMRestartState =
  PM_NOT_IN_RESTART | PM_IN_RESETTING | PM_IN_RECOVERY_MAKING_PROGRESS | PM_IN_RECOVERY_NOT_MAKING_PROGRESS

definition IsFtsMessageStateSuccess :: "FtsMessageState \<Rightarrow> bool" where
  "IsFtsMessageStateSuccess s \<longleftrightarrow> s = FTS_PROBE_SUCCESS \<or> s = FTS_SYNCREP_OFF_SUCCESS \<or> s = FTS_PROMOTE_SUCCESS"

definition IsFtsMessageStateFailed :: "FtsMessageState \<Rightarrow> bool" where
  "IsFtsMessageStateFailed s \<longleftrightarrow> s = FTS_PROBE_FAILED \<or> s = FTS_SYNCREP_OFF_FAILED \<or> s = FTS_PROMOTE_FAILED"

record fts_result =
  result_dbid :: int
  isPrimaryAlive :: bool
  isMirrorAlive :: bool
  isInSync :: bool
  isSyncRepEnabled :: bool
  isRoleMirror :: bool
  retryRequested :: bool

text \<open>The result after \<^verbatim>\<open>memset(&ftsInfo->result, 0, sizeof(fts_result))\<close>.\<close>

definition zero_result :: fts_result where
  "zero_result = \<lparr>result_dbid = 0, isPrimaryAlive = False, isMirrorAlive = False, isInSync = False,
     isSyncRepEnabled = False, isRoleMirror = False, retryRequested = False\<rparr>"

record fts_segment_info =
  primary_cdbinfo :: "GpSegConfigEntry option"
  mirror_cdbinfo :: "GpSegConfigEntry option"
  probe_result :: fts_result
  msg_state :: FtsMessageState
  poll_events :: uint16
  poll_revents :: uint16
  fd_index :: int
  startTime :: int
  retryStartTime :: int
  conn :: "PGconn option"
  retry_count :: int
  xlogrecptr :: uint64
  restart_state :: PMRestartState
  timeout_count :: int

record fts_context =
  has_mirrors :: bool
  perSegInfos :: "fts_segment_info list"

text \<open>
  The state outside the prober: role, status and mode per dbid in \<^verbatim>\<open>gp_segment_configuration\<close>, the rows
  of \<^verbatim>\<open>gp_configuration_history\<close>, the shared status bytes, the contents known to be down, and the
  number of \<^verbatim>\<open>PMSIGNAL_FTS_PROMOTED_MIRROR\<close> signals sent.
\<close>

record fts_shared =
  gp_segment_configuration :: "int \<rightharpoonup> char \<times> char \<times> char"
  gp_configuration_history :: "(int \<times> string) list"
  fts_status :: "int \<Rightarrow> uint8"
  failedContentIds :: bms
  promoted_signals :: nat

text \<open>The target of a pointer.\<close>

definition deref :: "'a option \<Rightarrow> 'a result" where
  "deref p = (case p of None \<Rightarrow> Inl (UB ''null pointer'') | Some x \<Rightarrow> Inr x)"

text \<open>A message whose arguments dereference the pointer, written if the condition holds.\<close>

definition log_with :: "bool \<Rightarrow> 'a option \<Rightarrow> 'b \<Rightarrow> 'b result" where
  "log_with enabled p x = (if enabled then bindE (deref p) (\<lambda>_. Inr x) else Inr x)"

section \<open>Transitions\<close>

fun nextSuccessState :: "FtsMessageState \<Rightarrow> FtsMessageState result" where
  "nextSuccessState FTS_PROBE_SEGMENT = Inr FTS_PROBE_SUCCESS"
| "nextSuccessState FTS_SYNCREP_OFF_SEGMENT = Inr FTS_SYNCREP_OFF_SUCCESS"
| "nextSuccessState FTS_PROMOTE_SEGMENT = Inr FTS_PROMOTE_SUCCESS"
| "nextSuccessState _ = Inl (ERROR ''cannot determine next success state'')"

fun nextFailedState :: "FtsMessageState \<Rightarrow> FtsMessageState result" where
  "nextFailedState FTS_PROBE_SEGMENT = Inr FTS_PROBE_FAILED"
| "nextFailedState FTS_SYNCREP_OFF_SEGMENT = Inr FTS_SYNCREP_OFF_FAILED"
| "nextFailedState FTS_PROMOTE_SEGMENT = Inr FTS_PROMOTE_FAILED"
| "nextFailedState FTS_PROBE_FAILED = Inr FTS_PROBE_FAILED"
| "nextFailedState FTS_SYNCREP_OFF_FAILED = Inr FTS_SYNCREP_OFF_FAILED"
| "nextFailedState FTS_PROMOTE_FAILED = Inr FTS_PROMOTE_FAILED"
| "nextFailedState FTS_PROBE_RETRY_WAIT = Inr FTS_PROBE_FAILED"
| "nextFailedState FTS_SYNCREP_OFF_RETRY_WAIT = Inr FTS_SYNCREP_OFF_FAILED"
| "nextFailedState FTS_PROMOTE_RETRY_WAIT = Inr FTS_PROMOTE_FAILED"
| "nextFailedState _ = Inl (ERROR ''cannot determine next failed state'')"

text \<open>\<^verbatim>\<open>ftsInfo->state = nextFailedState(ftsInfo->state)\<close>.\<close>

definition set_failed :: "fts_segment_info \<Rightarrow> fts_segment_info result" where
  "set_failed info = bindE (nextFailedState (msg_state info)) (\<lambda>s. Inr (info\<lparr>msg_state := s\<rparr>))"

definition allDone :: "fts_context \<Rightarrow> bool" where
  "allDone ctx = list_all (\<lambda>info. msg_state info = FTS_RESPONSE_PROCESSED) (perSegInfos ctx)"

section \<open>Connecting\<close>

definition ftsConninfo :: "GpSegConfigEntry \<Rightarrow> string" where
  "ftsConninfo p = take 1023 (''host='' @ (case hostip p of None \<Rightarrow> [] | Some h \<Rightarrow> h) @
     '' port='' @ fmt_d (port p) @ '' gpconntype=fts'')"

definition ftsConnectStart :: "seg_env \<Rightarrow> fts_segment_info \<Rightarrow> (bool \<times> fts_segment_info) result" where
  "ftsConnectStart env info =
     bindE (deref (primary_cdbinfo info)) (\<lambda>p.
       case PQconnectStart env (ftsConninfo p) of
         None \<Rightarrow> Inl (ERROR ''FTS: cannot create libpq connection object, possibly out of memory'')
       | Some c \<Rightarrow>
           let info1 = info\<lparr>conn := Some c\<rparr>
           in if conn_status c = CONNECTION_BAD then Inr (False, info1)
              else Inr (True, info1\<lparr>poll_events := poll_events info OR POLLOUT, startTime := connect_time env\<rparr>))"

fun strstr :: "string \<Rightarrow> string \<Rightarrow> string option" where
  "strstr [] needle = (if needle = [] then Some [] else None)"
| "strstr (c # hay) needle =
     (if take (length needle) (c # hay) = needle then Some (c # hay) else strstr hay needle)"

definition POSTMASTER_IN_STARTUP_MSG :: string where
  "POSTMASTER_IN_STARTUP_MSG = ''the database system is starting up''"

definition POSTMASTER_IN_RESET_MSG :: string where
  "POSTMASTER_IN_RESET_MSG = ''the database system is resetting''"

definition POSTMASTER_IN_RECOVERY_MSG :: string where
  "POSTMASTER_IN_RECOVERY_MSG = ''the database system is in recovery mode''"

definition POSTMASTER_IN_RECOVERY_DETAIL_MSG :: string where
  "POSTMASTER_IN_RECOVERY_DETAIL_MSG = ''last replayed record at''"

text \<open>
  The part \<^verbatim>\<open>" %X/%X\n"\<close> of the format of \<^verbatim>\<open>sscanf\<close>, after the literal message: white space, a hexadecimal
  number with an optional sign and prefix, a slash, and another number.  A number is converted like
  \<^verbatim>\<open>strtoul\<close> and stored in 32 bits.  White space at the end of the format always matches.
\<close>

definition is_space :: "char \<Rightarrow> bool" where
  "is_space c \<longleftrightarrow> c \<in> set [CHR 0x20, CHR 0x09, CHR 0x0A, CHR 0x0B, CHR 0x0C, CHR 0x0D]"

definition hex_digit :: "char \<Rightarrow> nat option" where
  "hex_digit c =
     (let n = of_char c :: nat in
      if 48 \<le> n \<and> n \<le> 57 then Some (n - 48)
      else if 65 \<le> n \<and> n \<le> 70 then Some (n - 55)
      else if 97 \<le> n \<and> n \<le> 102 then Some (n - 87)
      else None)"

fun scan_digits :: "nat \<Rightarrow> string \<Rightarrow> nat \<times> string" where
  "scan_digits acc [] = (acc, [])"
| "scan_digits acc (c # cs) =
     (case hex_digit c of None \<Rightarrow> (acc, c # cs) | Some d \<Rightarrow> scan_digits (16 * acc + d) cs)"

definition scan_sign :: "string \<Rightarrow> bool \<times> string" where
  "scan_sign s = (case s of c # cs \<Rightarrow> if c = CHR ''-'' then (True, cs) else if c = CHR ''+'' then (False, cs) else (False, s)
                          | [] \<Rightarrow> (False, []))"

definition skip_prefix :: "string \<Rightarrow> string" where
  "skip_prefix s =
     (case s of
        c # d # cs \<Rightarrow> if c = CHR ''0'' \<and> (d = CHR ''x'' \<or> d = CHR ''X'') then cs else s
      | _ \<Rightarrow> s)"

definition scan_hex :: "string \<Rightarrow> (uint32 \<times> string) option" where
  "scan_hex s =
     (let (neg, s1) = scan_sign (dropWhile is_space s);
          s2 = skip_prefix s1;
          (n, rest) = scan_digits 0 s2
      in if rest = s2 then None
         else
           let v = (if n < 2 ^ 64 then of_nat n else - 1) :: uint64
           in Some (ucast (if neg \<and> n < 2 ^ 64 then - v else v), rest))"

definition scan_lsn :: "string \<Rightarrow> (uint32 \<times> uint32) option" where
  "scan_lsn s =
     (case scan_hex s of
        Some (hi, c # rest) \<Rightarrow>
          (if c = CHR ''/'' then (case scan_hex rest of Some (lo, _) \<Rightarrow> Some (hi, lo) | None \<Rightarrow> None) else None)
      | _ \<Rightarrow> None)"

definition checkIfFailedDueToNormalRestart :: "fts_gucs \<Rightarrow> fts_segment_info \<Rightarrow> fts_segment_info result" where
  "checkIfFailedDueToNormalRestart g info =
     (let msg = (case conn info of None \<Rightarrow> [] | Some c \<Rightarrow> errorMessage c) in
      if strstr msg POSTMASTER_IN_RECOVERY_MSG \<noteq> None \<or> strstr msg POSTMASTER_IN_STARTUP_MSG \<noteq> None then
        (case strstr msg POSTMASTER_IN_RECOVERY_DETAIL_MSG of
           None \<Rightarrow> Inr info
         | Some ptr \<Rightarrow>
             (case scan_lsn (drop (length POSTMASTER_IN_RECOVERY_DETAIL_MSG) ptr) of
                None \<Rightarrow> Inr info
              | Some (xlogid, xrecoff) \<Rightarrow>
                  let tmpptr = push_bit 32 (ucast xlogid) OR ucast xrecoff
                  in if tmpptr \<le> xlogrecptr info
                     then log_with (log_on g) (mirror_cdbinfo info)
                            (info\<lparr>restart_state := PM_IN_RECOVERY_NOT_MAKING_PROGRESS\<rparr>)
                     else log_with (gp_log_fts_verbose g \<and> log_on g) (mirror_cdbinfo info)
                            (info\<lparr>restart_state := PM_IN_RECOVERY_MAKING_PROGRESS, xlogrecptr := tmpptr\<rparr>)))
      else if strstr msg POSTMASTER_IN_RESET_MSG \<noteq> None
      then log_with (log_on g) (mirror_cdbinfo info) (info\<lparr>restart_state := PM_IN_RESETTING\<rparr>)
      else Inr info)"

text \<open>The three states in which a message is under way.\<close>

definition in_flight :: "FtsMessageState \<Rightarrow> bool" where
  "in_flight s \<longleftrightarrow> s = FTS_PROBE_SEGMENT \<or> s = FTS_SYNCREP_OFF_SEGMENT \<or> s = FTS_PROMOTE_SEGMENT"

text \<open>The \<^verbatim>\<open>switch (PQconnectPoll(ftsInfo->conn))\<close>.\<close>

definition connect_poll :: "fts_gucs \<Rightarrow> seg_env \<Rightarrow> PGconn \<Rightarrow> fts_segment_info \<Rightarrow> fts_segment_info result" where
  "connect_poll g env c info =
     (case PQconnectPoll env c of (res, c1) \<Rightarrow>
        let info1 = info\<lparr>conn := Some c1\<rparr>
        in case res of
             PGRES_POLLING_OK \<Rightarrow> Inr (info1\<lparr>poll_events := POLLOUT\<rparr>)
           | PGRES_POLLING_READING \<Rightarrow> Inr (info1\<lparr>poll_events := poll_events info1 OR POLLIN\<rparr>)
           | PGRES_POLLING_WRITING \<Rightarrow> Inr (info1\<lparr>poll_events := poll_events info1 OR POLLOUT\<rparr>)
           | PGRES_POLLING_FAILED \<Rightarrow> bindE (set_failed info1) (checkIfFailedDueToNormalRestart g)
           | PGRES_POLLING_ACTIVE \<Rightarrow> Inl (ERROR ''FTS: invalid response to PQconnectPoll''))"

text \<open>The body of the loop of \<^verbatim>\<open>ftsConnect\<close>.\<close>

definition connect_seg :: "fts_gucs \<Rightarrow> seg_env \<Rightarrow> fts_segment_info \<Rightarrow> fts_segment_info result" where
  "connect_seg g env info =
     (if conn info \<noteq> None \<and> PQstatus (conn info) = CONNECTION_OK then Inr info
      else if in_flight (msg_state info) then
        let info1 = info\<lparr>restart_state := PM_NOT_IN_RESTART\<rparr>
        in case conn info1 of
             None \<Rightarrow>
               bindE (ftsConnectStart env info1) (\<lambda>(started, info2).
                 if started then Inr info2 else set_failed info2)
           | Some c \<Rightarrow>
               if poll_revents info1 AND (POLLOUT OR POLLIN) \<noteq> 0 then connect_poll g env c info1 else Inr info1
      else Inr info)"

definition ftsConnect :: "fts_gucs \<Rightarrow> round_env \<Rightarrow> fts_context \<Rightarrow> fts_context result" where
  "ftsConnect g env ctx =
     bindE (mapE (\<lambda>i. connect_seg g (seg_envs env i)) 0 (perSegInfos ctx)) (\<lambda>infos. Inr (ctx\<lparr>perSegInfos := infos\<rparr>))"

section \<open>Polling\<close>

definition ftsCheckTimeout :: "fts_gucs \<Rightarrow> int \<Rightarrow> fts_segment_info \<Rightarrow> fts_segment_info result" where
  "ftsCheckTimeout g now info =
     (if \<not> IsFtsMessageStateSuccess (msg_state info) \<and> c_int (now - startTime info) > gp_fts_probe_timeout g
      then set_failed (info\<lparr>timeout_count := 0\<rparr>)
      else Inr info)"

text \<open>The loop that fills \<^verbatim>\<open>PollFds\<close>.\<close>

fun fill_fds :: "nat \<Rightarrow> fts_segment_info list \<Rightarrow> fts_segment_info list \<times> nat" where
  "fill_fds nfds [] = ([], nfds)"
| "fill_fds nfds (info # infos) =
     (if poll_events info AND (POLLIN OR POLLOUT) \<noteq> 0
      then case fill_fds (nfds + 1) infos of (rest, n) \<Rightarrow> (info\<lparr>fd_index := int nfds\<rparr> # rest, n)
      else case fill_fds nfds infos of (rest, n) \<Rightarrow> (info\<lparr>fd_index := - 1\<rparr> # rest, n))"

text \<open>
  The body of the loop over the polled segments.  The messages about failures read the connection.
\<close>

definition poll_seg :: "fts_gucs \<Rightarrow> round_env \<Rightarrow> fts_segment_info \<Rightarrow> fts_segment_info result" where
  "poll_seg g env info =
     (if poll_events info AND (POLLIN OR POLLOUT) \<noteq> 0 then
        let rev = poll_result (poll_nready env) (poll_events info) (poll_ready env (nat (fd_index info)));
            info1 = info\<lparr>poll_revents := rev\<rparr>
        in bindE
             (if rev AND poll_events info1 \<noteq> 0 then Inr (info1\<lparr>poll_events := 0\<rparr>)
              else if rev \<noteq> 0 then bindE (set_failed info1) (log_with (log_on g) (conn info1))
              else Inr info1)
             (\<lambda>info2.
                ftsCheckTimeout g (poll_time env)
                  (if \<not> IsFtsMessageStateSuccess (msg_state info2) \<and> poll_nready env = 0
                   then info2\<lparr>timeout_count := timeout_count info2 + 1\<rparr> else info2))
      else Inr info)"

definition ftsPoll :: "fts_gucs \<Rightarrow> round_env \<Rightarrow> fts_context \<Rightarrow> fts_context result" where
  "ftsPoll g env ctx =
     (case fill_fds 0 (perSegInfos ctx) of (infos, nfds) \<Rightarrow>
        if nfds = 0 then Inr (ctx\<lparr>perSegInfos := infos\<rparr>)
        else if poll_nready env < 0 \<and> \<not> poll_eintr env then Inl (ERROR ''FTS: ftsPoll() failed'')
        else bindE (mapE (\<lambda>_. poll_seg g env) 0 infos) (\<lambda>infos1. Inr (ctx\<lparr>perSegInfos := infos1\<rparr>)))"

section \<open>Sending and receiving\<close>

definition FTS_MSG_PROBE :: string where "FTS_MSG_PROBE = ''PROBE''"

definition FTS_MSG_SYNCREP_OFF :: string where "FTS_MSG_SYNCREP_OFF = ''SYNCREP_OFF''"

definition FTS_MSG_PROMOTE :: string where "FTS_MSG_PROMOTE = ''PROMOTE''"

definition FTS_MSG_MAX_LEN :: nat where "FTS_MSG_MAX_LEN = 100"

text \<open>The body of the loop of \<^verbatim>\<open>ftsSend\<close>; \<^verbatim>\<open>snprintf\<close> truncates.\<close>

definition send_seg :: "seg_env \<Rightarrow> fts_segment_info \<Rightarrow> fts_segment_info result" where
  "send_seg env info =
     (if in_flight (msg_state info) then
        case conn info of
          None \<Rightarrow> Inr info
        | Some c \<Rightarrow>
            if conn_status c \<noteq> CONNECTION_OK \<or> \<not> async_idle c \<or> poll_revents info AND POLLOUT = 0 then Inr info
            else bindE (deref (primary_cdbinfo info)) (\<lambda>p.
              let message_type =
                    (if msg_state info = FTS_PROBE_SEGMENT then FTS_MSG_PROBE
                     else if msg_state info = FTS_SYNCREP_OFF_SEGMENT then FTS_MSG_SYNCREP_OFF
                     else FTS_MSG_PROMOTE);
                  message = take (FTS_MSG_MAX_LEN - 1)
                    (message_type @ '' dbid='' @ fmt_d (dbid p) @ '' contid='' @ fmt_d (segindex p))
              in case PQsendQuery env c message of (sent, c1) \<Rightarrow>
                   if sent then Inr (info\<lparr>conn := Some c1, poll_events := POLLIN\<rparr>)
                   else set_failed (info\<lparr>conn := Some c1\<rparr>))
      else Inr info)"

definition ftsSend :: "round_env \<Rightarrow> fts_context \<Rightarrow> fts_context result" where
  "ftsSend env ctx =
     bindE (mapE (\<lambda>i. send_seg (seg_envs env i)) 0 (perSegInfos ctx)) (\<lambda>infos. Inr (ctx\<lparr>perSegInfos := infos\<rparr>))"

definition Natts_fts_message_response :: int where "Natts_fts_message_response = 5"

definition FTS_MESSAGE_RESPONSE_NTUPLES :: int where "FTS_MESSAGE_RESPONSE_NTUPLES = 1"

text \<open>\<^verbatim>\<open>*PQgetvalue(result, 0, i)\<close> as a \<^verbatim>\<open>bool\<close>: the first byte, which is the terminator of an empty field.\<close>

definition bool_field :: "PGresult \<Rightarrow> nat \<Rightarrow> bool" where
  "bool_field res i = (case PQgetvalue res i of [] \<Rightarrow> False | c # _ \<Rightarrow> c \<noteq> CHR 0x00)"

definition probeRecordResponse :: "fts_segment_info \<Rightarrow> PGresult \<Rightarrow> fts_segment_info" where
  "probeRecordResponse info res =
     info\<lparr>probe_result := (probe_result info)
       \<lparr>isPrimaryAlive := True, isMirrorAlive := bool_field res 0, isInSync := bool_field res 1,
        isSyncRepEnabled := bool_field res 2, isRoleMirror := bool_field res 3, retryRequested := bool_field res 4\<rparr>\<rparr>"

text \<open>The body of the loop of \<^verbatim>\<open>ftsReceive\<close>.\<close>

definition receive_seg :: "seg_env \<Rightarrow> fts_segment_info \<Rightarrow> fts_segment_info result" where
  "receive_seg env info =
     (if in_flight (msg_state info) then
        case conn info of
          None \<Rightarrow> Inr info
        | Some c \<Rightarrow>
            if conn_status c \<noteq> CONNECTION_OK \<or> poll_revents info AND POLLIN = 0 then Inr info
            else case PQconsumeInput env c of (ok, c1) \<Rightarrow>
              if \<not> ok then set_failed (info\<lparr>conn := Some c1\<rparr>)
              else case PQisBusy env c1 of (busy, c2) \<Rightarrow>
                if busy then Inr (info\<lparr>conn := Some c2\<rparr>)
                else case PQgetResult env c2 of (res, c3) \<Rightarrow>
                  let info1 = info\<lparr>conn := Some c3\<rparr>
                  in case res of
                       None \<Rightarrow> set_failed info1
                     | Some r \<Rightarrow>
                         if conn_status c3 = CONNECTION_BAD then set_failed info1
                         else if \<not> tuples_ok r then set_failed info1
                         else if nfields r \<noteq> Natts_fts_message_response \<or> ntuples r \<noteq> FTS_MESSAGE_RESPONSE_NTUPLES
                         then set_failed info1
                         else bindE (nextSuccessState (msg_state info1)) (\<lambda>s.
                                Inr ((probeRecordResponse info1 r)\<lparr>msg_state := s\<rparr>))
      else Inr info)"

definition ftsReceive :: "round_env \<Rightarrow> fts_context \<Rightarrow> fts_context result" where
  "ftsReceive env ctx =
     bindE (mapE (\<lambda>i. receive_seg (seg_envs env i)) 0 (perSegInfos ctx)) (\<lambda>infos. Inr (ctx\<lparr>perSegInfos := infos\<rparr>))"

section \<open>Retrying\<close>

definition retryForFtsFailed :: "fts_gucs \<Rightarrow> int \<Rightarrow> fts_segment_info \<Rightarrow> fts_segment_info" where
  "retryForFtsFailed g now info =
     (if retry_count info = gp_fts_probe_retries g then info
      else info
        \<lparr>retry_count := retry_count info + 1,
         msg_state :=
           (if msg_state info = FTS_PROBE_SUCCESS \<or> msg_state info = FTS_PROBE_FAILED then FTS_PROBE_RETRY_WAIT
            else if msg_state info = FTS_SYNCREP_OFF_FAILED then FTS_SYNCREP_OFF_RETRY_WAIT
            else FTS_PROMOTE_RETRY_WAIT),
         retryStartTime := now, conn := None, poll_events := 0, poll_revents := 0, probe_result := zero_result\<rparr>)"

text \<open>The body of the loop of \<^verbatim>\<open>processRetry\<close>.\<close>

definition retry_seg :: "fts_gucs \<Rightarrow> bool \<Rightarrow> int \<Rightarrow> fts_segment_info \<Rightarrow> fts_segment_info result" where
  "retry_seg g mirrors now info =
     (if msg_state info = FTS_PROBE_SUCCESS then
        if retryRequested (probe_result info) \<and> mirrors
        then bindE (deref (mirror_cdbinfo info)) (\<lambda>mirror.
               Inr (if SEGMENT_IS_ALIVE mirror then retryForFtsFailed g now info else info))
        else Inr info
      else if IsFtsMessageStateFailed (msg_state info) then Inr (retryForFtsFailed g now info)
      else if msg_state info = FTS_PROBE_RETRY_WAIT \<or> msg_state info = FTS_SYNCREP_OFF_RETRY_WAIT \<or>
              msg_state info = FTS_PROMOTE_RETRY_WAIT then
        if c_int (now - retryStartTime info) < 1 then Inr info
        else Inr (info\<lparr>msg_state :=
               (if msg_state info = FTS_PROBE_RETRY_WAIT then FTS_PROBE_SEGMENT
                else if msg_state info = FTS_SYNCREP_OFF_RETRY_WAIT then FTS_SYNCREP_OFF_SEGMENT
                else FTS_PROMOTE_SEGMENT)\<rparr>)
      else Inr info)"

definition processRetry :: "fts_gucs \<Rightarrow> round_env \<Rightarrow> fts_context \<Rightarrow> fts_context result" where
  "processRetry g env ctx =
     bindE (mapE (\<lambda>_. retry_seg g (has_mirrors ctx) (retry_time env)) 0 (perSegInfos ctx))
       (\<lambda>infos. Inr (ctx\<lparr>perSegInfos := infos\<rparr>))"

section \<open>Updating the configuration\<close>

definition FTS_STATUS_DOWN :: uint8 where "FTS_STATUS_DOWN = 1"

definition status_char :: "bool \<Rightarrow> char" where
  "status_char alive = (if alive then GP_SEGMENT_CONFIGURATION_STATUS_UP else GP_SEGMENT_CONFIGURATION_STATUS_DOWN)"

definition mode_char :: "bool \<Rightarrow> char" where
  "mode_char insync = (if insync then GP_SEGMENT_CONFIGURATION_MODE_INSYNC else GP_SEGMENT_CONFIGURATION_MODE_NOTINSYNC)"

definition probeWalRepUpdateConfig ::
  "int \<Rightarrow> int \<Rightarrow> char \<Rightarrow> bool \<Rightarrow> bool \<Rightarrow> fts_shared \<Rightarrow> fts_shared result" where
  "probeWalRepUpdateConfig d content r alive insync sh =
     (let desc = ''FTS: update role, status, and mode for dbid '' @ fmt_d d @ '' with contentid '' @ fmt_d content @
                 '' to '' @ [r] @ '', '' @ [status_char alive] @ '', and '' @ [mode_char insync];
          sh1 = sh\<lparr>gp_configuration_history := gp_configuration_history sh @ [(d, desc)]\<rparr>
      in case gp_segment_configuration sh1 d of
           None \<Rightarrow> Inl (ERROR ''FTS cannot find dbid in gp_segment_configuration'')
         | Some _ \<Rightarrow>
             Inr (sh1\<lparr>gp_segment_configuration := (gp_segment_configuration sh1)(d \<mapsto> (r, status_char alive, mode_char insync))\<rparr>))"

definition probeUpdateConfHistory :: "GpSegConfigEntry \<Rightarrow> bool \<Rightarrow> bool \<Rightarrow> fts_shared \<Rightarrow> fts_shared" where
  "probeUpdateConfHistory primary alive mirrors sh =
     (let desc = take 63
            (if mirrors then
               if alive then ''FTS: content id '' @ fmt_d (segindex primary) @ '' is out of double fault, dbid '' @
                             fmt_d (dbid primary) @ '' is up''
               else ''FTS: double fault detected for content id '' @ fmt_d (segindex primary)
             else if alive then ''FTS: content id '' @ fmt_d (segindex primary) @ '' dbid '' @ fmt_d (dbid primary) @ '' is now up''
             else ''FTS: content id '' @ fmt_d (segindex primary) @ '' dbid '' @ fmt_d (dbid primary) @ '' is down'')
      in sh\<lparr>gp_configuration_history := gp_configuration_history sh @ [(dbid primary, desc)]\<rparr>)"

definition set_status :: "int \<Rightarrow> bool \<Rightarrow> fts_shared \<Rightarrow> fts_shared" where
  "set_status d alive sh =
     sh\<lparr>fts_status := (fts_status sh)(d :=
       (if alive then fts_status sh d AND NOT FTS_STATUS_DOWN else fts_status sh d OR FTS_STATUS_DOWN))\<rparr>"

text \<open>A transaction that raises an error is rolled back by the caller, so the error is the whole outcome.\<close>

definition updateConfiguration ::
  "GpSegConfigEntry \<Rightarrow> GpSegConfigEntry \<Rightarrow> char \<Rightarrow> char \<Rightarrow> bool \<Rightarrow> bool \<Rightarrow> bool \<Rightarrow> fts_shared \<Rightarrow> (bool \<times> fts_shared) result" where
  "updateConfiguration primary mirror newPrimaryRole newMirrorRole insync primaryAlive mirrorAlive sh =
     (let UpdatePrimary = (primaryAlive \<noteq> SEGMENT_IS_ALIVE primary);
          UpdateMirror = (mirrorAlive \<noteq> SEGMENT_IS_ALIVE mirror);
          both = (insync \<noteq> SEGMENT_IS_IN_SYNC primary)
      in if UpdatePrimary \<or> UpdateMirror \<or> both then
           bindE (if UpdatePrimary \<or> both
                  then probeWalRepUpdateConfig (dbid primary) (segindex primary) newPrimaryRole primaryAlive insync sh
                  else Inr sh) (\<lambda>sh1.
           bindE (if UpdateMirror \<or> both
                  then probeWalRepUpdateConfig (dbid mirror) (segindex mirror) newMirrorRole mirrorAlive insync sh1
                  else Inr sh1) (\<lambda>sh2.
           Inr (True, set_status (dbid mirror) mirrorAlive (set_status (dbid primary) primaryAlive sh2))))
         else Inr (False, sh))"

definition updateSegmentDownStatus :: "GpSegConfigEntry \<Rightarrow> bool \<Rightarrow> bool \<Rightarrow> fts_shared \<Rightarrow> fts_shared result" where
  "updateSegmentDownStatus primary alive mirrors sh =
     bindE (bms_is_member (segindex primary) (failedContentIds sh)) (\<lambda>down.
       if alive \<and> \<not> down then Inr sh
       else if \<not> alive \<and> down then Inr sh
       else
         let sh1 = probeUpdateConfHistory primary alive mirrors sh
         in if alive
            then bindE (bms_del_member (failedContentIds sh1) (segindex primary)) (\<lambda>b. Inr (sh1\<lparr>failedContentIds := b\<rparr>))
            else bindE (bms_add_member (failedContentIds sh1) (segindex primary)) (\<lambda>b. Inr (sh1\<lparr>failedContentIds := b\<rparr>)))"

section \<open>Processing responses\<close>

definition ftsResponseReady :: "fts_segment_info \<Rightarrow> bool" where
  "ftsResponseReady info \<longleftrightarrow> IsFtsMessageStateSuccess (msg_state info) \<or> IsFtsMessageStateFailed (msg_state info)"

text \<open>
  The cases of the \<^verbatim>\<open>switch\<close> of \<^verbatim>\<open>processResponse\<close>.  Each returns the segment with its next state, whether
  the configuration was updated, and the shared state.
\<close>

type_synonym response = "(fts_segment_info \<times> bool \<times> fts_shared) result"

definition probe_success ::
  "bool \<Rightarrow> GpSegConfigEntry \<Rightarrow> bool \<Rightarrow> bool \<Rightarrow> bool \<Rightarrow> fts_segment_info \<Rightarrow> fts_shared \<Rightarrow> response" where
  "probe_success mirrors primary primaryAlive mirrorAlive insync info sh =
     (let r = probe_result info;
          update = (\<lambda>next_state sh1.
            bindE (deref (mirror_cdbinfo info)) (\<lambda>mirror.
            bindE (updateConfiguration primary mirror GP_SEGMENT_CONFIGURATION_ROLE_PRIMARY
                     GP_SEGMENT_CONFIGURATION_ROLE_MIRROR insync primaryAlive mirrorAlive sh1) (\<lambda>(upd, sh2).
            Inr (info\<lparr>msg_state := next_state\<rparr>, upd, sh2))))
      in bindE (updateSegmentDownStatus primary True mirrors sh) (\<lambda>sh1.
           if \<not> mirrors then Inr (info\<lparr>msg_state := FTS_RESPONSE_PROCESSED\<rparr>, False, sh1)
           else if isSyncRepEnabled r \<and> \<not> mirrorAlive then
             if \<not> retryRequested r then update FTS_SYNCREP_OFF_SEGMENT sh1
             else Inr (info\<lparr>msg_state := FTS_RESPONSE_PROCESSED\<rparr>, False, sh1)
           else if isRoleMirror r then Inr (info\<lparr>msg_state := FTS_PROMOTE_SEGMENT\<rparr>, False, sh1)
           else update FTS_RESPONSE_PROCESSED sh1))"

definition probe_failed ::
  "fts_gucs \<Rightarrow> bool \<Rightarrow> GpSegConfigEntry \<Rightarrow> bool \<Rightarrow> bool \<Rightarrow> bool \<Rightarrow> fts_segment_info \<Rightarrow> fts_shared \<Rightarrow> response" where
  "probe_failed g mirrors primary primaryAlive mirrorAlive insync info sh =
     (let down = bindE (updateSegmentDownStatus primary False mirrors sh) (\<lambda>sh1.
                   Inr (info\<lparr>msg_state := FTS_RESPONSE_PROCESSED\<rparr>, False, sh1))
      in if restart_state info = PM_IN_RESETTING \<or> restart_state info = PM_IN_RECOVERY_MAKING_PROGRESS
         then log_with (gp_log_fts_verbose g \<and> log_on g) (mirror_cdbinfo info)
                (info\<lparr>msg_state := FTS_RESPONSE_PROCESSED\<rparr>, False, sh)
         else if mirrors then
           bindE (deref (mirror_cdbinfo info)) (\<lambda>mirror.
             if SEGMENT_IS_IN_SYNC mirror then
               bindE (updateConfiguration primary mirror GP_SEGMENT_CONFIGURATION_ROLE_MIRROR
                        GP_SEGMENT_CONFIGURATION_ROLE_PRIMARY insync primaryAlive mirrorAlive sh) (\<lambda>(upd, sh1).
               Inr (info\<lparr>msg_state := FTS_PROMOTE_SEGMENT, primary_cdbinfo := Some mirror, mirror_cdbinfo := Some primary\<rparr>,
                    upd, sh1))
             else down)
         else down)"

definition promote_failed :: "fts_gucs \<Rightarrow> bool \<Rightarrow> GpSegConfigEntry \<Rightarrow> fts_segment_info \<Rightarrow> fts_shared \<Rightarrow> response" where
  "promote_failed g mirrors primary info sh =
     bindE (log_with (log_on g) (mirror_cdbinfo info) ()) (\<lambda>_.
     bindE (updateSegmentDownStatus primary False mirrors sh) (\<lambda>sh1.
     Inr (info\<lparr>msg_state := FTS_RESPONSE_PROCESSED\<rparr>, False, sh1)))"

definition promote_success :: "bool \<Rightarrow> GpSegConfigEntry \<Rightarrow> fts_segment_info \<Rightarrow> fts_shared \<Rightarrow> response" where
  "promote_success mirrors primary info sh =
     bindE (updateSegmentDownStatus primary True mirrors sh) (\<lambda>sh1.
     Inr (info\<lparr>msg_state := FTS_RESPONSE_PROCESSED\<rparr>, False, sh1\<lparr>promoted_signals := promoted_signals sh1 + 1\<rparr>))"

definition response_switch ::
  "fts_gucs \<Rightarrow> bool \<Rightarrow> GpSegConfigEntry \<Rightarrow> bool \<Rightarrow> bool \<Rightarrow> bool \<Rightarrow> fts_segment_info \<Rightarrow> fts_shared \<Rightarrow> response" where
  "response_switch g mirrors primary primaryAlive mirrorAlive insync info sh =
     (case msg_state info of
        FTS_PROBE_SUCCESS \<Rightarrow> probe_success mirrors primary primaryAlive mirrorAlive insync info sh
      | FTS_PROBE_FAILED \<Rightarrow> probe_failed g mirrors primary primaryAlive mirrorAlive insync info sh
      | FTS_SYNCREP_OFF_FAILED \<Rightarrow> Inr (info\<lparr>msg_state := FTS_RESPONSE_PROCESSED\<rparr>, False, sh)
      | FTS_PROMOTE_FAILED \<Rightarrow> promote_failed g mirrors primary info sh
      | FTS_PROMOTE_SUCCESS \<Rightarrow> promote_success mirrors primary info sh
      | FTS_SYNCREP_OFF_SUCCESS \<Rightarrow> Inr (info\<lparr>msg_state := FTS_RESPONSE_PROCESSED\<rparr>, False, sh)
      | _ \<Rightarrow> Inl (ERROR ''FTS invalid internal state''))"

text \<open>The body of the loop: the \<^verbatim>\<open>switch\<close>, and the reset of the segment for the next message.\<close>

definition response_seg :: "fts_gucs \<Rightarrow> bool \<Rightarrow> fts_segment_info \<Rightarrow> fts_shared \<Rightarrow> response" where
  "response_seg g mirrors info sh =
     (if \<not> ftsResponseReady info then Inr (info, False, sh)
      else
        let r = probe_result info;
            insync = (if isPrimaryAlive r then isInSync r else False)
        in bindE (if isPrimaryAlive r then Inr (isMirrorAlive r)
                  else if mirrors then bindE (deref (mirror_cdbinfo info)) (\<lambda>mirror. Inr (SEGMENT_IS_ALIVE mirror))
                  else Inr False) (\<lambda>mirrorAlive.
        bindE (deref (primary_cdbinfo info)) (\<lambda>primary.
        bindE (response_switch g mirrors primary (isPrimaryAlive r) mirrorAlive insync info sh) (\<lambda>(info1, upd, sh1).
        Inr (info1\<lparr>probe_result := zero_result, conn := None, poll_events := 0, poll_revents := 0,
                   retry_count := 0, timeout_count := 0\<rparr>, upd, sh1)))))"

fun response_loop ::
  "fts_gucs \<Rightarrow> bool \<Rightarrow> (nat \<Rightarrow> bool) \<Rightarrow> nat \<Rightarrow> fts_segment_info list \<Rightarrow> bool \<Rightarrow> fts_shared \<Rightarrow>
   (fts_segment_info list \<times> bool \<times> fts_shared) result" where
  "response_loop g mirrors act i [] upd sh = Inr ([], upd, sh)"
| "response_loop g mirrors act i (info # infos) upd sh =
     (if \<not> act i then Inr (info # infos, upd, sh)
      else
        bindE (response_seg g mirrors info sh) (\<lambda>(info1, upd1, sh1).
        bindE (response_loop g mirrors act (Suc i) infos (upd \<or> upd1) sh1) (\<lambda>(infos1, upd2, sh2).
        Inr (info1 # infos1, upd2, sh2))))"

definition processResponse ::
  "fts_gucs \<Rightarrow> round_env \<Rightarrow> fts_context \<Rightarrow> fts_shared \<Rightarrow> (fts_context \<times> bool \<times> fts_shared) result" where
  "processResponse g env ctx sh =
     bindE (response_loop g (has_mirrors ctx) (active_at env) 0 (perSegInfos ctx) False sh) (\<lambda>(infos, upd, sh1).
     Inr (ctx\<lparr>perSegInfos := infos\<rparr>, upd, sh1))"

section \<open>A probe cycle\<close>

fun FtsGetPeerSegment :: "GpSegConfigEntry list \<Rightarrow> int \<Rightarrow> int \<Rightarrow> GpSegConfigEntry option" where
  "FtsGetPeerSegment [] content d = None"
| "FtsGetPeerSegment (seg # segs) content d =
     (if segindex seg = content \<and> dbid seg \<noteq> d then Some seg else FtsGetPeerSegment segs content d)"

text \<open>An element of the array that \<^verbatim>\<open>palloc0\<close> returns.\<close>

definition zero_info :: fts_segment_info where
  "zero_info = \<lparr>primary_cdbinfo = None, mirror_cdbinfo = None, probe_result = zero_result, msg_state = FTS_PROBE_SEGMENT,
     poll_events = 0, poll_revents = 0, fd_index = 0, startTime = 0, retryStartTime = 0, conn = None, retry_count = 0,
     xlogrecptr = 0, restart_state = PM_NOT_IN_RESTART, timeout_count = 0\<rparr>"

text \<open>The loop over the segments: the records that it initializes and the primaries without a mirror.\<close>

fun init_loop :: "GpSegConfigEntry list \<Rightarrow> bool \<Rightarrow> GpSegConfigEntry list \<Rightarrow> fts_segment_info list \<times> nat" where
  "init_loop all mirrors [] = ([], 0)"
| "init_loop all mirrors (seg # segs) =
     (case init_loop all mirrors segs of (infos, skipped) \<Rightarrow>
        if \<not> SEGMENT_IS_ACTIVE_PRIMARY seg then (infos, skipped)
        else
          let mirror = FtsGetPeerSegment all (segindex seg) (dbid seg)
          in if mirrors \<and> mirror = None then (infos, skipped + 1)
             else (zero_info\<lparr>probe_result := zero_result\<lparr>result_dbid := dbid seg\<rparr>,
                     primary_cdbinfo := Some seg, mirror_cdbinfo := mirror\<rparr> # infos, skipped))"

text \<open>
  The array has \<^verbatim>\<open>total_segments\<close> elements, of which the loop fills the first ones; writing past its
  end is \<open>UB\<close>.
\<close>

definition FtsWalRepInitProbeContext :: "CdbComponentDatabases \<Rightarrow> fts_context result" where
  "FtsWalRepInitProbeContext cdbs =
     (let n = total_segments cdbs;
          mirrors = (length (segment_db_info cdbs) \<noteq> n);
          (infos, skipped) = init_loop (segment_db_info cdbs) mirrors (segment_db_info cdbs)
      in if length infos > n then Inl (UB ''perSegInfos'')
         else Inr \<lparr>has_mirrors = mirrors,
                   perSegInfos = take (n - skipped) (infos @ replicate (n - length infos) zero_info)\<rparr>)"

text \<open>One iteration of the loop of \<^verbatim>\<open>FtsWalRepMessageSegments\<close>.\<close>

definition message_round ::
  "fts_gucs \<Rightarrow> round_env \<Rightarrow> fts_context \<Rightarrow> fts_shared \<Rightarrow> (fts_context \<times> bool \<times> fts_shared) result" where
  "message_round g env ctx sh =
     bindE (ftsConnect g env ctx) (\<lambda>c1.
     bindE (ftsPoll g env c1) (\<lambda>c2.
     bindE (ftsSend env c2) (\<lambda>c3.
     bindE (ftsReceive env c3) (\<lambda>c4.
     bindE (processRetry g env c4) (\<lambda>c5.
     processResponse g env c5 sh)))))"

text \<open>
  The loop, with the environments of its rounds; \<open>None\<close> when it does not end.  The connections that
  are closed at the end when the prober is not active any more belong to a context that is freed.
\<close>

partial_function (option) message_loop ::
  "fts_gucs \<Rightarrow> (nat \<Rightarrow> round_env) \<Rightarrow> nat \<Rightarrow> fts_context \<Rightarrow> bool \<Rightarrow> fts_shared \<Rightarrow> (bool \<times> fts_shared) result option" where
  "message_loop g env k ctx upd sh =
     (if allDone ctx \<or> \<not> active (env k) then Some (Inr (upd, sh))
      else case message_round g (env k) ctx sh of
             Inl e \<Rightarrow> Some (Inl e)
           | Inr (ctx1, upd1, sh1) \<Rightarrow> message_loop g env (Suc k) ctx1 (upd \<or> upd1) sh1)"

definition FtsWalRepMessageSegments ::
  "fts_gucs \<Rightarrow> (nat \<Rightarrow> round_env) \<Rightarrow> CdbComponentDatabases \<Rightarrow> fts_shared \<Rightarrow> (bool \<times> fts_shared) result option" where
  "FtsWalRepMessageSegments g env cdbs sh =
     (case FtsWalRepInitProbeContext cdbs of
        Inl e \<Rightarrow> Some (Inl e)
      | Inr ctx \<Rightarrow> message_loop g env 0 ctx False sh)"

end
