(* ===== verification/FtsMachine.thy ===== *)
theory FtsMachine
  imports Fts
begin

text \<open>
  The state machine of the segment prober.  \<open>fts_trans\<close> says how the message state and the retry
  count of a segment may change, \<open>seg_ok\<close> is the invariant of a segment's record, and every step of
  the prober's loop is shown to follow the machine, to keep the invariant, and to raise no error but
  those that the environment causes.
\<close>

lemma deref_simps [simp]: "deref (Some x) = Inr x" "deref None = Inl (UB ''null pointer'')"
  by (simp_all add: deref_def)

lemma log_with_Some [simp]: "log_with b (Some y) x = Inr x"
  by (simp add: log_with_def)

section \<open>The state machine of a segment\<close>

text \<open>
  What may happen to the message state and the number of retries of a segment, with \<open>R\<close> retries
  allowed.
\<close>

definition awaiting_retry :: "FtsMessageState \<Rightarrow> bool" where
  "awaiting_retry s \<longleftrightarrow> s = FTS_PROBE_RETRY_WAIT \<or> s = FTS_SYNCREP_OFF_RETRY_WAIT \<or> s = FTS_PROMOTE_RETRY_WAIT"

text \<open>The kinds of messages.\<close>

datatype kind = Probe | Syncrep_off | Promote

fun kind_of :: "FtsMessageState \<Rightarrow> kind option" where
  "kind_of FTS_RESPONSE_PROCESSED = None"
| "kind_of s =
     (if s \<in> {FTS_PROBE_SEGMENT, FTS_PROBE_RETRY_WAIT, FTS_PROBE_SUCCESS, FTS_PROBE_FAILED} then Some Probe
      else if s \<in> {FTS_PROMOTE_SEGMENT, FTS_PROMOTE_RETRY_WAIT, FTS_PROMOTE_SUCCESS, FTS_PROMOTE_FAILED} then Some Promote
      else Some Syncrep_off)"

inductive fts_trans :: "int \<Rightarrow> FtsMessageState \<times> int \<Rightarrow> FtsMessageState \<times> int \<Rightarrow> bool" for R :: int where
  fail: "in_flight s \<Longrightarrow> IsFtsMessageStateFailed s' \<Longrightarrow> kind_of s' = kind_of s \<Longrightarrow> fts_trans R (s, n) (s', n)"
| succeed: "in_flight s \<Longrightarrow> IsFtsMessageStateSuccess s' \<Longrightarrow> kind_of s' = kind_of s \<Longrightarrow> fts_trans R (s, n) (s', n)"
| retry: "IsFtsMessageStateFailed s \<or> s = FTS_PROBE_SUCCESS \<Longrightarrow> n \<noteq> R \<Longrightarrow> awaiting_retry s' \<Longrightarrow> kind_of s' = kind_of s \<Longrightarrow>
    fts_trans R (s, n) (s', n + 1)"
| attempt: "awaiting_retry s \<Longrightarrow> in_flight s' \<Longrightarrow> kind_of s' = kind_of s \<Longrightarrow> fts_trans R (s, n) (s', n)"
| finish: "IsFtsMessageStateSuccess s \<or> IsFtsMessageStateFailed s \<and> n = R \<Longrightarrow> fts_trans R (s, n) (FTS_RESPONSE_PROCESSED, 0)"
| syncrep_off: "fts_trans R (FTS_PROBE_SUCCESS, n) (FTS_SYNCREP_OFF_SEGMENT, 0)"
| promote: "fts_trans R (FTS_PROBE_FAILED, R) (FTS_PROMOTE_SEGMENT, 0)"
| promote_again: "fts_trans R (FTS_PROBE_SUCCESS, n) (FTS_PROMOTE_SEGMENT, 0)"

inductive_cases fts_transE: "fts_trans R (s, n) (s', n')"

lemmas state_sets = in_flight_def awaiting_retry_def IsFtsMessageStateSuccess_def IsFtsMessageStateFailed_def

text \<open>A number that every transition decreases.\<close>

definition state_rank :: "FtsMessageState \<Rightarrow> nat" where
  "state_rank s = (if awaiting_retry s then 3 else if in_flight s then 2 else 1)"

definition seg_rank :: "int \<Rightarrow> FtsMessageState \<times> int \<Rightarrow> nat" where
  "seg_rank R = (\<lambda>(s, n).
     case kind_of s of
       None \<Rightarrow> 0
     | Some k \<Rightarrow> (if k = Probe then 4 * nat (R + 1) else 0) + 4 * nat (R - n) + state_rank s)"

lemma fts_trans_rank:
  "fts_trans R (s, n) (s', n') \<Longrightarrow> 0 \<le> n \<Longrightarrow> n \<le> R \<Longrightarrow> 0 \<le> n' \<and> n' \<le> R \<and> seg_rank R (s', n') < seg_rank R (s, n)"
proof (erule fts_transE)
qed (auto simp: seg_rank_def state_rank_def state_sets split: if_splits)

section \<open>Well-formed segments\<close>

definition polled :: "fts_segment_info \<Rightarrow> bool" where
  "polled info \<longleftrightarrow> poll_events info AND (POLLIN OR POLLOUT) \<noteq> 0"

text \<open>
  Once the connection is up, the segment waits for one kind of event at a time, and what the last
  poll reported is not mistaken for both.
\<close>

definition io_ok :: "fts_segment_info \<Rightarrow> bool" where
  "io_ok info \<longleftrightarrow> (in_flight (msg_state info) \<and> PQstatus (conn info) = CONNECTION_OK \<longrightarrow>
     poll_events info \<in> {0, POLLIN, POLLOUT} \<and>
     (polled info \<or> poll_revents info AND POLLIN = 0 \<or> poll_revents info AND POLLOUT = 0))"

text \<open>Input that the receiving step will read is not being waited for any more.\<close>

definition input_ok :: "fts_segment_info \<Rightarrow> bool" where
  "input_ok info \<longleftrightarrow> (in_flight (msg_state info) \<and> PQstatus (conn info) = CONNECTION_OK \<and> polled info \<longrightarrow>
     poll_revents info AND POLLIN = 0)"

text \<open>
  What the prober relies on in libpq: the status of a connection becomes \<^verbatim>\<open>CONNECTION_OK\<close> when, and only
  when, \<^verbatim>\<open>PQconnectPoll\<close> returns \<^verbatim>\<open>PGRES_POLLING_OK\<close>.
\<close>

definition libpq_ok :: "seg_env \<Rightarrow> bool" where
  "libpq_ok env \<longleftrightarrow>
     (\<forall>s c. PQconnectStart env s = Some c \<longrightarrow> conn_status c \<noteq> CONNECTION_OK) \<and>
     (\<forall>c. conn_status (snd (PQconnectPoll env c)) = CONNECTION_OK \<longleftrightarrow> fst (PQconnectPoll env c) = PGRES_POLLING_OK)"

definition seg_ok :: "int \<Rightarrow> bool \<Rightarrow> fts_segment_info \<Rightarrow> bool" where
  "seg_ok R mirrors info \<longleftrightarrow>
     0 \<le> retry_count info \<and> retry_count info \<le> R \<and> primary_cdbinfo info \<noteq> None \<and>
     (mirrors \<longrightarrow> mirror_cdbinfo info \<noteq> None) \<and>
     (polled info \<longrightarrow> conn info \<noteq> None \<and> (in_flight (msg_state info) \<or> IsFtsMessageStateFailed (msg_state info))) \<and>
     (isPrimaryAlive (probe_result info) \<longleftrightarrow> IsFtsMessageStateSuccess (msg_state info)) \<and>
     (\<not> mirrors \<longrightarrow> kind_of (msg_state info) \<in> {None, Some Probe}) \<and>
     (awaiting_retry (msg_state info) \<longrightarrow> conn info = None) \<and> io_ok info"

definition seg_key :: "fts_segment_info \<Rightarrow> FtsMessageState \<times> int" where
  "seg_key info = (msg_state info, retry_count info)"

text \<open>A step of one segment: it follows the state machine and keeps the segment well-formed.\<close>

definition seg_step :: "int \<Rightarrow> bool \<Rightarrow> fts_segment_info \<Rightarrow> fts_segment_info \<Rightarrow> bool" where
  "seg_step R mirrors info info' \<longleftrightarrow>
     seg_ok R mirrors info' \<and> (fts_trans R)\<^sup>*\<^sup>* (seg_key info) (seg_key info') \<and>
     {primary_cdbinfo info', mirror_cdbinfo info'} = {primary_cdbinfo info, mirror_cdbinfo info}"

lemma seg_step_refl: "seg_ok R mirrors info \<Longrightarrow> seg_step R mirrors info info"
  by (simp add: seg_step_def)

lemma seg_step_trans: "seg_step R mirrors a b \<Longrightarrow> seg_step R mirrors b c \<Longrightarrow> seg_step R mirrors a c"
  unfolding seg_step_def by (metis rtranclp_trans)

text \<open>The errors that only the environment can cause.\<close>

definition env_errors :: "pg_error set" where
  "env_errors = {ERROR ''FTS: cannot create libpq connection object, possibly out of memory'',
     ERROR ''FTS: invalid response to PQconnectPoll'', ERROR ''FTS: ftsPoll() failed''}"

lemma set_failed_simps:
  "in_flight (msg_state info) \<or> IsFtsMessageStateFailed (msg_state info) \<Longrightarrow>
   \<exists>s. set_failed info = Inr (info\<lparr>msg_state := s\<rparr>) \<and> IsFtsMessageStateFailed s \<and> kind_of s = kind_of (msg_state info)"
  by (cases "msg_state info") (auto simp: set_failed_def state_sets)

section \<open>Every step of a round keeps the segments well-formed\<close>

definition good :: "int \<Rightarrow> bool \<Rightarrow> fts_segment_info \<Rightarrow> fts_segment_info result \<Rightarrow> bool" where
  "good R mirrors info r \<longleftrightarrow>
     (case r of Inr info' \<Rightarrow> seg_step R mirrors info info' | Inl e \<Rightarrow> mirrors \<longrightarrow> e \<in> env_errors)"

text \<open>The record is the same up to what concerns the connection.\<close>

definition same_seg :: "fts_segment_info \<Rightarrow> fts_segment_info \<Rightarrow> bool" where
  "same_seg info info' \<longleftrightarrow>
     seg_key info' = seg_key info \<and> probe_result info' = probe_result info \<and>
     primary_cdbinfo info' = primary_cdbinfo info \<and> mirror_cdbinfo info' = mirror_cdbinfo info"

lemma good_same:
  assumes "seg_ok R mirrors info" and "same_seg info info'" and "io_ok info'"
    and "polled info' \<Longrightarrow> conn info' \<noteq> None \<and> (in_flight (msg_state info) \<or> IsFtsMessageStateFailed (msg_state info))"
    and "awaiting_retry (msg_state info) \<Longrightarrow> conn info' = conn info"
  shows "good R mirrors info (Inr info')"
  using assms by (auto simp: good_def seg_step_def seg_ok_def same_seg_def seg_key_def)

lemma state_disjoint:
  "in_flight s \<Longrightarrow> \<not> IsFtsMessageStateSuccess s" "IsFtsMessageStateFailed s \<Longrightarrow> \<not> IsFtsMessageStateSuccess s"
  "IsFtsMessageStateFailed s \<Longrightarrow> \<not> in_flight s" "IsFtsMessageStateSuccess s \<Longrightarrow> \<not> in_flight s"
  "in_flight s \<Longrightarrow> \<not> awaiting_retry s" "IsFtsMessageStateFailed s \<Longrightarrow> \<not> awaiting_retry s"
  "IsFtsMessageStateSuccess s \<Longrightarrow> \<not> awaiting_retry s"
  by (auto simp: state_sets)

lemma waiting_disjoint:
  "awaiting_retry s \<Longrightarrow> \<not> in_flight s" "awaiting_retry s \<Longrightarrow> \<not> IsFtsMessageStateSuccess s"
  "awaiting_retry s \<Longrightarrow> \<not> IsFtsMessageStateFailed s"
  by (auto simp: state_sets)

lemma io_ok_not_in_flight: "\<not> in_flight (msg_state info) \<Longrightarrow> io_ok info"
  by (simp add: io_ok_def)

lemma failed_step:
  assumes "seg_ok R mirrors info" and "same_seg info info'" and "polled info' \<Longrightarrow> conn info' \<noteq> None"
    and "in_flight (msg_state info) \<or> IsFtsMessageStateFailed (msg_state info)"
  shows "\<exists>s. set_failed info' = Inr (info'\<lparr>msg_state := s\<rparr>) \<and> IsFtsMessageStateFailed s \<and> seg_step R mirrors info (info'\<lparr>msg_state := s\<rparr>)"
proof -
  have eq: "msg_state info' = msg_state info" "retry_count info' = retry_count info"
    using assms(2) by (auto simp: same_seg_def seg_key_def)
  obtain s where s: "set_failed info' = Inr (info'\<lparr>msg_state := s\<rparr>)" "IsFtsMessageStateFailed s"
    "kind_of s = kind_of (msg_state info)"
    using set_failed_simps [of info'] assms(4) eq by auto
  have "(fts_trans R)\<^sup>*\<^sup>* (seg_key info) (seg_key (info'\<lparr>msg_state := s\<rparr>))"
  proof (cases "in_flight (msg_state info)")
    case True
    with s(2,3) eq show ?thesis by (auto simp: seg_key_def intro: fts_trans.fail)
  next
    case False
    with assms(4) have "IsFtsMessageStateFailed (msg_state info)" by blast
    with s(2,3) have "s = msg_state info" by (auto simp: state_sets)
    with eq show ?thesis by (simp add: seg_key_def)
  qed
  moreover have "\<not> IsFtsMessageStateSuccess (msg_state info)" using assms(4) state_disjoint by blast
  then have "seg_ok R mirrors (info'\<lparr>msg_state := s\<rparr>)"
    using assms(1-3) s(2,3) eq state_disjoint(2,3,6) [OF s(2)] io_ok_not_in_flight [of "info'\<lparr>msg_state := s\<rparr>"]
    unfolding seg_ok_def same_seg_def by (simp add: polled_def)
  ultimately show ?thesis using s(1,2) assms(2) by (auto simp: seg_step_def same_seg_def)
qed

lemma good_failed:
  assumes "seg_ok R mirrors info" and "same_seg info info'" and "polled info' \<Longrightarrow> conn info' \<noteq> None"
    and "in_flight (msg_state info) \<or> IsFtsMessageStateFailed (msg_state info)"
  shows "good R mirrors info (set_failed info')"
  using failed_step [OF assms] by (auto simp: good_def)

lemma good_refl: "seg_ok R mirrors info \<Longrightarrow> good R mirrors info (Inr info)"
  by (simp add: good_def seg_step_refl)

lemma good_bind:
  assumes "good R mirrors info r" and "\<And>info'. seg_step R mirrors info info' \<Longrightarrow> r = Inr info' \<Longrightarrow> good R mirrors info' (f info')"
  shows "good R mirrors info (bindE r f)"
proof (cases r)
  case (Inl e)
  with assms(1) show ?thesis by (simp add: good_def)
next
  case (Inr info')
  with assms have "seg_step R mirrors info info'" "good R mirrors info' (f info')" by (auto simp: good_def)
  with Inr show ?thesis by (cases "f info'") (auto simp: good_def intro: seg_step_trans)
qed

lemma good_after: "good R mirrors info (Inr info') \<Longrightarrow> good R mirrors info' r \<Longrightarrow> good R mirrors info r"
  using good_bind [of R mirrors info "Inr info'" "\<lambda>_. r"] by auto

lemma good_log:
  "(mirrors \<Longrightarrow> p \<noteq> None) \<Longrightarrow> good R mirrors info (Inr info') \<Longrightarrow> good R mirrors info (log_with b p info')"
  by (cases p) (auto simp: good_def log_with_def deref_def)

lemma good_if: "(c \<Longrightarrow> good R mirrors info a) \<Longrightarrow> (\<not> c \<Longrightarrow> good R mirrors info b) \<Longrightarrow> good R mirrors info (if c then a else b)"
  by simp

lemma good_option:
  "(x = None \<Longrightarrow> good R mirrors info a) \<Longrightarrow> (\<And>y. x = Some y \<Longrightarrow> good R mirrors info (f y)) \<Longrightarrow>
   good R mirrors info (case x of None \<Rightarrow> a | Some y \<Rightarrow> f y)"
  by (cases x) simp_all

lemma good_prod:
  "(\<And>y z. x = (y, z) \<Longrightarrow> good R mirrors info (f y z)) \<Longrightarrow> good R mirrors info (case x of (y, z) \<Rightarrow> f y z)"
  by (cases x) simp

lemmas good_cases = good_if good_option good_prod

lemma good_env: "e \<in> env_errors \<Longrightarrow> good R mirrors info (Inl e)"
  by (simp add: good_def)

lemmas good_record = same_seg_def seg_key_def polled_def

lemma good_unchanged:
  assumes "seg_ok R mirrors info" and "same_seg info info'"
    and "poll_events info' = poll_events info" "poll_revents info' = poll_revents info" "conn info' = conn info"
  shows "good R mirrors info (Inr info')"
proof (rule good_same [OF assms(1,2)])
  have "msg_state info' = msg_state info" using assms(2) by (simp add: same_seg_def seg_key_def)
  with assms show "io_ok info'" by (simp add: seg_ok_def io_ok_def polled_def)
  show "conn info' \<noteq> None \<and> (in_flight (msg_state info) \<or> IsFtsMessageStateFailed (msg_state info))" if "polled info'"
    using assms that by (simp add: seg_ok_def polled_def)
qed (rule assms(5))

lemma good_restart:
  assumes "seg_ok R mirrors info"
  shows "good R mirrors info (checkIfFailedDueToNormalRestart g info)"
proof -
  have m: "mirrors \<Longrightarrow> mirror_cdbinfo info \<noteq> None" using assms by (simp add: seg_ok_def)
  note ok = good_unchanged [OF assms]
  show ?thesis
    unfolding checkIfFailedDueToNormalRestart_def Let_def
    by (intro good_cases good_log m ok) (simp_all add: good_record)
qed

lemma good_ConnectStart:
  assumes "seg_ok R mirrors info" and "in_flight (msg_state info)" and "conn info = None" and "libpq_ok env"
  shows "good R mirrors info (bindE (ftsConnectStart env info) (\<lambda>(started, info2). if started then Inr info2 else set_failed info2))"
proof -
  from assms(1) obtain p where p: "primary_cdbinfo info = Some p" by (auto simp: seg_ok_def)
  have start: "conn_status c \<noteq> CONNECTION_OK" if "PQconnectStart env (ftsConninfo p) = Some c" for c
    using assms(4) that by (simp add: libpq_ok_def)
  have ok: "good R mirrors info (Inr info')" if "same_seg info info'" "conn info' \<noteq> None" "PQstatus (conn info') \<noteq> CONNECTION_OK" for info'
    using assms that state_disjoint(5) by (intro good_same) (auto simp: io_ok_def)
  have fail: "good R mirrors info (set_failed info')" if "same_seg info info'" "conn info' \<noteq> None" for info'
    using assms that by (intro good_failed) auto
  show ?thesis
  proof (cases "PQconnectStart env (ftsConninfo p)")
    case None
    then show ?thesis by (simp add: ftsConnectStart_def p deref_def Let_def good_env env_errors_def)
  next
    case (Some c)
    with start [OF Some] show ?thesis
      by (simp add: ftsConnectStart_def p deref_def Let_def ok fail good_record PQstatus_def)
  qed
qed

lemma good_connect_poll:
  assumes "seg_ok R mirrors info" and "in_flight (msg_state info)" and "libpq_ok env"
  shows "good R mirrors info (connect_poll g env c info)"
proof -
  obtain res c1 where c1: "PQconnectPoll env c = (res, c1)" by force
  with assms(3) have status: "conn_status c1 = CONNECTION_OK \<longleftrightarrow> res = PGRES_POLLING_OK"
    unfolding libpq_ok_def by (metis fst_conv snd_conv)
  have same: "good R mirrors info (Inr info')" if "same_seg info info'" "conn info' = Some c1" "io_ok info'" for info'
    using assms that state_disjoint(5) by (intro good_same) auto
  have fail: "good R mirrors info (bindE (set_failed info') (checkIfFailedDueToNormalRestart g))"
    if "same_seg info info'" "conn info' = Some c1" for info'
    using assms that by (intro good_bind good_failed good_restart) (auto simp: seg_step_def)
  have up: "io_ok (info\<lparr>conn := Some c1, poll_events := POLLOUT\<rparr>)"
    by (simp add: io_ok_def polled_def POLLIN_def POLLOUT_def)
  have wait: "io_ok (info\<lparr>conn := Some c1, poll_events := x\<rparr>)" if "res \<noteq> PGRES_POLLING_OK" for x
    using that status by (simp add: io_ok_def PQstatus_def)
  show ?thesis
    unfolding connect_poll_def c1 prod.case Let_def
    using same up wait fail by (cases res) (simp_all add: good_record good_env env_errors_def)
qed

lemma good_connect:
  assumes "seg_ok R mirrors info" and "libpq_ok env"
  shows "good R mirrors info (connect_seg g env info)"
proof -
  let ?info = "info\<lparr>restart_state := PM_NOT_IN_RESTART\<rparr>"
  note refl = good_refl [OF assms(1)]
  have step: "good R mirrors info (Inr ?info)" using assms(1) by (rule good_unchanged) (simp_all add: good_record)
  then have ok: "seg_ok R mirrors ?info" by (simp add: good_def seg_step_def)
  show ?thesis
  proof (cases "in_flight (msg_state info)")
    case True
    then have start: "good R mirrors info (bindE (ftsConnectStart env ?info) (\<lambda>(started, info2). if started then Inr info2 else set_failed info2))"
      if "conn ?info = None" using ok that assms(2) by (intro good_after [OF step] good_ConnectStart) simp_all
    have poll: "good R mirrors info (connect_poll g env c ?info)" for c
      using True ok assms(2) by (intro good_after [OF step] good_connect_poll) simp_all
    show ?thesis
      unfolding connect_seg_def Let_def by (intro good_cases refl step poll start)
  qed (use refl in \<open>simp add: connect_seg_def\<close>)
qed

lemma polled_single: "poll_events info \<in> {0, POLLIN, POLLOUT} \<Longrightarrow> polled info \<longleftrightarrow> poll_events info \<noteq> 0"
  by (auto simp: polled_def POLLIN_def POLLOUT_def)

lemma poll_result_single:
  assumes "e \<in> {POLLIN, POLLOUT}" and "poll_result n e x AND e \<noteq> 0"
  shows "poll_result n e x AND POLLIN = 0 \<or> poll_result n e x AND POLLOUT = 0"
  using assms
  by (auto simp: poll_result_def POLLIN_def POLLOUT_def POLLERR_def POLLHUP_def POLLNVAL_def and.assoc split: if_splits)

lemma good_CheckTimeout:
  assumes "seg_ok R mirrors info" and "in_flight (msg_state info) \<or> IsFtsMessageStateFailed (msg_state info)"
  shows "good R mirrors info (ftsCheckTimeout g now info)"
proof -
  have "polled info \<Longrightarrow> conn info \<noteq> None" using assms(1) by (simp add: seg_ok_def)
  then have "good R mirrors info (set_failed (info\<lparr>timeout_count := 0\<rparr>))"
    using assms by (intro good_failed) (simp_all add: good_record)
  with assms(1) show ?thesis by (simp add: ftsCheckTimeout_def good_refl)
qed

text \<open>The first part of the body of the polling loop: the evaluation of the events.\<close>

lemma good_events:
  fixes info env g
  defines "rv \<equiv> poll_result (poll_nready env) (poll_events info) (poll_ready env (nat (fd_index info)))"
  defines "r \<equiv> (if rv AND poll_events info \<noteq> 0 then Inr (info\<lparr>poll_revents := rv, poll_events := 0\<rparr>)
      else if rv \<noteq> 0 then bindE (set_failed (info\<lparr>poll_revents := rv\<rparr>)) (log_with (log_on g) (conn info))
      else Inr (info\<lparr>poll_revents := rv\<rparr>))"
  assumes ok: "seg_ok R mirrors info" and "polled info"
  shows "good R mirrors info r"
    and "r = Inr info2 \<Longrightarrow> input_ok info2 \<and> (in_flight (msg_state info2) \<or> IsFtsMessageStateFailed (msg_state info2))"
proof -
  let ?info = "info\<lparr>poll_revents := rv\<rparr>"
  have st: "conn info \<noteq> None" "in_flight (msg_state info) \<or> IsFtsMessageStateFailed (msg_state info)"
    using ok assms(4) by (auto simp: seg_ok_def)
  have single: "poll_events info \<in> {0, POLLIN, POLLOUT}" if "in_flight (msg_state info)" "PQstatus (conn info) = CONNECTION_OK"
    using ok that by (auto simp: seg_ok_def io_ok_def)
  have io1: "io_ok (info\<lparr>poll_revents := rv, poll_events := 0\<rparr>)" if "rv AND poll_events info \<noteq> 0"
    using that single poll_result_single [of "poll_events info"] unfolding io_ok_def rv_def by auto
  have io2: "io_ok ?info" using single assms(4) by (auto simp: io_ok_def polled_def)
  have fail: "\<exists>s. set_failed ?info = Inr (?info\<lparr>msg_state := s\<rparr>) \<and> IsFtsMessageStateFailed s \<and> seg_step R mirrors info (?info\<lparr>msg_state := s\<rparr>)"
    using ok st by (intro failed_step) (simp_all add: good_record)
  show "good R mirrors info r"
  proof -
    have "good R mirrors info (Inr (info\<lparr>poll_revents := rv, poll_events := 0\<rparr>))" if "rv AND poll_events info \<noteq> 0"
      using ok st io1 that by (intro good_same) (simp_all add: good_record)
    moreover have "good R mirrors info (Inr ?info)" using ok st io2 by (intro good_same) (simp_all add: good_record)
    moreover have "good R mirrors info (bindE (set_failed ?info) (log_with (log_on g) (conn info)))"
      using fail st(1) by (auto simp: good_def)
    ultimately show ?thesis unfolding r_def by (intro good_if)
  qed
  show "input_ok info2 \<and> (in_flight (msg_state info2) \<or> IsFtsMessageStateFailed (msg_state info2))" if "r = Inr info2"
  proof (cases "rv = 0 \<or> rv AND poll_events info \<noteq> 0")
    case True
    with that st show ?thesis by (auto simp: r_def input_ok_def polled_def split: if_splits)
  next
    case False
    with that fail st(1) have "IsFtsMessageStateFailed (msg_state info2)" by (auto simp: r_def)
    then show ?thesis by (auto simp: input_ok_def state_disjoint(3))
  qed
qed

lemma CheckTimeout_input:
  assumes "input_ok info" and "ftsCheckTimeout g now info = Inr info'"
    and "in_flight (msg_state info) \<or> IsFtsMessageStateFailed (msg_state info)"
  shows "input_ok info'"
proof -
  let ?info = "info\<lparr>timeout_count := 0\<rparr>"
  obtain s where "set_failed ?info = Inr (?info\<lparr>msg_state := s\<rparr>)" "IsFtsMessageStateFailed s"
    using set_failed_simps [of ?info] assms(3) by auto
  with assms(1,2) show ?thesis by (auto simp: ftsCheckTimeout_def input_ok_def state_disjoint(3) split: if_splits)
qed

lemma good_poll:
  assumes "seg_ok R mirrors info"
  shows "good R mirrors info (poll_seg g env info)" and "poll_seg g env info = Inr info' \<Longrightarrow> polled info \<Longrightarrow> input_ok info'"
proof -
  define rv where "rv = poll_result (poll_nready env) (poll_events info) (poll_ready env (nat (fd_index info)))"
  define r where "r = (if rv AND poll_events info \<noteq> 0 then Inr (info\<lparr>poll_revents := rv, poll_events := 0\<rparr>)
      else if rv \<noteq> 0 then bindE (set_failed (info\<lparr>poll_revents := rv\<rparr>)) (log_with (log_on g) (conn info))
      else Inr (info\<lparr>poll_revents := rv\<rparr>))"
  define count where "count = (\<lambda>info2 :: fts_segment_info. if \<not> IsFtsMessageStateSuccess (msg_state info2) \<and> poll_nready env = 0
      then info2\<lparr>timeout_count := timeout_count info2 + 1\<rparr> else info2)"
  have run: "poll_seg g env info = bindE r (\<lambda>info2. ftsCheckTimeout g (poll_time env) (count info2))" if "polled info"
    using that by (simp add: poll_seg_def polled_def Let_def r_def rv_def count_def cong: if_cong)
  have count: "msg_state (count i) = msg_state i" "input_ok (count i) = input_ok i" for i
    by (simp_all add: count_def input_ok_def polled_def)
  have good_count: "good R mirrors i (Inr (count i))" if "seg_ok R mirrors i" for i
    using that by (rule good_unchanged) (simp_all add: good_record count_def)
  note ev = good_events [OF assms, of env g, folded rv_def, folded r_def]
  have "good R mirrors info (bindE r (\<lambda>info2. ftsCheckTimeout g (poll_time env) (count info2)))" if p: "polled info"
  proof (rule good_bind [OF ev(1) [OF p]])
    fix i assume "seg_step R mirrors info i" and i: "r = Inr i"
    then have ok: "seg_ok R mirrors i" by (simp add: seg_step_def)
    then have "seg_ok R mirrors (count i)" using good_count by (auto simp: good_def seg_step_def)
    then show "good R mirrors i (ftsCheckTimeout g (poll_time env) (count i))"
      using ev(2) [OF p i] count by (intro good_after [OF good_count [OF ok]] good_CheckTimeout) simp_all
  qed
  moreover have "poll_seg g env info = Inr info" if "\<not> polled info" using that by (simp add: poll_seg_def polled_def)
  ultimately show "good R mirrors info (poll_seg g env info)"
    using run good_refl [OF assms] by (cases "polled info") simp_all
  show "input_ok info'" if p: "poll_seg g env info = Inr info'" "polled info"
  proof -
    from p run obtain i where i: "r = Inr i" "ftsCheckTimeout g (poll_time env) (count i) = Inr info'"
      by (auto simp: bindE_eq_Inr)
    from ev(2) [OF p(2) i(1)] count show ?thesis by (intro CheckTimeout_input [OF _ i(2)]) simp_all
  qed
qed

lemma poll_input:
  "seg_ok R mirrors info \<Longrightarrow> poll_seg g env info = Inr info' \<Longrightarrow> input_ok info'"
  using good_poll(2) [of R mirrors info g env info'] by (cases "polled info") (auto simp: poll_seg_def polled_def input_ok_def)

lemma good_send:
  assumes "seg_ok R mirrors info" and "input_ok info"
  shows "good R mirrors info (send_seg env info)" and "send_seg env info = Inr info' \<Longrightarrow> input_ok info'"
proof -
  note refl = good_refl [OF assms(1)]
  from assms obtain p where p: "primary_cdbinfo info = Some p" by (auto simp: seg_ok_def)
  have sent: "good R mirrors info (Inr info')" if "in_flight (msg_state info)" "same_seg info info'" "conn info' \<noteq> None" "io_ok info'" for info'
    using assms that state_disjoint(5) by (intro good_same) simp_all
  have fail: "good R mirrors info (set_failed info')" if "in_flight (msg_state info)" "same_seg info info'" "conn info' \<noteq> None" for info'
    using assms that by (intro good_failed) simp_all
  show "good R mirrors info (send_seg env info)"
    unfolding send_seg_def p deref_simps bindE_simps Let_def
    by (intro good_cases refl sent fail) (simp_all add: good_record io_ok_def POLLIN_def)
  show "input_ok info'" if "send_seg env info = Inr info'"
  proof (cases "info' = info")
    case False
    with that obtain c where c: "in_flight (msg_state info)" "conn info = Some c" "conn_status c = CONNECTION_OK"
      "poll_revents info AND POLLOUT \<noteq> 0"
      by (auto simp: send_seg_def split: if_splits option.splits)
    with assms have "poll_revents info AND POLLIN = 0" by (auto simp: seg_ok_def io_ok_def input_ok_def PQstatus_def)
    moreover have "poll_revents info' = poll_revents info"
      using that c(1) set_failed_simps [of "info\<lparr>conn := Some _\<rparr>"]
      by (auto simp: send_seg_def p set_failed_def bindE_eq_Inr Let_def split: if_splits option.splits prod.splits)
    ultimately show ?thesis by (simp add: input_ok_def)
  qed (use assms in simp)
qed

lemma next_success:
  "in_flight s \<Longrightarrow> \<exists>s'. nextSuccessState s = Inr s' \<and> IsFtsMessageStateSuccess s' \<and> kind_of s' = kind_of s"
  by (cases s) (auto simp: state_sets)

lemma good_receive:
  assumes "seg_ok R mirrors info" and "input_ok info"
  shows "good R mirrors info (receive_seg env info)"
proof -
  note refl = good_refl [OF assms(1)]
  have same: "good R mirrors info (Inr (info\<lparr>conn := Some c2\<rparr>))"
    if "in_flight (msg_state info)" "conn info = Some c" "\<not> (conn_status c \<noteq> CONNECTION_OK \<or> x)" for c c2 x
    using assms that state_disjoint(5) by (intro good_same) (auto simp: good_record io_ok_def seg_ok_def PQstatus_def)
  have fail: "good R mirrors info (set_failed (info\<lparr>conn := Some c\<rparr>))" if "in_flight (msg_state info)" for c
    using assms that by (intro good_failed) (simp_all add: good_record)
  have succeed: "good R mirrors info (bindE (nextSuccessState (msg_state (info\<lparr>conn := Some c2\<rparr>)))
        (\<lambda>s. Inr ((probeRecordResponse (info\<lparr>conn := Some c2\<rparr>) r)\<lparr>msg_state := s\<rparr>)))"
    if "in_flight (msg_state info)" "conn info = Some c" "\<not> (conn_status c \<noteq> CONNECTION_OK \<or> poll_revents info AND POLLIN = 0)" for c c2 r
  proof -
    note st = that
    have np: "\<not> polled info" using assms(2) that by (auto simp: input_ok_def PQstatus_def)
    obtain s where s: "nextSuccessState (msg_state info) = Inr s" "IsFtsMessageStateSuccess s" "kind_of s = kind_of (msg_state info)"
      using next_success [OF st(1)] by blast
    let ?info = "(probeRecordResponse (info\<lparr>conn := Some c2\<rparr>) r)\<lparr>msg_state := s\<rparr>"
    have "(fts_trans R)\<^sup>*\<^sup>* (seg_key info) (seg_key ?info)"
      using st(1) s(2,3) by (auto simp: seg_key_def probeRecordResponse_def intro: fts_trans.succeed)
    moreover have "seg_ok R mirrors ?info"
      using assms(1) np s(2,3) io_ok_not_in_flight [of ?info] state_disjoint(4,7) [OF s(2)]
      by (simp add: seg_ok_def probeRecordResponse_def polled_def)
    ultimately show ?thesis using s(1) by (simp add: good_def seg_step_def probeRecordResponse_def)
  qed
  show ?thesis
    unfolding receive_seg_def Let_def
    by (intro good_cases refl fail; (rule same succeed, assumption+)?)
qed

lemma good_retryForFtsFailed:
  assumes "seg_ok R mirrors info" and "R = gp_fts_probe_retries g"
    and that: "msg_state info = FTS_PROBE_SUCCESS \<or> IsFtsMessageStateFailed (msg_state info)"
  shows "good R mirrors info (Inr (retryForFtsFailed g now info))"
proof (cases "retry_count info = R")
  case True
  with good_refl [OF assms(1)] assms(2) show ?thesis by (simp add: retryForFtsFailed_def)
next
  case False
  let ?info = "retryForFtsFailed g now info"
  have aw: "awaiting_retry (msg_state ?info)" "kind_of (msg_state ?info) = kind_of (msg_state info)"
    "retry_count ?info = retry_count info + 1"
    using that False assms(2) by (auto simp: retryForFtsFailed_def state_sets)
  have "(fts_trans R)\<^sup>*\<^sup>* (seg_key info) (seg_key ?info)"
    using fts_trans.retry [OF _ False aw(1,2)] that aw(3) by (auto simp: seg_key_def)
  moreover have "\<not> polled ?info" "\<not> isPrimaryAlive (probe_result ?info)" "\<not> IsFtsMessageStateSuccess (msg_state ?info)"
    "\<not> in_flight (msg_state ?info)"
    using False assms(2) aw(1) by (auto simp: zero_result_def retryForFtsFailed_def polled_def state_sets)
  then have "seg_ok R mirrors ?info"
    using assms(1,2) aw False io_ok_not_in_flight [of ?info]
    by (simp add: seg_ok_def) (simp add: retryForFtsFailed_def)
  ultimately show ?thesis by (simp add: good_def seg_step_def) (simp add: retryForFtsFailed_def)
qed

lemma good_next_attempt:
  assumes "seg_ok R mirrors info"
    and that: "awaiting_retry (msg_state info)" "in_flight s" "kind_of s = kind_of (msg_state info)"
  shows "good R mirrors info (Inr (info\<lparr>msg_state := s\<rparr>))"
proof -
  let ?info = "info\<lparr>msg_state := s\<rparr>"
  have "\<not> polled info" "\<not> isPrimaryAlive (probe_result info)" "conn info = None"
    using assms(1) that(1) waiting_disjoint [OF that(1)] by (simp_all add: seg_ok_def)
  moreover from this have "io_ok ?info" by (simp add: io_ok_def PQstatus_def)
  ultimately have "seg_ok R mirrors ?info"
    using assms(1) that(3) state_disjoint(1,5) [OF that(2)] by (simp add: seg_ok_def polled_def)
  moreover have "(fts_trans R)\<^sup>*\<^sup>* (seg_key info) (seg_key ?info)"
    using fts_trans.attempt [OF that] by (auto simp: seg_key_def)
  ultimately show ?thesis by (simp add: good_def seg_step_def)
qed

lemma good_retry:
  assumes "seg_ok R mirrors info" and "R = gp_fts_probe_retries g"
  shows "good R mirrors info (retry_seg g mirrors now info)"
proof -
  note refl = good_refl [OF assms(1)] and again = good_retryForFtsFailed [OF assms] and attempt = good_next_attempt [OF assms(1)]
  have mirror: "\<exists>m. mirror_cdbinfo info = Some m" if mirrors using assms(1) that by (auto simp: seg_ok_def)
  consider (succ) "msg_state info = FTS_PROBE_SUCCESS" | (fail) "IsFtsMessageStateFailed (msg_state info)" "msg_state info \<noteq> FTS_PROBE_SUCCESS"
    | (wait) "awaiting_retry (msg_state info)"
    | (other) "msg_state info \<noteq> FTS_PROBE_SUCCESS" "\<not> IsFtsMessageStateFailed (msg_state info)" "\<not> awaiting_retry (msg_state info)"
    by blast
  then show "good R mirrors info (retry_seg g mirrors now info)"
  proof cases
    case succ
    then have "good R mirrors info (Inr (retryForFtsFailed g now info))" by (simp add: again)
    with succ refl mirror show ?thesis by (cases mirrors) (auto simp: retry_seg_def)
  next
    case fail
    then show ?thesis by (simp add: retry_seg_def again)
  next
    case wait
    define s where "s = (if msg_state info = FTS_PROBE_RETRY_WAIT then FTS_PROBE_SEGMENT
      else if msg_state info = FTS_SYNCREP_OFF_RETRY_WAIT then FTS_SYNCREP_OFF_SEGMENT else FTS_PROMOTE_SEGMENT)"
    have "in_flight s" "kind_of s = kind_of (msg_state info)"
      using wait by (auto simp: s_def in_flight_def awaiting_retry_def)
    then have "good R mirrors info (Inr (info\<lparr>msg_state := s\<rparr>))" by (rule attempt [OF wait])
    moreover have "msg_state info \<noteq> FTS_PROBE_SUCCESS" "\<not> IsFtsMessageStateFailed (msg_state info)"
      using wait by (auto simp: state_sets)
    ultimately show ?thesis
      using wait refl unfolding retry_seg_def awaiting_retry_def s_def by (simp only: if_False if_True good_if simp_thms split: if_split)
  next
    case other
    then show ?thesis using refl by (simp add: retry_seg_def awaiting_retry_def)
  qed
qed

lemma retry_failed:
  "retry_seg g mirrors now info = Inr info' \<Longrightarrow> IsFtsMessageStateFailed (msg_state info') \<Longrightarrow>
   retry_count info' = gp_fts_probe_retries g"
  by (auto simp: retry_seg_def retryForFtsFailed_def state_sets bindE_eq_Inr split: if_splits)

section \<open>Processing a response\<close>

text \<open>The segments of a pair are in the catalog, with content ids that a bitmapset can hold.\<close>

definition known :: "fts_shared \<Rightarrow> fts_segment_info \<Rightarrow> bool" where
  "known sh info \<longleftrightarrow>
     (\<forall>s. Some s \<in> {primary_cdbinfo info, mirror_cdbinfo info} \<longrightarrow>
        dbid s \<in> dom (gp_segment_configuration sh) \<and> 0 \<le> segindex s)"

lemma UpdateConfig_ok:
  assumes "d \<in> dom (gp_segment_configuration sh)"
  shows "\<exists>sh'. probeWalRepUpdateConfig d content r alive insync sh = Inr sh' \<and>
    gp_segment_configuration sh' = (gp_segment_configuration sh)(d \<mapsto> (r, status_char alive, mode_char insync)) \<and>
    failedContentIds sh' = failedContentIds sh \<and> fts_status sh' = fts_status sh \<and> promoted_signals sh' = promoted_signals sh"
  using assms by (auto simp: probeWalRepUpdateConfig_def Let_def)

lemma updateConfiguration_ok:
  assumes "dbid p \<in> dom (gp_segment_configuration sh)" and "dbid m \<in> dom (gp_segment_configuration sh)"
  shows "\<exists>upd sh'. updateConfiguration p m pr mr insync pa ma sh = Inr (upd, sh') \<and>
    gp_segment_configuration sh' = (gp_segment_configuration sh)
      (dbid p := (if pa \<noteq> SEGMENT_IS_ALIVE p \<or> insync \<noteq> SEGMENT_IS_IN_SYNC p
                  then Some (pr, status_char pa, mode_char insync) else gp_segment_configuration sh (dbid p)),
       dbid m := (if ma \<noteq> SEGMENT_IS_ALIVE m \<or> insync \<noteq> SEGMENT_IS_IN_SYNC p
                  then Some (mr, status_char ma, mode_char insync)
                  else if dbid m = dbid p \<and> (pa \<noteq> SEGMENT_IS_ALIVE p \<or> insync \<noteq> SEGMENT_IS_IN_SYNC p)
                  then Some (pr, status_char pa, mode_char insync) else gp_segment_configuration sh (dbid m))) \<and>
    upd = (pa \<noteq> SEGMENT_IS_ALIVE p \<or> ma \<noteq> SEGMENT_IS_ALIVE m \<or> insync \<noteq> SEGMENT_IS_IN_SYNC p) \<and>
    failedContentIds sh' = failedContentIds sh \<and> promoted_signals sh' = promoted_signals sh"
proof -
  define first where "first = (pa \<noteq> SEGMENT_IS_ALIVE p \<or> insync \<noteq> SEGMENT_IS_IN_SYNC p)"
  define second where "second = (ma \<noteq> SEGMENT_IS_ALIVE m \<or> insync \<noteq> SEGMENT_IS_IN_SYNC p)"
  obtain sh1 where 1: "(if first then probeWalRepUpdateConfig (dbid p) (segindex p) pr pa insync sh else Inr sh) = Inr sh1"
    "gp_segment_configuration sh1 = (gp_segment_configuration sh)
       (dbid p := (if first then Some (pr, status_char pa, mode_char insync) else gp_segment_configuration sh (dbid p)))"
    "failedContentIds sh1 = failedContentIds sh" "promoted_signals sh1 = promoted_signals sh"
    using UpdateConfig_ok [OF assms(1), of "segindex p" pr pa insync] by (cases first) auto
  have "dbid m \<in> dom (gp_segment_configuration sh1)" using assms(2) 1(2) by (cases first) auto
  then obtain sh2 where 2: "(if second then probeWalRepUpdateConfig (dbid m) (segindex m) mr ma insync sh1 else Inr sh1) = Inr sh2"
    "gp_segment_configuration sh2 = (gp_segment_configuration sh1)
       (dbid m := (if second then Some (mr, status_char ma, mode_char insync) else gp_segment_configuration sh1 (dbid m)))"
    "failedContentIds sh2 = failedContentIds sh1" "promoted_signals sh2 = promoted_signals sh1"
    using UpdateConfig_ok [of "dbid m" sh1 "segindex m" mr ma insync] by (cases second) auto
  define sh3 where "sh3 = set_status (dbid m) ma (set_status (dbid p) pa sh2)"
  have 3: "gp_segment_configuration sh3 = gp_segment_configuration sh2" "failedContentIds sh3 = failedContentIds sh2"
    "promoted_signals sh3 = promoted_signals sh2" by (simp_all add: sh3_def set_status_def)
  have cond: "(pa \<noteq> SEGMENT_IS_ALIVE p \<or> ma \<noteq> SEGMENT_IS_ALIVE m \<or> insync \<noteq> SEGMENT_IS_IN_SYNC p) = (first \<or> second)"
    by (auto simp: first_def second_def)
  have run: "updateConfiguration p m pr mr insync pa ma sh = (if first \<or> second then Inr (True, sh3) else Inr (False, sh))"
    unfolding updateConfiguration_def Let_def first_def [symmetric] second_def [symmetric] 1(1) 2(1) bindE_simps sh3_def
    by (rule if_cong) (use cond in \<open>auto simp: second_def\<close>)
  let ?sh = "if first \<or> second then sh3 else sh"
  have cfg: "gp_segment_configuration ?sh = (gp_segment_configuration sh)
      (dbid p := (if first then Some (pr, status_char pa, mode_char insync) else gp_segment_configuration sh (dbid p)),
       dbid m := (if second then Some (mr, status_char ma, mode_char insync)
                  else if dbid m = dbid p \<and> first
                  then Some (pr, status_char pa, mode_char insync) else gp_segment_configuration sh (dbid m)))"
    using 1(2) 2(2) 3(1) by (cases first; cases second) (simp_all add: fun_eq_iff)
  show ?thesis
  proof (intro exI conjI)
    show "updateConfiguration p m pr mr insync pa ma sh = Inr (first \<or> second, ?sh)" using run by simp
    show "(first \<or> second) = (pa \<noteq> SEGMENT_IS_ALIVE p \<or> ma \<noteq> SEGMENT_IS_ALIVE m \<or> insync \<noteq> SEGMENT_IS_IN_SYNC p)"
      by (rule cond [symmetric])
  qed (use cfg in \<open>unfold first_def second_def\<close>, insert 1(3,4) 2(3,4) 3(2,3), simp_all)
qed

lemma updateSegmentDownStatus_ok:
  assumes "0 \<le> segindex p"
  shows "\<exists>sh'. updateSegmentDownStatus p alive mirrors sh = Inr sh' \<and>
    bms_members (failedContentIds sh') =
      (if alive then bms_members (failedContentIds sh) - {nat (segindex p)} else insert (nat (segindex p)) (bms_members (failedContentIds sh))) \<and>
    (gp_configuration_history sh' = gp_configuration_history sh \<longleftrightarrow> (nat (segindex p) \<in> bms_members (failedContentIds sh) \<longleftrightarrow> \<not> alive)) \<and>
    gp_segment_configuration sh' = gp_segment_configuration sh \<and> fts_status sh' = fts_status sh \<and>
    promoted_signals sh' = promoted_signals sh"
proof -
  obtain n where n: "segindex p = int n" using assms by (metis nonneg_eq_int)
  obtain b where b: "bms_del_member (failedContentIds sh) (int n) = Inr b" "bms_members b = bms_members (failedContentIds sh) - {n}"
    using bms_del_member_nat by blast
  obtain c where c: "bms_add_member (failedContentIds sh) (int n) = Inr c" "bms_members c = insert n (bms_members (failedContentIds sh))"
    using bms_add_member_nat by blast
  have h: "failedContentIds (probeUpdateConfHistory p alive mirrors sh) = failedContentIds sh"
    "gp_segment_configuration (probeUpdateConfHistory p alive mirrors sh) = gp_segment_configuration sh"
    "fts_status (probeUpdateConfHistory p alive mirrors sh) = fts_status sh"
    "promoted_signals (probeUpdateConfHistory p alive mirrors sh) = promoted_signals sh"
    "gp_configuration_history (probeUpdateConfHistory p alive mirrors sh) \<noteq> gp_configuration_history sh"
    by (simp_all add: probeUpdateConfHistory_def Let_def)
  show ?thesis
  proof (cases alive; cases "n \<in> bms_members (failedContentIds sh)")
  qed (use n b c h in \<open>auto simp: updateSegmentDownStatus_def bms_is_member_nat Let_def\<close>)
qed

definition same_pair :: "fts_segment_info \<Rightarrow> fts_segment_info \<Rightarrow> bool" where
  "same_pair info info' \<longleftrightarrow>
     primary_cdbinfo info' = primary_cdbinfo info \<and> mirror_cdbinfo info' = mirror_cdbinfo info \<or>
     primary_cdbinfo info' = mirror_cdbinfo info \<and> mirror_cdbinfo info' = primary_cdbinfo info \<and> mirror_cdbinfo info \<noteq> None"

definition switch_ok :: "int \<Rightarrow> bool \<Rightarrow> fts_segment_info \<Rightarrow> fts_shared \<Rightarrow> response \<Rightarrow> bool" where
  "switch_ok R mirrors info sh r \<longleftrightarrow>
     (case r of
        Inl e \<Rightarrow> \<not> mirrors
      | Inr (info', upd, sh') \<Rightarrow>
          fts_trans R (seg_key info) (msg_state info', 0) \<and>
          msg_state info' \<in> {FTS_RESPONSE_PROCESSED, FTS_SYNCREP_OFF_SEGMENT, FTS_PROMOTE_SEGMENT} \<and>
          (\<not> mirrors \<longrightarrow> msg_state info' = FTS_RESPONSE_PROCESSED) \<and> same_pair info info' \<and>
          dom (gp_segment_configuration sh') = dom (gp_segment_configuration sh))"

lemma switch_done:
  assumes "IsFtsMessageStateSuccess (msg_state info) \<or> IsFtsMessageStateFailed (msg_state info) \<and> retry_count info = R"
    and "dom (gp_segment_configuration sh') = dom (gp_segment_configuration sh)"
  shows "switch_ok R mirrors info sh (Inr (info\<lparr>msg_state := FTS_RESPONSE_PROCESSED\<rparr>, upd, sh'))"
  using assms fts_trans.finish [of "msg_state info" "retry_count info" R]
  by (simp add: switch_ok_def seg_key_def same_pair_def)

lemma if_not_None: "(c \<Longrightarrow> x \<noteq> None) \<Longrightarrow> (\<not> c \<Longrightarrow> y \<noteq> None) \<Longrightarrow> (if c then x else y) \<noteq> None"
  by simp

lemma Some_not_None: "Some x \<noteq> None"
  by simp

lemma dom_updateConfiguration:
  assumes "updateConfiguration p m pr mr insync pa ma sh = Inr (upd, sh')"
    and "dbid p \<in> dom (gp_segment_configuration sh)" and "dbid m \<in> dom (gp_segment_configuration sh)"
  shows "dom (gp_segment_configuration sh') = dom (gp_segment_configuration sh)"
proof -
  have keep: "a \<in> dom f \<Longrightarrow> b \<in> dom f \<Longrightarrow> A \<noteq> None \<Longrightarrow> B \<noteq> None \<Longrightarrow> dom (f(a := A, b := B)) = dom f" for a b A B and f :: "int \<rightharpoonup> char \<times> char \<times> char"
    by auto
  have some: "gp_segment_configuration sh (dbid p) \<noteq> None" "gp_segment_configuration sh (dbid m) \<noteq> None"
    using assms(2,3) by auto
  from updateConfiguration_ok [OF assms(2,3), of pr mr insync pa ma] assms(1) obtain c1 c2 c3 where
    "gp_segment_configuration sh' = (gp_segment_configuration sh)
      (dbid p := (if c1 then Some (pr, status_char pa, mode_char insync) else gp_segment_configuration sh (dbid p)),
       dbid m := (if c2 then Some (mr, status_char ma, mode_char insync)
                  else if c3 then Some (pr, status_char pa, mode_char insync) else gp_segment_configuration sh (dbid m)))"
    by (metis Inr_inject prod.inject)
  then show ?thesis
    by (simp only:) (intro keep assms(2,3) if_not_None some Some_not_None)
qed

lemma switch_probe_success:
  assumes "seg_ok R mirrors info" and "known sh info" and "primary_cdbinfo info = Some p" and st: "msg_state info = FTS_PROBE_SUCCESS"
  shows "switch_ok R mirrors info sh (probe_success mirrors p pa ma insync info sh)"
proof -
  have idx: "0 \<le> segindex p" "dbid p \<in> dom (gp_segment_configuration sh)" using assms(2,3) by (auto simp: known_def)
  obtain sh1 where sh1: "updateSegmentDownStatus p True mirrors sh = Inr sh1"
    "gp_segment_configuration sh1 = gp_segment_configuration sh"
    using updateSegmentDownStatus_ok [OF idx(1), of True mirrors sh] by blast
  have done_ok: "switch_ok R mirrors info sh (Inr (info\<lparr>msg_state := FTS_RESPONSE_PROCESSED\<rparr>, upd, sh'))"
    if "dom (gp_segment_configuration sh') = dom (gp_segment_configuration sh)" for upd sh'
    using that st by (intro switch_done) (simp_all add: state_sets)
  have again: "switch_ok R mirrors info sh (Inr (info\<lparr>msg_state := FTS_PROMOTE_SEGMENT\<rparr>, False, sh1))" if mirrors
    using that st fts_trans.promote_again [of R "retry_count info"] sh1(2) by (simp add: switch_ok_def seg_key_def same_pair_def)
  show ?thesis
  proof (cases mirrors)
    case True
    then obtain m where m: "mirror_cdbinfo info = Some m" using assms(1) by (auto simp: seg_ok_def)
    then have "dbid m \<in> dom (gp_segment_configuration sh1)" "dbid p \<in> dom (gp_segment_configuration sh1)"
      using assms(2) idx sh1(2) by (auto simp: known_def)
    then obtain upd sh2 where 2: "updateConfiguration p m GP_SEGMENT_CONFIGURATION_ROLE_PRIMARY
        GP_SEGMENT_CONFIGURATION_ROLE_MIRROR insync pa ma sh1 = Inr (upd, sh2)"
      "dom (gp_segment_configuration sh2) = dom (gp_segment_configuration sh)"
      using updateConfiguration_ok [of p sh1 m] dom_updateConfiguration sh1(2) by metis
    have "switch_ok R mirrors info sh (Inr (info\<lparr>msg_state := FTS_SYNCREP_OFF_SEGMENT\<rparr>, upd, sh2))"
      using True st 2(2) fts_trans.syncrep_off [of R "retry_count info"] by (simp add: switch_ok_def seg_key_def same_pair_def)
    with True sh1 m 2 done_ok again show ?thesis by (cases ma) (simp_all add: probe_success_def Let_def)
  next
    case False
    with sh1 done_ok show ?thesis by (simp add: probe_success_def Let_def)
  qed
qed

lemma switch_probe_failed:
  assumes "seg_ok R mirrors info" and "known sh info" and "primary_cdbinfo info = Some p"
    and st: "msg_state info = FTS_PROBE_FAILED" "retry_count info = R"
  shows "switch_ok R mirrors info sh (probe_failed g mirrors p pa ma insync info sh)"
proof -
  have idx: "0 \<le> segindex p" "dbid p \<in> dom (gp_segment_configuration sh)" using assms(2,3) by (auto simp: known_def)
  obtain sh1 where sh1: "updateSegmentDownStatus p False mirrors sh = Inr sh1"
    "gp_segment_configuration sh1 = gp_segment_configuration sh"
    using updateSegmentDownStatus_ok [OF idx(1), of False mirrors sh] by blast
  have done_ok: "switch_ok R mirrors info sh (Inr (info\<lparr>msg_state := FTS_RESPONSE_PROCESSED\<rparr>, upd, sh'))"
    if "dom (gp_segment_configuration sh') = dom (gp_segment_configuration sh)" for upd sh'
    using that st by (intro switch_done) (simp_all add: state_sets)
  show ?thesis
  proof (cases mirrors)
    case True
    then obtain m where m: "mirror_cdbinfo info = Some m" using assms(1) by (auto simp: seg_ok_def)
    then have "dbid m \<in> dom (gp_segment_configuration sh)" using assms(2) by (auto simp: known_def)
    then obtain upd sh2 where 2: "updateConfiguration p m GP_SEGMENT_CONFIGURATION_ROLE_MIRROR
        GP_SEGMENT_CONFIGURATION_ROLE_PRIMARY insync pa ma sh = Inr (upd, sh2)"
      "dom (gp_segment_configuration sh2) = dom (gp_segment_configuration sh)"
      using updateConfiguration_ok [of p sh m] dom_updateConfiguration idx(2) by metis
    have "switch_ok R mirrors info sh
        (Inr (info\<lparr>msg_state := FTS_PROMOTE_SEGMENT, primary_cdbinfo := Some m, mirror_cdbinfo := Some p\<rparr>, upd, sh2))"
      using True st 2(2) fts_trans.promote [of R] m assms(3) by (simp add: switch_ok_def seg_key_def same_pair_def)
    with True sh1 m 2 done_ok show ?thesis by (simp add: probe_failed_def Let_def)
  next
    case False
    with sh1 done_ok show ?thesis
      by (simp add: probe_failed_def Let_def log_with_def) (simp add: deref_def switch_ok_def split: option.splits)
  qed
qed

lemma switch_response:
  assumes "seg_ok R mirrors info" and "known sh info" and "primary_cdbinfo info = Some p" and "ftsResponseReady info"
    and "IsFtsMessageStateFailed (msg_state info) \<Longrightarrow> retry_count info = R"
  shows "switch_ok R mirrors info sh (response_switch g mirrors p pa ma insync info sh)"
proof -
  have idx: "0 \<le> segindex p" using assms(2,3) by (auto simp: known_def)
  have done_ok: "switch_ok R mirrors info sh (Inr (info\<lparr>msg_state := FTS_RESPONSE_PROCESSED\<rparr>, upd, sh'))"
    if "gp_segment_configuration sh' = gp_segment_configuration sh" for upd sh'
    using that assms(4,5) by (intro switch_done) (auto simp: ftsResponseReady_def)
  have down: "\<exists>sh1. updateSegmentDownStatus p alive mirrors sh = Inr sh1 \<and> gp_segment_configuration sh1 = gp_segment_configuration sh" for alive
    using updateSegmentDownStatus_ok [OF idx, of alive mirrors sh] by blast
  have "switch_ok R mirrors info sh (promote_success mirrors p info sh)"
    using down [of True] done_ok by (auto simp: promote_success_def)
  moreover have "switch_ok R mirrors info sh (promote_failed g mirrors p info sh)" if "msg_state info = FTS_PROMOTE_FAILED"
  proof -
    have mirrors using assms(1) that by (cases mirrors) (auto simp: seg_ok_def)
    then obtain m where "mirror_cdbinfo info = Some m" using assms(1) by (auto simp: seg_ok_def)
    with down [of False] done_ok show ?thesis by (auto simp: promote_failed_def)
  qed
  ultimately show ?thesis
    using switch_probe_success [OF assms(1-3)] switch_probe_failed [OF assms(1-3)] assms(4,5) done_ok
    by (cases "msg_state info") (simp_all add: response_switch_def ftsResponseReady_def state_sets)
qed

lemma response_ok:
  assumes "seg_ok R mirrors info" and "known sh info"
    and "IsFtsMessageStateFailed (msg_state info) \<Longrightarrow> retry_count info = R"
  shows "case response_seg g mirrors info sh of
      Inl e \<Rightarrow> \<not> mirrors
    | Inr (info', upd, sh') \<Rightarrow>
        seg_step R mirrors info info' \<and> dom (gp_segment_configuration sh') = dom (gp_segment_configuration sh)"
proof (cases "ftsResponseReady info")
  case False
  with assms(1) show ?thesis by (simp add: response_seg_def seg_step_refl)
next
  case True
  from assms(1) obtain p where p: "primary_cdbinfo info = Some p" by (auto simp: seg_ok_def)
  have "0 \<le> R" using assms(1) by (simp add: seg_ok_def)
  define ma where "ma = (if isPrimaryAlive (probe_result info) then isMirrorAlive (probe_result info)
    else mirrors \<and> (case mirror_cdbinfo info of Some m \<Rightarrow> SEGMENT_IS_ALIVE m | None \<Rightarrow> False))"
  define r where "r = response_switch g mirrors p (isPrimaryAlive (probe_result info)) ma
    (if isPrimaryAlive (probe_result info) then isInSync (probe_result info) else False) info sh"
  have run: "response_seg g mirrors info sh = bindE r (\<lambda>(info1, upd, sh1).
      Inr (info1\<lparr>probe_result := zero_result, conn := None, poll_events := 0, poll_revents := 0,
        retry_count := 0, timeout_count := 0\<rparr>, upd, sh1))"
    using True p assms(1) by (auto simp: response_seg_def Let_def ma_def r_def seg_ok_def)
  have sw: "switch_ok R mirrors info sh r" unfolding r_def by (rule switch_response [OF assms(1,2) p True assms(3)])
  show ?thesis
  proof (cases r)
    case (Inl e)
    with sw run show ?thesis by (simp add: switch_ok_def)
  next
    case (Inr x)
    obtain i upd sh' where x: "x = (i, upd, sh')" by (cases x)
    let ?i = "i\<lparr>probe_result := zero_result, conn := None, poll_events := 0, poll_revents := 0, retry_count := 0, timeout_count := 0\<rparr>"
    have s: "fts_trans R (seg_key info) (msg_state i, 0)" "same_pair info i"
      "msg_state i \<in> {FTS_RESPONSE_PROCESSED, FTS_SYNCREP_OFF_SEGMENT, FTS_PROMOTE_SEGMENT}"
      "\<not> mirrors \<longrightarrow> msg_state i = FTS_RESPONSE_PROCESSED"
      "dom (gp_segment_configuration sh') = dom (gp_segment_configuration sh)"
      using sw Inr x by (simp_all add: switch_ok_def)
    have "\<not> IsFtsMessageStateSuccess (msg_state i)" "\<not> awaiting_retry (msg_state i)" using s(3) by (auto simp: state_sets)
    moreover have "io_ok ?i" by (simp add: io_ok_def PQstatus_def)
    moreover have "primary_cdbinfo i \<noteq> None" "mirrors \<Longrightarrow> mirror_cdbinfo i \<noteq> None"
      using s(2) p assms(1) by (auto simp: same_pair_def seg_ok_def)
    ultimately have "seg_ok R mirrors ?i"
      using s(4) \<open>0 \<le> R\<close> by (simp add: seg_ok_def polled_def zero_result_def)
    moreover have "(fts_trans R)\<^sup>*\<^sup>* (seg_key info) (seg_key ?i)" using s(1) by (simp add: seg_key_def)
    moreover have "{primary_cdbinfo ?i, mirror_cdbinfo ?i} = {primary_cdbinfo info, mirror_cdbinfo info}"
      using s(2) by (auto simp: same_pair_def)
    ultimately have "seg_step R mirrors info ?i" by (simp add: seg_step_def)
    with run Inr x s(5) show ?thesis by simp
  qed
qed

section \<open>A round\<close>

definition list_good :: "int \<Rightarrow> bool \<Rightarrow> fts_segment_info list \<Rightarrow> fts_segment_info list result \<Rightarrow> bool" where
  "list_good R mirrors xs r \<longleftrightarrow>
     (case r of Inr ys \<Rightarrow> list_all2 (seg_step R mirrors) xs ys | Inl e \<Rightarrow> mirrors \<longrightarrow> e \<in> env_errors)"

lemma mapE_good:
  assumes "\<And>i x. x \<in> set xs \<Longrightarrow> good R mirrors x (f i x)"
  shows "list_good R mirrors xs (mapE f i xs)"
proof (cases "mapE f i xs")
  case (Inl e)
  from mapE_Inl [OF Inl] obtain j where "j < length xs" "f (i + j) (xs ! j) = Inl e" by blast
  with assms [of "xs ! j" "i + j"] Inl show ?thesis by (simp add: list_good_def good_def)
next
  case (Inr ys)
  from mapE_Inr [OF Inr] assms have "list_all2 (seg_step R mirrors) xs ys"
    unfolding list_all2_conv_all_nth by (metis good_def nth_mem sum.simps(6))
  with Inr show ?thesis by (simp add: list_good_def)
qed

lemma mapE_all:
  assumes "mapE f i xs = Inr ys" and "\<And>i x y. x \<in> set xs \<Longrightarrow> f i x = Inr y \<Longrightarrow> P y"
  shows "\<forall>y \<in> set ys. P y"
  using mapE_Inr [OF assms(1)] assms(2) by (metis in_set_conv_nth nth_mem)

lemma steps_trans:
  "list_all2 (seg_step R mirrors) xs ys \<Longrightarrow> list_all2 (seg_step R mirrors) ys zs \<Longrightarrow> list_all2 (seg_step R mirrors) xs zs"
  by (rule list_all2_trans [OF seg_step_trans])

lemma list_good_bind:
  assumes "list_good R mirrors xs r" and "\<And>ys. r = Inr ys \<Longrightarrow> list_good R mirrors ys (f ys)"
  shows "list_good R mirrors xs (bindE r f)"
proof (cases r)
  case (Inr ys)
  with assms have "list_all2 (seg_step R mirrors) xs ys" "list_good R mirrors ys (f ys)" by (auto simp: list_good_def)
  with Inr show ?thesis by (cases "f ys") (auto simp: list_good_def intro: steps_trans)
qed (use assms in \<open>simp add: list_good_def\<close>)

lemma steps_ok: "list_all2 (seg_step R mirrors) xs ys \<Longrightarrow> y \<in> set ys \<Longrightarrow> seg_ok R mirrors y"
  by (auto simp: list_all2_conv_all_nth in_set_conv_nth seg_step_def)

lemma fill_fds_good:
  "\<forall>x \<in> set xs. seg_ok R mirrors x \<Longrightarrow> list_all2 (seg_step R mirrors) xs (fst (fill_fds n xs))"
proof (induction xs arbitrary: n)
  case (Cons x xs)
  have "seg_step R mirrors x (x\<lparr>fd_index := k\<rparr>)" for k
    using good_unchanged [of R mirrors x "x\<lparr>fd_index := k\<rparr>"] Cons.prems by (simp add: good_def good_record)
  with Cons show ?case by (auto split: prod.split) (metis fst_conv)+
qed simp

lemma fill_fds_le: "m \<le> snd (fill_fds m xs)"
proof (induction xs arbitrary: m)
  case (Cons x xs)
  show ?case using Cons.IH [of m] Cons.IH [of "Suc m"] by (cases "fill_fds m xs"; cases "fill_fds (Suc m) xs") simp
qed simp

lemma fill_fds_none: "n = snd (fill_fds n xs) \<Longrightarrow> \<forall>x \<in> set (fst (fill_fds n xs)). \<not> polled x"
proof (induction xs arbitrary: n)
  case (Cons x xs)
  show ?case
  proof (cases "polled x")
    case True
    then have "snd (fill_fds n (x # xs)) = snd (fill_fds (n + 1) xs)" by (simp add: polled_def split: prod.split)
    with fill_fds_le [of "n + 1" xs] Cons.prems show ?thesis by simp
  next
    case False
    with Cons.prems have "n = snd (fill_fds n xs)" by (simp add: polled_def split: prod.splits)
    from Cons.IH [OF this] False show ?thesis by (auto simp: polled_def split: prod.split)
  qed
qed simp

lemma poll_good:
  assumes "\<forall>x \<in> set (perSegInfos ctx). seg_ok R mirrors x"
  shows "list_good R mirrors (perSegInfos ctx) (map_sum id perSegInfos (ftsPoll g env ctx))"
    and "ftsPoll g env ctx = Inr ctx' \<Longrightarrow> (\<forall>x \<in> set (perSegInfos ctx'). input_ok x) \<and> has_mirrors ctx' = has_mirrors ctx"
proof -
  obtain xs n where fd: "fill_fds 0 (perSegInfos ctx) = (xs, n)" by force
  then have xs: "list_all2 (seg_step R mirrors) (perSegInfos ctx) xs" using fill_fds_good [OF assms, of 0] by simp
  then have ok: "\<forall>x \<in> set xs. seg_ok R mirrors x" using steps_ok by blast
  have poll: "list_good R mirrors xs (mapE (\<lambda>_. poll_seg g env) 0 xs)"
    using ok good_poll(1) by (intro mapE_good) blast
  have run: "ftsPoll g env ctx = (if n = 0 then Inr (ctx\<lparr>perSegInfos := xs\<rparr>)
      else if poll_nready env < 0 \<and> \<not> poll_eintr env then Inl (ERROR ''FTS: ftsPoll() failed'')
      else bindE (mapE (\<lambda>_. poll_seg g env) 0 xs) (\<lambda>infos1. Inr (ctx\<lparr>perSegInfos := infos1\<rparr>)))"
    by (simp add: ftsPoll_def fd)
  show "list_good R mirrors (perSegInfos ctx) (map_sum id perSegInfos (ftsPoll g env ctx))"
    using xs poll unfolding run
    by (cases "mapE (\<lambda>_. poll_seg g env) 0 xs") (auto simp: list_good_def env_errors_def intro: steps_trans)
  show "(\<forall>x \<in> set (perSegInfos ctx'). input_ok x) \<and> has_mirrors ctx' = has_mirrors ctx" if "ftsPoll g env ctx = Inr ctx'"
  proof (cases "n = 0")
    case True
    then have "\<forall>x \<in> set xs. \<not> polled x" using fill_fds_none [of 0 "perSegInfos ctx"] fd by simp
    with that True show ?thesis by (auto simp: run input_ok_def)
  next
    case False
    with that obtain ys where ys: "mapE (\<lambda>_. poll_seg g env) 0 xs = Inr ys" "ctx' = ctx\<lparr>perSegInfos := ys\<rparr>"
      by (auto simp: run bindE_eq_Inr split: if_splits)
    have "\<forall>y \<in> set ys. input_ok y" by (rule mapE_all [OF ys(1)]) (use ok poll_input in blast)
    with ys show ?thesis by simp
  qed
qed

lemma response_loop_ok:
  assumes "\<forall>x \<in> set xs. seg_ok R mirrors x \<and> known sh x \<and> (IsFtsMessageStateFailed (msg_state x) \<longrightarrow> retry_count x = R)"
  shows "case response_loop g mirrors act i xs upd sh of
      Inl e \<Rightarrow> \<not> mirrors
    | Inr (ys, upd', sh') \<Rightarrow> list_all2 (seg_step R mirrors) xs ys \<and> dom (gp_segment_configuration sh') = dom (gp_segment_configuration sh)"
  using assms
proof (induction xs arbitrary: i upd sh)
  case (Cons x xs)
  have refl: "list_all2 (seg_step R mirrors) (x # xs) (x # xs)"
    using Cons.prems by (simp add: list_all2_same seg_step_refl)
  show ?case
  proof (cases "act i")
    case True
    have x: "case response_seg g mirrors x sh of Inl e \<Rightarrow> \<not> mirrors
      | Inr (info', upd, sh') \<Rightarrow> seg_step R mirrors x info' \<and> dom (gp_segment_configuration sh') = dom (gp_segment_configuration sh)"
      using Cons.prems by (intro response_ok) auto
    show ?thesis
    proof (cases "response_seg g mirrors x sh")
      case (Inr r)
      obtain y u sh1 where r: "r = (y, u, sh1)" by (cases r)
      with x Inr have y: "seg_step R mirrors x y" "dom (gp_segment_configuration sh1) = dom (gp_segment_configuration sh)" by auto
      have "\<forall>x \<in> set xs. seg_ok R mirrors x \<and> known sh1 x \<and> (IsFtsMessageStateFailed (msg_state x) \<longrightarrow> retry_count x = R)"
        using Cons.prems y(2) by (auto simp: known_def)
      from Cons.IH [OF this, of "Suc i" "upd \<or> u"] True Inr r y show ?thesis
        by (cases "response_loop g mirrors act (Suc i) xs (upd \<or> u) sh1") auto
    qed (use x True in simp)
  qed (use refl in simp)
qed simp

end
