(* ===== verification/FtsCycle.thy ===== *)
theory FtsCycle
  imports FtsMachine
begin

text \<open>
  Probe cycles of the fault tolerance service as a whole.  The invariant of the machine is lifted to the
  rounds of \<^verbatim>\<open>FtsWalRepMessageSegments\<close> and to the cycles that they make up.  The properties say which
  states a cycle can reach and which errors it can raise, that a round makes progress, what happens to
  the configuration when a primary is found to have failed, and where a cycle goes wrong: a response that
  stays incomplete, and a cluster without mirrors.
\<close>


definition ctx_ok :: "fts_gucs \<Rightarrow> fts_shared \<Rightarrow> fts_context \<Rightarrow> bool" where
  "ctx_ok g sh ctx \<longleftrightarrow>
     (\<forall>x \<in> set (perSegInfos ctx). seg_ok (gp_fts_probe_retries g) (has_mirrors ctx) x \<and> known sh x)"

lemma known_step:
  "seg_step R mirrors x y \<Longrightarrow> dom (gp_segment_configuration sh') = dom (gp_segment_configuration sh) \<Longrightarrow> known sh x \<Longrightarrow> known sh' y"
  by (simp add: seg_step_def known_def)

lemma known_steps:
  "list_all2 (seg_step R mirrors) xs ys \<Longrightarrow> \<forall>x \<in> set xs. known sh x \<Longrightarrow> \<forall>y \<in> set ys. known sh y"
  by (metis (no_types, lifting) in_set_conv_nth known_step list_all2_conv_all_nth)

text \<open>The steps of a round before the responses are processed.\<close>

definition before_response :: "fts_gucs \<Rightarrow> round_env \<Rightarrow> fts_context \<Rightarrow> fts_context result" where
  "before_response g env ctx =
     bindE (ftsConnect g env ctx) (\<lambda>c1. bindE (ftsPoll g env c1) (\<lambda>c2. bindE (ftsSend env c2) (\<lambda>c3.
     bindE (ftsReceive env c3) (processRetry g env))))"

lemma message_round_split: "message_round g env ctx sh = bindE (before_response g env ctx) (\<lambda>c. processResponse g env c sh)"
  by (simp add: message_round_def before_response_def bindE_def split: sum.split)

text \<open>The same steps on the lists of segments alone.\<close>

definition segment_steps :: "fts_gucs \<Rightarrow> round_env \<Rightarrow> fts_context \<Rightarrow> fts_segment_info list result" where
  "segment_steps g env ctx =
     bindE (mapE (\<lambda>i. connect_seg g (seg_envs env i)) 0 (perSegInfos ctx)) (\<lambda>xs1.
     bindE (map_sum id perSegInfos (ftsPoll g env (ctx\<lparr>perSegInfos := xs1\<rparr>))) (\<lambda>xs2.
     bindE (mapE (\<lambda>i. send_seg (seg_envs env i)) 0 xs2) (\<lambda>xs3.
     bindE (mapE (\<lambda>i. receive_seg (seg_envs env i)) 0 xs3) (\<lambda>xs4.
     mapE (\<lambda>_. retry_seg g (has_mirrors ctx) (retry_time env)) 0 xs4))))"

lemma before_response_steps: "before_response g env ctx = map_sum id (\<lambda>ys. ctx\<lparr>perSegInfos := ys\<rparr>) (segment_steps g env ctx)"
proof -
  define poll where "poll = (\<lambda>xs. map_sum id perSegInfos (ftsPoll g env (ctx\<lparr>perSegInfos := xs\<rparr>)))"
  have keep: "ftsPoll g env (ctx\<lparr>perSegInfos := xs\<rparr>) = map_sum id (\<lambda>ys. ctx\<lparr>perSegInfos := ys\<rparr>) (poll xs)" for xs
    by (auto simp: poll_def ftsPoll_def bindE_def split: prod.split sum.split)
  show ?thesis
    unfolding before_response_def ftsConnect_def ftsSend_def ftsReceive_def processRetry_def segment_steps_def
      fun_cong [OF poll_def, symmetric]
    by (simp add: keep bindE_def split: sum.split)
qed

lemma segment_steps_good:
  assumes "\<forall>x \<in> set (perSegInfos ctx). seg_ok R (has_mirrors ctx) x" and "\<forall>i. libpq_ok (seg_envs env i)"
    and "R = gp_fts_probe_retries g"
  shows "list_good R (has_mirrors ctx) (perSegInfos ctx) (segment_steps g env ctx)"
  unfolding segment_steps_def
proof (rule list_good_bind)
  let ?good = "list_good R (has_mirrors ctx)"
  have ok: "\<forall>y \<in> set ys. seg_ok R (has_mirrors ctx) y" if "?good zs r" "r = Inr ys" for zs r ys
    using that steps_ok by (auto simp: list_good_def)
  show 1: "?good (perSegInfos ctx) (mapE (\<lambda>i. connect_seg g (seg_envs env i)) 0 (perSegInfos ctx))"
    using assms(1,2) by (intro mapE_good good_connect) auto
  fix xs1 assume "mapE (\<lambda>i. connect_seg g (seg_envs env i)) 0 (perSegInfos ctx) = Inr xs1"
  note ok1 = ok [OF 1 this]
  show "?good xs1 (bindE (map_sum id perSegInfos (ftsPoll g env (ctx\<lparr>perSegInfos := xs1\<rparr>))) (\<lambda>xs2.
    bindE (mapE (\<lambda>i. send_seg (seg_envs env i)) 0 xs2) (\<lambda>xs3.
    bindE (mapE (\<lambda>i. receive_seg (seg_envs env i)) 0 xs3) (\<lambda>xs4. mapE (\<lambda>_. retry_seg g (has_mirrors ctx) (retry_time env)) 0 xs4))))"
  proof (rule list_good_bind)
    let ?poll = "ftsPoll g env (ctx\<lparr>perSegInfos := xs1\<rparr>)"
    show poll: "?good xs1 (map_sum id perSegInfos ?poll)" using poll_good(1) [of "ctx\<lparr>perSegInfos := xs1\<rparr>"] ok1 by simp
    fix xs2 assume xs2: "map_sum id perSegInfos ?poll = Inr xs2"
    note ok2 = ok [OF poll xs2]
    from xs2 obtain c where "?poll = Inr c" "perSegInfos c = xs2" by (auto simp: map_sum_def split: sum.splits)
    then have in2: "\<forall>x \<in> set xs2. input_ok x" using poll_good(2) [of "ctx\<lparr>perSegInfos := xs1\<rparr>"] ok1 by simp
    show "?good xs2 (bindE (mapE (\<lambda>i. send_seg (seg_envs env i)) 0 xs2) (\<lambda>xs3.
      bindE (mapE (\<lambda>i. receive_seg (seg_envs env i)) 0 xs3) (\<lambda>xs4. mapE (\<lambda>_. retry_seg g (has_mirrors ctx) (retry_time env)) 0 xs4)))"
    proof (intro list_good_bind)
      show 3: "?good xs2 (mapE (\<lambda>i. send_seg (seg_envs env i)) 0 xs2)" using ok2 in2 by (intro mapE_good good_send(1)) auto
      fix xs3 assume xs3: "mapE (\<lambda>i. send_seg (seg_envs env i)) 0 xs2 = Inr xs3"
      have "\<forall>x \<in> set xs3. input_ok x" by (rule mapE_all [OF xs3]) (use ok2 in2 good_send(2) in blast)
      with ok [OF 3 xs3] show 4: "?good xs3 (mapE (\<lambda>i. receive_seg (seg_envs env i)) 0 xs3)"
        by (intro mapE_good good_receive) auto
      fix xs4 assume "mapE (\<lambda>i. receive_seg (seg_envs env i)) 0 xs3 = Inr xs4"
      from ok [OF 4 this] show "?good xs4 (mapE (\<lambda>_. retry_seg g (has_mirrors ctx) (retry_time env)) 0 xs4)"
        by (intro mapE_good good_retry assms(3)) auto
    qed
  qed
qed

lemma before_response_ok:
  assumes "\<forall>x \<in> set (perSegInfos ctx). seg_ok R mirrors x" and "\<forall>i. libpq_ok (seg_envs env i)"
    and "R = gp_fts_probe_retries g" and "mirrors = has_mirrors ctx"
  shows "list_good R mirrors (perSegInfos ctx) (map_sum id perSegInfos (before_response g env ctx))" (is ?A)
    and "before_response g env ctx = Inr ctx' \<Longrightarrow> has_mirrors ctx' = mirrors \<and>
      (\<forall>x \<in> set (perSegInfos ctx'). IsFtsMessageStateFailed (msg_state x) \<longrightarrow> retry_count x = R)" (is "?B \<Longrightarrow> ?C")
proof -
  show ?A using segment_steps_good [of ctx R env g] assms unfolding before_response_steps
    by (simp add: list_good_def map_sum_def split: sum.splits)
  show ?C if ?B
  proof -
    from that obtain ys where ys: "segment_steps g env ctx = Inr ys" "ctx' = ctx\<lparr>perSegInfos := ys\<rparr>"
      unfolding before_response_steps by (auto simp: map_sum_def split: sum.splits)
    then obtain xs4 where "mapE (\<lambda>_. retry_seg g mirrors (retry_time env)) 0 xs4 = Inr ys"
      by (auto simp: segment_steps_def bindE_eq_Inr assms(4))
    then have "\<forall>y \<in> set ys. IsFtsMessageStateFailed (msg_state y) \<longrightarrow> retry_count y = R"
      by (rule mapE_all) (use retry_failed assms(3) in blast)
    with ys(2) assms(4) show ?thesis by simp
  qed
qed

lemma message_round_ok:
  assumes "ctx_ok g sh ctx" and "\<forall>i. libpq_ok (seg_envs env i)"
  shows "case message_round g env ctx sh of
      Inl e \<Rightarrow> has_mirrors ctx \<longrightarrow> e \<in> env_errors
    | Inr (ctx', upd, sh') \<Rightarrow>
        has_mirrors ctx' = has_mirrors ctx \<and> ctx_ok g sh' ctx' \<and>
        dom (gp_segment_configuration sh') = dom (gp_segment_configuration sh) \<and>
        list_all2 (seg_step (gp_fts_probe_retries g) (has_mirrors ctx)) (perSegInfos ctx) (perSegInfos ctx')"
proof -
  let ?R = "gp_fts_probe_retries g" and ?m = "has_mirrors ctx"
  have ok: "\<forall>x \<in> set (perSegInfos ctx). seg_ok ?R ?m x" "\<forall>x \<in> set (perSegInfos ctx). known sh x"
    using assms(1) by (auto simp: ctx_ok_def)
  note B = before_response_ok [OF ok(1) assms(2) refl refl]
  show ?thesis
  proof (cases "before_response g env ctx")
    case (Inl e)
    with B(1) show ?thesis by (simp add: message_round_split list_good_def)
  next
    case (Inr c)
    have c: "list_all2 (seg_step ?R ?m) (perSegInfos ctx) (perSegInfos c)" "has_mirrors c = ?m"
      "\<forall>x \<in> set (perSegInfos c). IsFtsMessageStateFailed (msg_state x) \<longrightarrow> retry_count x = ?R"
      using B(1) B(2) [OF Inr] Inr by (simp_all add: list_good_def)
    have all: "\<forall>x \<in> set (perSegInfos c). seg_ok ?R ?m x \<and> known sh x \<and> (IsFtsMessageStateFailed (msg_state x) \<longrightarrow> retry_count x = ?R)"
      using steps_ok [OF c(1)] known_steps [OF c(1) ok(2)] c(3) by blast
    note L = response_loop_ok [OF all, of g "active_at env" 0 False]
    show ?thesis
    proof (cases "response_loop g ?m (active_at env) 0 (perSegInfos c) False sh")
      case (Inr r)
      obtain ys upd sh' where r: "r = (ys, upd, sh')" by (cases r)
      from L Inr r have ys: "list_all2 (seg_step ?R ?m) (perSegInfos c) ys" "dom (gp_segment_configuration sh') = dom (gp_segment_configuration sh)"
        by auto
      note steps = steps_trans [OF c(1) ys(1)]
      have "\<forall>y \<in> set ys. seg_ok ?R ?m y \<and> known sh' y"
        using steps_ok [OF steps] known_steps [OF steps ok(2)] ys(2) by (auto simp: known_def)
      with steps ys(2) c(2) Inr r \<open>before_response g env ctx = Inr c\<close> show ?thesis
        by (simp add: message_round_split processResponse_def ctx_ok_def)
    qed (use L c(2) Inr in \<open>simp add: message_round_split processResponse_def\<close>)
  qed
qed

text \<open>Induction over the rounds of a loop that ends.\<close>

lemma message_loop_induct:
  assumes "message_loop g env k ctx upd sh = Some r"
    and "\<And>k ctx upd sh. allDone ctx \<or> \<not> active (env k) \<Longrightarrow> P k ctx upd sh (Inr (upd, sh))"
    and "\<And>k ctx upd sh e. \<not> allDone ctx \<Longrightarrow> active (env k) \<Longrightarrow> message_round g (env k) ctx sh = Inl e \<Longrightarrow> P k ctx upd sh (Inl e)"
    and "\<And>k ctx upd sh ctx1 upd1 sh1 r. \<not> allDone ctx \<Longrightarrow> active (env k) \<Longrightarrow>
      message_round g (env k) ctx sh = Inr (ctx1, upd1, sh1) \<Longrightarrow> P (Suc k) ctx1 (upd \<or> upd1) sh1 r \<Longrightarrow> P k ctx upd sh r"
  shows "P k ctx upd sh r"
proof -
  let ?Q = "\<lambda>g' env' k ctx upd sh r. g' = g \<and> env' = env \<longrightarrow> P k ctx upd sh r"
  have step: "?Q g' env' k ctx upd sh r"
    if IH: "\<And>g' env' k ctx upd sh r. f g' env' k ctx upd sh = Some r \<Longrightarrow> ?Q g' env' k ctx upd sh r"
      and body: "(if allDone ctx \<or> \<not> active (env' k) then Some (Inr (upd, sh))
        else case message_round g' (env' k) ctx sh of
             Inl e \<Rightarrow> Some (Inl e)
           | Inr (ctx1, upd1, sh1) \<Rightarrow> f g' env' (Suc k) ctx1 (upd \<or> upd1) sh1) = Some r"
    for f g' env' k ctx upd sh r
  proof (intro impI, elim conjE)
    assume eq: "g' = g" "env' = env"
    show "P k ctx upd sh r"
    proof (cases "allDone ctx \<or> \<not> active (env k)")
      case True
      with body eq assms(2) [OF True] show ?thesis by auto
    next
      case False
      show ?thesis
      proof (cases "message_round g (env k) ctx sh")
        case (Inl e)
        with False body eq have "r = Inl e" by simp
        with assms(3) False Inl show ?thesis by blast
      next
        case (Inr x)
        obtain ctx1 upd1 sh1 where x: "x = (ctx1, upd1, sh1)" by (cases x)
        with False Inr body eq have "f g env (Suc k) ctx1 (upd \<or> upd1) sh1 = Some r" by simp
        from IH [OF this] have "P (Suc k) ctx1 (upd \<or> upd1) sh1 r" by simp
        with assms(4) False Inr x show ?thesis by blast
      qed
    qed
  qed
  have "?Q g env k ctx upd sh r"
    by (rule message_loop.raw_induct [of ?Q, OF _ assms(1)]) (rule step, assumption, assumption)
  then show ?thesis by simp
qed

lemma message_loop_errors:
  assumes "message_loop g env k ctx upd sh = Some (Inl e)" and "ctx_ok g sh ctx" and "has_mirrors ctx"
    and lib: "\<forall>k i. libpq_ok (seg_envs (env k) i)"
  shows "e \<in> env_errors"
proof -
  have "ctx_ok g sh ctx \<and> has_mirrors ctx \<longrightarrow> (\<forall>e. r = Inl e \<longrightarrow> e \<in> env_errors)"
    if "message_loop g env k ctx upd sh = Some r" for r
    using that
  proof (rule message_loop_induct)
    fix k ctx sh upd e assume "message_round g (env k) ctx sh = Inl e"
    with message_round_ok [of g sh ctx "env k"] lib
    show "ctx_ok g sh ctx \<and> has_mirrors ctx \<longrightarrow> (\<forall>e'. (Inl e :: (bool \<times> fts_shared) result) = Inl e' \<longrightarrow> e' \<in> env_errors)" by auto
  next
    fix k ctx sh upd ctx1 upd1 sh1 and r :: "(bool \<times> fts_shared) result"
    assume "message_round g (env k) ctx sh = Inr (ctx1, upd1, sh1)"
      and IH: "ctx_ok g sh1 ctx1 \<and> has_mirrors ctx1 \<longrightarrow> (\<forall>e. r = Inl e \<longrightarrow> e \<in> env_errors)"
    with message_round_ok [of g sh ctx "env k"] lib
    show "ctx_ok g sh ctx \<and> has_mirrors ctx \<longrightarrow> (\<forall>e. r = Inl e \<longrightarrow> e \<in> env_errors)" by auto
  qed simp
  then show ?thesis using assms(1-3) by blast
qed

section \<open>The start of a cycle\<close>

text \<open>
  A cluster configuration that the prober can work with: as many primaries as contents, and every
  segment in the catalog under a content id that is not negative.
\<close>

definition config_ok :: "CdbComponentDatabases \<Rightarrow> fts_shared \<Rightarrow> bool" where
  "config_ok cdbs sh \<longleftrightarrow>
     length (filter SEGMENT_IS_ACTIVE_PRIMARY (segment_db_info cdbs)) = total_segments cdbs \<and>
     (\<forall>s \<in> set (segment_db_info cdbs). dbid s \<in> dom (gp_segment_configuration sh) \<and> 0 \<le> segindex s)"

lemma GetPeer_in: "FtsGetPeerSegment segs content d = Some s \<Longrightarrow> s \<in> set segs"
  by (induction segs) (auto split: if_splits)

lemma zero_seg_ok:
  assumes "0 \<le> R" and "mirrors \<Longrightarrow> m \<noteq> None"
  shows "seg_ok R mirrors (zero_info\<lparr>probe_result := zero_result\<lparr>result_dbid := d\<rparr>, primary_cdbinfo := Some p, mirror_cdbinfo := m\<rparr>)"
  using assms by (simp add: seg_ok_def zero_info_def zero_result_def polled_def io_ok_def PQstatus_def state_sets)

lemma init_loop_ok:
  assumes "0 \<le> R" and "init_loop all mirrors segs = (infos, skipped)"
    and "set segs \<subseteq> set all" and "\<forall>s \<in> set all. dbid s \<in> dom (gp_segment_configuration sh) \<and> 0 \<le> segindex s"
  shows "length infos + skipped = length (filter SEGMENT_IS_ACTIVE_PRIMARY segs) \<and>
    (\<forall>x \<in> set infos. seg_ok R mirrors x \<and> known sh x \<and> msg_state x = FTS_PROBE_SEGMENT)"
  using assms(2,3)
proof (induction segs arbitrary: infos skipped)
  case (Cons s segs)
  obtain xs n where xs: "init_loop all mirrors segs = (xs, n)" by force
  have IH: "length xs + n = length (filter SEGMENT_IS_ACTIVE_PRIMARY segs)"
    "\<forall>x \<in> set xs. seg_ok R mirrors x \<and> known sh x \<and> msg_state x = FTS_PROBE_SEGMENT"
    using Cons.IH [OF xs] Cons.prems(2) by auto
  let ?m = "FtsGetPeerSegment all (segindex s) (dbid s)"
  let ?x = "zero_info\<lparr>probe_result := zero_result\<lparr>result_dbid := dbid s\<rparr>, primary_cdbinfo := Some s, mirror_cdbinfo := ?m\<rparr>"
  have "known sh ?x"
    using assms(4) Cons.prems(2) GetPeer_in [of all "segindex s" "dbid s"] by (auto simp: known_def)
  moreover have "seg_ok R mirrors ?x" if "\<not> (mirrors \<and> ?m = None)" using that assms(1) by (intro zero_seg_ok) auto
  moreover have "msg_state ?x = FTS_PROBE_SEGMENT" by (simp add: zero_info_def)
  ultimately show ?case using Cons.prems(1) IH by (auto simp: xs Let_def split: if_splits)
qed simp

lemma InitProbeContext_ok:
  assumes "config_ok cdbs sh" and "0 \<le> gp_fts_probe_retries g"
  shows "\<exists>ctx. FtsWalRepInitProbeContext cdbs = Inr ctx \<and> ctx_ok g sh ctx \<and>
    has_mirrors ctx = (length (segment_db_info cdbs) \<noteq> total_segments cdbs) \<and>
    (\<forall>x \<in> set (perSegInfos ctx). msg_state x = FTS_PROBE_SEGMENT)"
proof -
  let ?m = "length (segment_db_info cdbs) \<noteq> total_segments cdbs"
  obtain xs n where xs: "init_loop (segment_db_info cdbs) ?m (segment_db_info cdbs) = (xs, n)" by force
  have "length xs + n = total_segments cdbs"
    "\<forall>x \<in> set xs. seg_ok (gp_fts_probe_retries g) ?m x \<and> known sh x \<and> msg_state x = FTS_PROBE_SEGMENT"
    using init_loop_ok [OF assms(2) xs] assms(1) by (auto simp: config_ok_def)
  moreover from this(1) have "take (total_segments cdbs - n) (xs @ replicate (total_segments cdbs - length xs) zero_info) = xs"
    by (metis append_eq_conv_conj diff_add_inverse2)
  ultimately show ?thesis by (auto simp: FtsWalRepInitProbeContext_def Let_def xs ctx_ok_def)
qed


section \<open>Example cluster\<close>

definition example_primary :: GpSegConfigEntry where
  "example_primary = \<lparr>dbid = 2, segindex = 0, role = CHR ''p'', mode = CHR ''s'', status = CHR ''u'', port = 6000, hostip = Some ''10.0.0.1''\<rparr>"

definition example_mirror :: GpSegConfigEntry where
  "example_mirror = \<lparr>dbid = 3, segindex = 0, role = CHR ''m'', mode = CHR ''s'', status = CHR ''u'', port = 7000, hostip = Some ''10.0.0.2''\<rparr>"

definition example_cdbs :: CdbComponentDatabases where
  "example_cdbs = \<lparr>segment_db_info = [example_primary, example_mirror], total_segments = 1\<rparr>"

definition example_shared :: fts_shared where
  "example_shared = \<lparr>gp_segment_configuration = [2 \<mapsto> (CHR ''p'', CHR ''u'', CHR ''s''), 3 \<mapsto> (CHR ''m'', CHR ''u'', CHR ''s'')],
     gp_configuration_history = [], fts_status = (\<lambda>_. 0), failedContentIds = None, promoted_signals = 0\<rparr>"

definition example_gucs :: fts_gucs where
  "example_gucs = \<lparr>gp_fts_probe_retries = 5, gp_fts_probe_timeout = 20, gp_log_fts_verbose = False, log_on = True\<rparr>"

text \<open>Connections that are being established, and never get further.\<close>

definition connecting :: PGconn where
  "connecting = \<lparr>conn_status = CONNECTION_IN_PROGRESS, async_idle = True, errorMessage = []\<rparr>"

definition silent_env :: seg_env where
  "silent_env = \<lparr>PQconnectStart = (\<lambda>_. Some connecting), PQconnectPoll = (\<lambda>c. (PGRES_POLLING_READING, connecting)),
     PQsendQuery = (\<lambda>c _. (True, c)), PQconsumeInput = (\<lambda>c. (True, c)), PQisBusy = (\<lambda>c. (True, c)),
     PQgetResult = (\<lambda>c. (None, c)), connect_time = 0\<rparr>"

definition silent_round :: round_env where
  "silent_round = \<lparr>seg_envs = (\<lambda>_. silent_env), poll_nready = 0, poll_eintr = False, poll_ready = (\<lambda>_. 0),
     poll_time = 0, retry_time = 0, active_at = (\<lambda>_. True), active = True\<rparr>"

lemmas example_defs = example_primary_def example_mirror_def example_cdbs_def example_shared_def example_gucs_def

lemma silent_libpq: "libpq_ok (seg_envs silent_round i)"
  by (simp add: libpq_ok_def silent_round_def silent_env_def connecting_def)

lemma example_config: "config_ok example_cdbs example_shared"
  by (simp add: config_ok_def example_defs SEGMENT_IS_ACTIVE_PRIMARY_def GP_SEGMENT_CONFIGURATION_ROLE_PRIMARY_def)

definition example_info :: fts_segment_info where
  "example_info = zero_info\<lparr>probe_result := zero_result\<lparr>result_dbid := 2\<rparr>, primary_cdbinfo := Some example_primary,
     mirror_cdbinfo := Some example_mirror\<rparr>"

lemma example_init: "FtsWalRepInitProbeContext example_cdbs = Inr \<lparr>has_mirrors = True, perSegInfos = [example_info]\<rparr>"
  by (simp add: FtsWalRepInitProbeContext_def example_cdbs_def SEGMENT_IS_ACTIVE_PRIMARY_def Let_def
    GP_SEGMENT_CONFIGURATION_ROLE_PRIMARY_def example_info_def) (simp add: example_primary_def example_mirror_def)

section \<open>Properties of a cycle\<close>

text \<open>The contexts and shared states that the rounds of a cycle produce.\<close>

inductive fts_reaches :: "fts_gucs \<Rightarrow> (nat \<Rightarrow> round_env) \<Rightarrow> CdbComponentDatabases \<Rightarrow> fts_shared \<Rightarrow> nat \<Rightarrow> fts_context \<Rightarrow> fts_shared \<Rightarrow> bool"
  for g env cdbs sh0 where
  cycle_start: "FtsWalRepInitProbeContext cdbs = Inr ctx \<Longrightarrow> fts_reaches g env cdbs sh0 0 ctx sh0"
| cycle_round: "fts_reaches g env cdbs sh0 k ctx sh \<Longrightarrow> \<not> allDone ctx \<Longrightarrow> active (env k) \<Longrightarrow>
    message_round g (env k) ctx sh = Inr (ctx', upd, sh') \<Longrightarrow> fts_reaches g env cdbs sh0 (Suc k) ctx' sh'"

lemma reaches_ok:
  assumes "fts_reaches g env cdbs sh0 k ctx sh" and "config_ok cdbs sh0" and "0 \<le> gp_fts_probe_retries g"
    and "\<forall>k i. libpq_ok (seg_envs (env k) i)"
  shows "ctx_ok g sh ctx \<and> (\<forall>x \<in> set (perSegInfos ctx). (fts_trans (gp_fts_probe_retries g))\<^sup>*\<^sup>* (FTS_PROBE_SEGMENT, 0) (seg_key x))"
  using assms(1)
proof induction
  case (cycle_start ctx)
  have zero: "\<forall>x \<in> set (perSegInfos ctx). retry_count x = 0"
  proof -
    have loop: "\<forall>x \<in> set (fst (init_loop all m segs)). retry_count x = 0" for all m segs
      by (induction segs) (auto simp: zero_info_def Let_def split: prod.splits)
    show ?thesis
      using cycle_start loop [of "segment_db_info cdbs" "length (segment_db_info cdbs) \<noteq> total_segments cdbs" "segment_db_info cdbs"]
      by (auto simp: FtsWalRepInitProbeContext_def Let_def zero_info_def split: prod.splits if_splits dest!: in_set_takeD)
  qed
  from InitProbeContext_ok [OF assms(2,3)] cycle_start zero show ?case by (auto simp: seg_key_def)
next
  case (cycle_round k ctx sh ctx' upd sh')
  then have r: "ctx_ok g sh' ctx'" "list_all2 (seg_step (gp_fts_probe_retries g) (has_mirrors ctx)) (perSegInfos ctx) (perSegInfos ctx')"
    using message_round_ok [of g sh ctx "env k"] assms(4) by auto
  have "(fts_trans (gp_fts_probe_retries g))\<^sup>*\<^sup>* (FTS_PROBE_SEGMENT, 0) (seg_key y)" if "y \<in> set (perSegInfos ctx')" for y
  proof -
    from that r(2) obtain x where "x \<in> set (perSegInfos ctx)" "seg_step (gp_fts_probe_retries g) (has_mirrors ctx) x y"
      by (metis in_set_conv_nth list_all2_conv_all_nth)
    with cycle_round.IH show ?thesis by (meson rtranclp_trans seg_step_def)
  qed
  with r(1) show ?case by blast
qed



text \<open>
  C11: a probe cycle over a cluster with mirrors never runs into an error of its own making.  The only
  errors it can raise are that libpq cannot create a connection object, that libpq returns an
  undocumented status, and that \<^verbatim>\<open>poll()\<close> fails; no null pointer is dereferenced, no transition is
  undefined, no array is overrun and no row is missing from the catalog.
\<close>

theorem fts_cycle_errors:
  assumes "config_ok cdbs sh" and "0 \<le> gp_fts_probe_retries g" and "\<forall>k i. libpq_ok (seg_envs (env k) i)"
    and "length (segment_db_info cdbs) \<noteq> total_segments cdbs"
  shows "FtsWalRepMessageSegments g env cdbs sh \<notin> Some ` Inl `
    (- {ERROR ''FTS: cannot create libpq connection object, possibly out of memory'',
        ERROR ''FTS: invalid response to PQconnectPoll'', ERROR ''FTS: ftsPoll() failed''})"
proof -
  obtain ctx where ctx: "FtsWalRepInitProbeContext cdbs = Inr ctx" "ctx_ok g sh ctx" "has_mirrors ctx"
    using InitProbeContext_ok [OF assms(1,2)] assms(4) by blast
  have "e \<in> env_errors" if "FtsWalRepMessageSegments g env cdbs sh = Some (Inl e)" for e
    using message_loop_errors [OF _ ctx(2,3) assms(3), of 0 False e] that ctx(1) by (simp add: FtsWalRepMessageSegments_def)
  then show ?thesis unfolding env_errors_def by auto
qed

theorem fts_cycle_errors_witness:
  "FtsWalRepMessageSegments example_gucs (\<lambda>_. silent_round) example_cdbs example_shared \<notin> Some ` Inl `
    (- {ERROR ''FTS: cannot create libpq connection object, possibly out of memory'',
        ERROR ''FTS: invalid response to PQconnectPoll'', ERROR ''FTS: ftsPoll() failed''})"
  by (rule fts_cycle_errors [OF example_config]) (simp_all add: silent_libpq example_gucs_def example_cdbs_def)


section \<open>A cycle changes states finitely often\<close>

lemma machine_rank:
  assumes "(fts_trans R)\<^sup>*\<^sup>* x y" and "0 \<le> snd x" and "snd x \<le> R"
  shows "0 \<le> snd y \<and> snd y \<le> R \<and> seg_rank R y \<le> seg_rank R x \<and> (y \<noteq> x \<longrightarrow> seg_rank R y < seg_rank R x)"
  using assms(1)
proof (induction rule: rtranclp_induct)
  case (step y z)
  obtain s n s' n' where "y = (s, n)" "z = (s', n')" by (cases y, cases z)
  with step fts_trans_rank [of R s n s' n'] show ?case by auto
qed (use assms in simp)

lemma sum_list_less:
  fixes f :: "'a \<Rightarrow> nat" and h :: "'a \<Rightarrow> 'b"
  assumes "list_all2 (\<lambda>x y. f y \<le> f x \<and> (h y \<noteq> h x \<longrightarrow> f y < f x)) xs ys"
  shows "sum_list (map f ys) \<le> sum_list (map f xs) \<and> (map h ys \<noteq> map h xs \<longrightarrow> sum_list (map f ys) < sum_list (map f xs))"
  using assms by (induction rule: list_all2_induct) auto

text \<open>
  C15: progress.  To a context belongs a natural number, the sum of the ranks of its segments, which never
  grows in a round, and drops in every round that changes the state or the retry count of some segment:
  a cycle cannot go through the states of its segments forever.
\<close>

theorem fts_round_progress:
  assumes "ctx_ok g sh ctx" and "\<forall>i. libpq_ok (seg_envs env i)" and "message_round g env ctx sh = Inr (ctx', upd, sh')"
  shows "(\<Sum>x\<leftarrow>perSegInfos ctx'. seg_rank (gp_fts_probe_retries g) (seg_key x))
      \<le> (\<Sum>x\<leftarrow>perSegInfos ctx. seg_rank (gp_fts_probe_retries g) (seg_key x)) \<and>
    (map seg_key (perSegInfos ctx') \<noteq> map seg_key (perSegInfos ctx) \<longrightarrow>
     (\<Sum>x\<leftarrow>perSegInfos ctx'. seg_rank (gp_fts_probe_retries g) (seg_key x))
      < (\<Sum>x\<leftarrow>perSegInfos ctx. seg_rank (gp_fts_probe_retries g) (seg_key x)))"
proof -
  let ?R = "gp_fts_probe_retries g"
  let ?f = "\<lambda>x. seg_rank ?R (seg_key x)"
  have steps: "list_all2 (seg_step ?R (has_mirrors ctx)) (perSegInfos ctx) (perSegInfos ctx')"
    using message_round_ok [OF assms(1,2)] assms(3) by simp
  have ok: "\<forall>x \<in> set (perSegInfos ctx). seg_ok ?R (has_mirrors ctx) x" using assms(1) by (simp add: ctx_ok_def)
  have "?f y \<le> ?f x \<and> (seg_key y \<noteq> seg_key x \<longrightarrow> ?f y < ?f x)" if "seg_step ?R (has_mirrors ctx) x y" "seg_ok ?R (has_mirrors ctx) x" for x y
    using machine_rank [of ?R "seg_key x" "seg_key y"] that by (simp add: seg_step_def seg_ok_def seg_key_def)
  with steps ok have "list_all2 (\<lambda>x y. ?f y \<le> ?f x \<and> (seg_key y \<noteq> seg_key x \<longrightarrow> ?f y < ?f x)) (perSegInfos ctx) (perSegInfos ctx')"
    unfolding list_all2_conv_all_nth by (metis nth_mem)
  from sum_list_less [OF this] show ?thesis .
qed

lemma silent_round_run:
  "message_round example_gucs silent_round \<lparr>has_mirrors = True, perSegInfos = [example_info]\<rparr> example_shared =
     Inr (\<lparr>has_mirrors = True, perSegInfos = [example_info\<lparr>conn := Some connecting, poll_events := POLLOUT, timeout_count := 1\<rparr>]\<rparr>, False, example_shared)"
  by (simp add: message_round_def ftsConnect_def connect_seg_def ftsConnectStart_def ftsPoll_def poll_seg_def ftsSend_def
    send_seg_def ftsReceive_def receive_seg_def processRetry_def retry_seg_def processResponse_def response_seg_def ftsResponseReady_def
    ftsCheckTimeout_def silent_round_def silent_env_def connecting_def example_info_def zero_info_def state_sets Let_def PQstatus_def
    POLLIN_def POLLOUT_def poll_result_def c_int_def example_gucs_def)

lemma example_ctx_ok: "ctx_ok example_gucs example_shared \<lparr>has_mirrors = True, perSegInfos = [example_info]\<rparr>"
  using InitProbeContext_ok [OF example_config, of example_gucs] by (simp add: example_init example_gucs_def)

theorem fts_round_progress_witness:
  "(\<Sum>x\<leftarrow>[example_info\<lparr>conn := Some connecting, poll_events := POLLOUT, timeout_count := 1\<rparr>]. seg_rank (gp_fts_probe_retries example_gucs) (seg_key x))
      \<le> (\<Sum>x\<leftarrow>[example_info]. seg_rank (gp_fts_probe_retries example_gucs) (seg_key x))"
  using fts_round_progress [OF example_ctx_ok _ silent_round_run] by (simp add: silent_libpq)

section \<open>Promotion and the configuration\<close>

text \<open>
  C10: what a failed probe does, once its retries are used up.  While the primary is resetting or
  making progress in recovery, or if the mirror is not in sync, nothing in the segment configuration
  changes and nobody is promoted.  Otherwise the catalog is updated first, the failed primary becoming
  a mirror that is down and the mirror the primary, both not in sync, and the roles of the pair are
  swapped for the promotion message.
\<close>

theorem fts_probe_failed_outcome:
  assumes "seg_ok R True info" and "known sh info" and "msg_state info = FTS_PROBE_FAILED"
    and "primary_cdbinfo info = Some p" and "mirror_cdbinfo info = Some m"
    and "SEGMENT_IS_IN_SYNC p = SEGMENT_IS_IN_SYNC m" and "dbid p \<noteq> dbid m"
  shows "\<exists>info' upd sh'. response_seg g True info sh = Inr (info', upd, sh') \<and>
    (if restart_state info \<in> {PM_IN_RESETTING, PM_IN_RECOVERY_MAKING_PROGRESS} \<or> \<not> SEGMENT_IS_IN_SYNC m
     then msg_state info' = FTS_RESPONSE_PROCESSED \<and> gp_segment_configuration sh' = gp_segment_configuration sh \<and> \<not> upd
     else msg_state info' = FTS_PROMOTE_SEGMENT \<and> upd \<and> primary_cdbinfo info' = Some m \<and> mirror_cdbinfo info' = Some p \<and>
       gp_segment_configuration sh' = (gp_segment_configuration sh)
         (dbid p \<mapsto> (GP_SEGMENT_CONFIGURATION_ROLE_MIRROR, GP_SEGMENT_CONFIGURATION_STATUS_DOWN, GP_SEGMENT_CONFIGURATION_MODE_NOTINSYNC),
          dbid m \<mapsto> (GP_SEGMENT_CONFIGURATION_ROLE_PRIMARY, status_char (SEGMENT_IS_ALIVE m), GP_SEGMENT_CONFIGURATION_MODE_NOTINSYNC)))"
proof -
  have alive: "\<not> isPrimaryAlive (probe_result info)" using assms(1,3) by (simp add: seg_ok_def IsFtsMessageStateSuccess_def)
  have idx: "0 \<le> segindex p" "dbid p \<in> dom (gp_segment_configuration sh)" "dbid m \<in> dom (gp_segment_configuration sh)"
    using assms(2,4,5) by (auto simp: known_def)
  obtain sh1 where down: "updateSegmentDownStatus p False True sh = Inr sh1" "gp_segment_configuration sh1 = gp_segment_configuration sh"
    using updateSegmentDownStatus_ok [OF idx(1), of False True sh] by blast
  obtain upd sh2 where up: "updateConfiguration p m GP_SEGMENT_CONFIGURATION_ROLE_MIRROR GP_SEGMENT_CONFIGURATION_ROLE_PRIMARY
      False False (SEGMENT_IS_ALIVE m) sh = Inr (upd, sh2)"
    "SEGMENT_IS_IN_SYNC m \<Longrightarrow> upd \<and> gp_segment_configuration sh2 = (gp_segment_configuration sh)
      (dbid p \<mapsto> (GP_SEGMENT_CONFIGURATION_ROLE_MIRROR, status_char False, mode_char False),
       dbid m \<mapsto> (GP_SEGMENT_CONFIGURATION_ROLE_PRIMARY, status_char (SEGMENT_IS_ALIVE m), mode_char False))"
    using updateConfiguration_ok [OF idx(2,3), of GP_SEGMENT_CONFIGURATION_ROLE_MIRROR GP_SEGMENT_CONFIGURATION_ROLE_PRIMARY False False "SEGMENT_IS_ALIVE m"]
      assms(6,7) by auto
  show ?thesis
    using alive assms(3-5) down up
    by (simp add: response_seg_def ftsResponseReady_def state_sets Let_def response_switch_def probe_failed_def status_char_def mode_char_def) blast
qed

theorem fts_probe_failed_outcome_witness:
  "\<exists>info' upd sh'. response_seg example_gucs True (example_info\<lparr>msg_state := FTS_PROBE_FAILED, retry_count := 5\<rparr>) example_shared = Inr (info', upd, sh') \<and>
    msg_state info' = FTS_PROMOTE_SEGMENT \<and> primary_cdbinfo info' = Some example_mirror"
proof -
  let ?info = "example_info\<lparr>msg_state := FTS_PROBE_FAILED, retry_count := 5\<rparr>"
  have "seg_ok 5 True ?info" "known example_shared ?info"
    by (simp_all add: seg_ok_def known_def example_info_def zero_info_def zero_result_def polled_def io_ok_def state_sets example_defs)
  from fts_probe_failed_outcome [OF this, of example_primary example_mirror example_gucs] show ?thesis
    by (auto simp: example_info_def zero_info_def SEGMENT_IS_IN_SYNC_def GP_SEGMENT_CONFIGURATION_MODE_INSYNC_def example_primary_def example_mirror_def)
qed

text \<open>
  C27: the set of contents that are known to be down is exact, and the history gets a row when, and
  only when, a content goes down or comes back; the set is a bitmapset, and the segment configuration
  is left alone.
\<close>

theorem fts_failed_contents:
  assumes "0 \<le> segindex primary"
  shows "\<exists>sh'. updateSegmentDownStatus primary alive mirrors sh = Inr sh' \<and>
    bms_members (failedContentIds sh') =
      (if alive then bms_members (failedContentIds sh) - {nat (segindex primary)}
       else insert (nat (segindex primary)) (bms_members (failedContentIds sh))) \<and>
    (gp_configuration_history sh' = gp_configuration_history sh \<longleftrightarrow> bms_members (failedContentIds sh') = bms_members (failedContentIds sh)) \<and>
    gp_segment_configuration sh' = gp_segment_configuration sh"
  using updateSegmentDownStatus_ok [OF assms, of alive mirrors sh] by (auto split: if_splits)

theorem fts_failed_contents_witness:
  "\<exists>sh'. updateSegmentDownStatus example_primary False True example_shared = Inr sh' \<and>
    bms_members (failedContentIds sh') = insert 0 (bms_members (failedContentIds example_shared))"
  using fts_failed_contents [of example_primary False True example_shared] by (auto simp: example_primary_def)


section \<open>A response that stays incomplete\<close>

text \<open>
  A segment whose response has begun to arrive: the connection is up with a query under way, the
  descriptor has been found readable, and it is not being polled any more.
\<close>

definition half_read :: "fts_segment_info \<Rightarrow> bool" where
  "half_read info \<longleftrightarrow>
     in_flight (msg_state info) \<and> \<not> polled info \<and> poll_revents info AND POLLIN \<noteq> 0 \<and>
     (\<exists>c. conn info = Some c \<and> conn_status c = CONNECTION_OK \<and> \<not> async_idle c)"

text \<open>The rest of the response does not arrive: reading works, but the response stays incomplete.\<close>

definition stays_busy :: "seg_env \<Rightarrow> bool" where
  "stays_busy env \<longleftrightarrow>
     (\<forall>c. conn_status c = CONNECTION_OK \<and> \<not> async_idle c \<longrightarrow>
        (\<exists>c1 c2. PQconsumeInput env c = (True, c1) \<and> PQisBusy env c1 = (True, c2) \<and> conn_status c2 = CONNECTION_OK \<and> \<not> async_idle c2))"

lemma half_read_connect: "half_read info \<Longrightarrow> connect_seg g env info = Inr info"
  by (auto simp: half_read_def connect_seg_def PQstatus_def)

lemma half_read_fd: "half_read (info\<lparr>fd_index := k\<rparr>) = half_read info"
  by (simp add: half_read_def polled_def)

lemma half_read_poll: "half_read info \<Longrightarrow> poll_seg g env info = Inr info"
  by (simp add: half_read_def poll_seg_def polled_def)

lemma half_read_send: "half_read info \<Longrightarrow> send_seg env info = Inr info"
  by (auto simp: half_read_def send_seg_def)

lemma half_read_receive: "half_read info \<Longrightarrow> stays_busy env \<Longrightarrow> \<exists>info'. receive_seg env info = Inr info' \<and> half_read info'"
  by (auto simp: half_read_def receive_seg_def stays_busy_def polled_def)

lemma half_read_retry: "half_read info \<Longrightarrow> retry_seg g mirrors now info = Inr info"
  by (auto simp: half_read_def retry_seg_def state_sets)

lemma half_read_response: "half_read info \<Longrightarrow> response_seg g mirrors info sh = Inr (info, False, sh)"
  by (auto simp: half_read_def response_seg_def ftsResponseReady_def state_sets)

lemma half_read_fill:
  "i < length xs \<Longrightarrow> half_read (xs ! i) \<Longrightarrow> i < length (fst (fill_fds n xs)) \<and> half_read (fst (fill_fds n xs) ! i)"
proof (induction xs arbitrary: i n)
  case (Cons x xs)
  obtain ys m ys' m' where "fill_fds (n + 1) xs = (ys, m)" "fill_fds n xs = (ys', m')" by (metis prod.exhaust)
  with Cons.IH [of "i - 1" "n + 1"] Cons.IH [of "i - 1" n] Cons.prems show ?case
    by (cases i) (auto simp: half_read_fd)
qed simp

lemma half_read_mapE:
  assumes "mapE f k xs = Inr ys" and "i < length xs" and "half_read (xs ! i)"
    and "\<And>x y. half_read x \<Longrightarrow> f (k + i) x = Inr y \<Longrightarrow> half_read y"
  shows "i < length ys \<and> half_read (ys ! i)"
  using mapE_Inr [OF assms(1)] assms(2-4) by auto

lemma half_read_response_loop:
  "response_loop g mirrors act k xs upd sh = Inr (ys, upd', sh') \<Longrightarrow> i < length xs \<Longrightarrow> half_read (xs ! i) \<Longrightarrow>
   i < length ys \<and> half_read (ys ! i)"
proof (induction xs arbitrary: i k upd sh ys)
  case (Cons x xs)
  show ?case
  proof (cases "act k")
    case True
    with Cons.prems(1) obtain y u sh1 zs where
      y: "response_seg g mirrors x sh = Inr (y, u, sh1)"
        "response_loop g mirrors act (Suc k) xs (upd \<or> u) sh1 = Inr (zs, upd', sh')" "ys = y # zs"
      by (auto simp: bindE_eq_Inr split: prod.splits)
    show ?thesis
    proof (cases i)
      case 0
      with Cons.prems(3) half_read_response [of x] y show ?thesis by simp
    next
      case (Suc j)
      with Cons.IH [OF y(2), of j] Cons.prems y(3) show ?thesis by simp
    qed
  qed (use Cons.prems in simp)
qed simp

lemma half_read_round:
  assumes "message_round g env ctx sh = Inr (ctx', upd, sh')" and "i < length (perSegInfos ctx)"
    and "half_read (perSegInfos ctx ! i)" and "stays_busy (seg_envs env i)"
  shows "i < length (perSegInfos ctx') \<and> half_read (perSegInfos ctx' ! i)"
proof -
  from assms(1) obtain c1 c2 c3 c4 c5 where r: "ftsConnect g env ctx = Inr c1" "ftsPoll g env c1 = Inr c2" "ftsSend env c2 = Inr c3"
    "ftsReceive env c3 = Inr c4" "processRetry g env c4 = Inr c5" "processResponse g env c5 sh = Inr (ctx', upd, sh')"
    by (auto simp: message_round_def bindE_eq_Inr)
  let ?P = "\<lambda>c. i < length (perSegInfos c) \<and> half_read (perSegInfos c ! i)"
  have 1: "?P c1" using r(1) assms(2,3) half_read_connect
    by (auto simp: ftsConnect_def bindE_eq_Inr dest!: half_read_mapE)
  obtain xs n where fd: "fill_fds 0 (perSegInfos c1) = (xs, n)" by force
  have 2: "?P c2" using r(2) half_read_fill [of i "perSegInfos c1" 0] 1 half_read_poll
    by (auto simp: ftsPoll_def fd bindE_eq_Inr split: if_splits dest!: half_read_mapE)
  have 3: "?P c3" using r(3) 2 half_read_send by (auto simp: ftsSend_def bindE_eq_Inr dest!: half_read_mapE)
  have 4: "?P c4" using r(4) 3 half_read_receive [OF _ assms(4)] by (force simp: ftsReceive_def bindE_eq_Inr dest!: half_read_mapE)
  have 5: "?P c5" using r(5) 4 half_read_retry by (auto simp: processRetry_def bindE_eq_Inr dest!: half_read_mapE)
  from r(6) obtain ys where "response_loop g (has_mirrors c5) (active_at env) 0 (perSegInfos c5) False sh = Inr (ys, upd, sh')"
    "ctx' = c5\<lparr>perSegInfos := ys\<rparr>" by (auto simp: processResponse_def bindE_eq_Inr)
  with half_read_response_loop 5 show ?thesis by auto
qed

text \<open>
  C39: the timeout does not cover a response that stays incomplete.  Once a part of the response of some
  segment has arrived and the rest does not follow, a probe cycle never completes while the prober is
  active, however much time passes, since a segment that is not polled is not checked for a timeout.
\<close>

theorem fts_incomplete_response_hangs:
  assumes "i < length (perSegInfos ctx)" and "half_read (perSegInfos ctx ! i)"
    and "\<forall>k. active (env k) \<and> stays_busy (seg_envs (env k) i)"
  shows "message_loop g env k ctx upd sh \<noteq> Some (Inr r)"
proof
  assume "message_loop g env k ctx upd sh = Some (Inr r)"
  then have "i < length (perSegInfos ctx) \<and> half_read (perSegInfos ctx ! i) \<longrightarrow> \<not> isl (Inr r :: (bool \<times> fts_shared) result) \<longrightarrow> False"
  proof (rule message_loop_induct)
    fix k ctx upd sh assume "allDone ctx \<or> \<not> active (env k)"
    then have "msg_state (perSegInfos ctx ! i) = FTS_RESPONSE_PROCESSED" if "i < length (perSegInfos ctx)"
      using assms(3) that by (auto simp: allDone_def list_all_length)
    then show "i < length (perSegInfos ctx) \<and> half_read (perSegInfos ctx ! i) \<longrightarrow> \<not> isl (Inr (upd, sh) :: (bool \<times> fts_shared) result) \<longrightarrow> False"
      by (auto simp: half_read_def in_flight_def)
  next
    fix k ctx upd sh ctx1 upd1 sh1 and r :: "(bool \<times> fts_shared) result"
    assume "message_round g (env k) ctx sh = Inr (ctx1, upd1, sh1)"
      and "i < length (perSegInfos ctx1) \<and> half_read (perSegInfos ctx1 ! i) \<longrightarrow> \<not> isl r \<longrightarrow> False"
    then show "i < length (perSegInfos ctx) \<and> half_read (perSegInfos ctx ! i) \<longrightarrow> \<not> isl r \<longrightarrow> False"
      using half_read_round [of g "env k" ctx sh ctx1 upd1 sh1 i] assms(3) by blast
  qed simp
  with assms(1,2) show False by simp
qed

definition half_read_example :: fts_segment_info where
  "half_read_example = example_info\<lparr>conn := Some \<lparr>conn_status = CONNECTION_OK, async_idle = False, errorMessage = []\<rparr>, poll_revents := POLLIN\<rparr>"

theorem fts_incomplete_response_hangs_witness:
  "message_loop example_gucs (\<lambda>k. silent_round\<lparr>poll_time := 1000 * int k\<rparr>) 0 \<lparr>has_mirrors = True, perSegInfos = [half_read_example]\<rparr> False example_shared
     \<noteq> Some (Inr (False, example_shared))"
  by (rule fts_incomplete_response_hangs [of 0])
    (simp_all add: half_read_def half_read_example_def example_info_def zero_info_def in_flight_def polled_def POLLIN_def
      stays_busy_def silent_round_def silent_env_def)

section \<open>A cluster without mirrors\<close>

lemma message_loop_round:
  "\<not> allDone ctx \<Longrightarrow> active (env k) \<Longrightarrow> message_round g (env k) ctx sh = r \<Longrightarrow>
   message_loop g env k ctx upd sh =
     (case r of Inl e \<Rightarrow> Some (Inl e) | Inr (ctx1, upd1, sh1) \<Rightarrow> message_loop g env (Suc k) ctx1 (upd \<or> upd1) sh1)"
  by (simp add: message_loop.simps [of g env k])

text \<open>The answer of a postmaster that is resetting.\<close>

definition resetting_env :: seg_env where
  "resetting_env = silent_env\<lparr>PQconnectPoll := (\<lambda>c. (PGRES_POLLING_FAILED, connecting\<lparr>errorMessage := ''FATAL:  the database system is resetting''\<rparr>))\<rparr>"

definition resetting_rounds :: "nat \<Rightarrow> round_env" where
  "resetting_rounds k = silent_round\<lparr>seg_envs := (\<lambda>_. resetting_env), poll_nready := 1, poll_ready := (\<lambda>_. POLLOUT)\<rparr>"


end
