(* ===== verification/Spec2Isabelle.thy ===== *)
theory Spec2Isabelle
  imports Bitmapset VisimapCommand VarBlockCheck HeapQueue GddBackend FtsCycle
begin

text \<open>
  A verification library for parts of Greengage, a database that runs one coordinator and many segments,
  each of them a PostgreSQL server.  File names below are relative to \<^verbatim>\<open>src/src/\<close>.

  \<^bold>\<open>The parts and how they interact.\<close>  Three subsystems are modelled from their leaf functions up.

  \<^item> The visibility map of append-optimized tables.  Deleted rows of such a table are hidden by a
    bitmap per range of 32768 rows.  A row is named by a packed tuple id; an entry of the map keeps the
    hidden offsets in a bitmapset; for storage the bitmapset is compressed through a bitstream.  The
    entries are rows of an auxiliary table with an index.  A delete command keeps one entry in memory
    and stashes the other changed ones in a buffered temporary file, until it writes them all back.
  \<^item> The global deadlock detector.  A background worker on the coordinator collects the waits of all
    segments, builds one wait-for graph per segment, reduces the graphs, and cancels transactions until
    nothing is left of them.
  \<^item> The fault tolerance service.  A process on the coordinator probes the primaries through libpq, retries,
    updates the catalog, and promotes mirrors.  The contents that it knows to be down form a bitmapset.

  \<^bold>\<open>Theories, in the order of their dependencies.\<close>

  \<^item> \<^verbatim>\<open>Prelude\<close>: the C integer types as words, the error type, loops over lists that may fail, formats of
    numbers, lemmas on lists and words.
  \<^item> \<^verbatim>\<open>BitUtils\<close>: \<^verbatim>\<open>port/pg_bitutils.c\<close> and \<^verbatim>\<open>include/port/pg_bitutils.h\<close> in the portable version with tables
    of bytes.  Scans and count of a 64-bit word agree with the set of its bits.  The locale
    \<open>bitmapword_ops\<close> is what bitmapsets need of them.
  \<^item> \<^verbatim>\<open>Bitmapset\<close>: all of \<^verbatim>\<open>backend/nodes/bitmapset.c\<close>, a \<^verbatim>\<open>Bitmapset *\<close> being an optional list of words.
    The operations refine the operations on sets, whatever the lengths of the word arrays.  The locale
    \<open>bms_interface\<close> is what the visibility map needs of them.
  \<^item> \<^verbatim>\<open>Bitstream\<close>: \<^verbatim>\<open>backend/utils/misc/bitstream.c\<close>, a buffer with a cursor.  Its contract, the locale
    \<open>field_stream\<close>, is in terms of the bits written and unread.
  \<^item> \<^verbatim>\<open>BitmapCompression\<close>: \<^verbatim>\<open>backend/utils/misc/bitmap_compression.c\<close>.  Decompression inverts compression,
    and is memory safe on damaged input in the default format, but not in the raw format.
  \<^item> \<^verbatim>\<open>AOTupleId\<close>: \<^verbatim>\<open>include/access/appendonlytid.h\<close>, the packing at the widths of the C types, and where
    the arithmetic of logical heap blocks wraps.
  \<^item> \<^verbatim>\<open>VisimapEntry\<close>: \<^verbatim>\<open>backend/access/appendonly/appendonly_visimap_entry.c\<close>.  An entry denotes a set of
    hidden rows.  Hiding, asking, iterating, writing and reading back are described over that set.
  \<^item> \<^verbatim>\<open>Bytes\<close>: buffers as lists of bytes with checked accesses, numbers as bytes, arrays of cells.
  \<^item> \<^verbatim>\<open>VarBlock\<close>, \<^verbatim>\<open>VarBlockFormat\<close>, \<^verbatim>\<open>VarBlockCheck\<close>: \<^verbatim>\<open>backend/cdb/cdbvarblock.c\<close>, the blocks of variable-length items of
    which append-optimized tables consist.  The first has the definitions, down to the bytes.  The second gives the
    format that a list of items has, and shows that the maker produces it and the readers undo it.  The third
    shows that the check accepts exactly this format, on any bytes.
  \<^item> \<^verbatim>\<open>BufFile\<close>, \<^verbatim>\<open>BufFileBytes\<close>, \<^verbatim>\<open>SpillFile\<close>: \<^verbatim>\<open>backend/storage/file/buffile.c\<close> for files of one process without
    compression.  The first has the definitions: segments of bytes, a buffer, a position.  The second
    gives a file its content, which is the bytes of the segments with the buffer laid over them, and treats each
    operation.  The third shows that sequences of operations behave as on a plain list of bytes, where
    seeks to the end and the reported size deviate from that, and has the locale \<open>spill_file\<close>, the
    contract of a file whose positions are kept for later.
  \<^item> \<^verbatim>\<open>VisimapStore\<close>: \<^verbatim>\<open>backend/access/appendonly/appendonly_visimap_store.c\<close> over the rows of the auxiliary
    table in the order of the index.  Changes of the table are operations that a run emits.
  \<^item> \<^verbatim>\<open>Visimap\<close>: \<^verbatim>\<open>backend/access/appendonly/appendonly_visimap.c\<close>, the uniqueness check of
    \<^verbatim>\<open>include/access/appendonly_visimap.h\<close> and the deletion functions of \<^verbatim>\<open>appendonlyam.c\<close>.  The stash is modelled
    down to the bytes of keys and bitmaps in the temporary file.
  \<^item> \<^verbatim>\<open>VisimapSession\<close>, \<^verbatim>\<open>VisimapFinish\<close>, \<^verbatim>\<open>VisimapCommand\<close>: the invariant of a running delete command, which
    ties the memory entry, the cache, the temporary file and the table together, and that each operation
    keeps it; the final write back; then the properties of whole commands and of scans, with the function
    \<^verbatim>\<open>gp_aovisimap\<close> of \<^verbatim>\<open>appendonly_visimap_udf.c\<close>.
  \<^item> \<^verbatim>\<open>BinaryHeap\<close>, \<^verbatim>\<open>HeapQueue\<close>: \<^verbatim>\<open>backend/lib/binaryheap.c\<close>.  The first has the definitions: an array of nodes with a
    comparator that reads memory of the client.  The second shows that the operations behave as those of a
    priority queue, also when the client changes that memory for the node at the root, as it does before replacing it.
  \<^item> \<^verbatim>\<open>Gdd\<close>, \<^verbatim>\<open>GddReduce\<close>, \<^verbatim>\<open>GddBreak\<close>: \<^verbatim>\<open>backend/utils/gdd/gdddetector.c\<close>.  The first has the definitions, where
    pointers are names in maps.  The second relates a context to the set of edges it represents, and
    shows that the reduction loop ends with the greatest stable subset of the edges.  The third
    treats the loop that picks victims and the contexts that the detector reaches.
  \<^item> \<^verbatim>\<open>GddBackend\<close>: a round of \<^verbatim>\<open>backend/utils/gdd/gddbackend.c\<close>.  Its properties speak of the rows of
    waits and of the cancelled processes only: the victims are right, no deadlock survives, no acyclic
    set of waits raises an alarm, errors end a round with a status.
  \<^item> \<^verbatim>\<open>Fts\<close>, \<^verbatim>\<open>FtsMachine\<close>, \<^verbatim>\<open>FtsCycle\<close>: \<^verbatim>\<open>backend/fts/ftsprobe.c\<close> and the catalog updates of \<^verbatim>\<open>fts.c\<close>.  The first
    has the definitions.  The second has the state machine of a segment as an inductive relation and
    shows that every function of the prober's loop follows it and keeps the invariant of a segment's
    record.  The third has the properties of whole cycles.

  The locale \<open>union_closed\<close> of \<^verbatim>\<open>GddReduce\<close> gives the greatest member below a given one for a property that
  is closed under unions; it is interpreted for the stable sets of edges and for the deadlocked sets of waits.

  \<^bold>\<open>Conventions.\<close>  \<^verbatim>\<open>NULL\<close> is \<open>None\<close>.  \<^verbatim>\<open>elog(ERROR)\<close> is \<open>Inl (ERROR message)\<close>.  Undefined behaviour, which
  is an access outside of a buffer or through a null pointer, is \<open>Inl (UB description)\<close>, so that its
  absence is a theorem.  Integers have the width of the source wherever a computation can exceed it.
  \<^verbatim>\<open>Assert\<close> is compiled out and never a branch.  Updates in place return the new value; no two live
  pointers of the modelled code share an object that one of them updates, except in the deadlock
  detector, where objects are named and looked up.

  \<^bold>\<open>Loops.\<close>  There is no fuel.  Loops over arrays recurse on the list or on the number of remaining
  elements.  The loops whose end is not evident are partial functions into \<open>option\<close>, with \<open>None\<close>
  for not returning: \<open>writeback_loop\<close> and \<open>gp_aovisimap_loop\<close> are shown to return; \<open>GddCtxReduce\<close> is shown to return on every reachable context; \<open>break_loop\<close> to
  return when transaction ids are below \<open>2 ^ 31\<close>, and to run forever on certain greater ids;
  \<open>message_loop\<close>, a probe cycle, to lower a rank with every change of state, and to run forever when
  a response stays incomplete.

  \<^bold>\<open>Assumptions about code that is not part of the sources or not modelled.\<close>  They are arguments of the
  definitions and hypotheses of the theorems: the hash function behind \<^verbatim>\<open>bms_hash_value\<close>; the rows of
  \<^verbatim>\<open>gp_dist_wait_status()\<close>, the running transactions, and the outcome of cancelling; what libpq, \<^verbatim>\<open>poll()\<close>
  and the clock do in each round of a probe cycle, where \<open>libpq_ok\<close> is the documented behaviour of
  libpq that the cycle relies on; how many bytes a read or a write of a file transfers, where \<open>io_ok\<close> says
  that it transfers some if it can; the rows that a snapshot sees in the auxiliary table of a visibility map,
  where \<open>rows_ok\<close> says that the index returns them in ascending order and that they are entries that an earlier
  command has written; what an array contains before it is written.

  \<^bold>\<open>Not modelled.\<close>  Memory contexts, logging as such, fault injection; the main loops of the two background
  processes with their latches and signals; \<^verbatim>\<open>gddfuncs.c\<close>, which reads the lock tables, and
  \<^verbatim>\<open>ftsmessagehandler.c\<close>, which answers probes from shared memory; buffered files that are
  shared between processes or compressed; the functions that report on a visibility map other than
  \<^verbatim>\<open>gp_aovisimap\<close>; the variants of the bit primitives in assembler and for 32 bits; and the rest of
  the server, such as dispatch, interconnect, planner, executor and storage, which does I/O or is too
  large for a model of this kind.
\<close>

end
